(* ===== verification/Prelude.thy ===== *)
theory Prelude
  imports Complex_Main "HOL-Library.Multiset"
begin

text \<open>
  Shared vocabulary of the development.

  \<^item> \<open>outcome\<close> is what a Python call produces: a value or a raised exception. A method that
    mutates an object is a function \<open>'s \<Rightarrow> 'a outcome \<times> 's\<close>: the state is returned on both
    paths, because an exception does not undo the mutations that preceded it.
  \<^item> \<open>bindS\<close> is sequencing, \<open>for_each\<close> a \<^verbatim>\<open>for\<close> loop whose body may raise.
  \<^item> \<open>ceil_div\<close> is Python's \<^verbatim>\<open>-(-a // b)\<close>, \<open>scatter\<close> and \<open>gather\<close> are the indexed tensor write
    and read, \<open>deque_append\<close> is \<^verbatim>\<open>append\<close> on a \<^verbatim>\<open>deque(maxlen=n)\<close>.
  The lemmas are the generic facts on lists, multisets and arithmetic the components share.
\<close>

section \<open>Outcomes and sequencing\<close>

datatype py_error =
    RuntimeError string
  | OutOfBlocks
  | IndexError
  | KeyError
  | ValueError string
  | TypeError
  | ZeroDivisionError
  | TimeoutError
  | EtcdError

datatype 'a outcome = Ret 'a | Raise py_error

definition bindS :: "'a outcome \<times> 's \<Rightarrow> ('a \<Rightarrow> 's \<Rightarrow> 'b outcome \<times> 's) \<Rightarrow> 'b outcome \<times> 's" where
  "bindS r f = (case r of (Ret a, s) \<Rightarrow> f a s | (Raise e, s) \<Rightarrow> (Raise e, s))"

fun for_each :: "('x \<Rightarrow> 's \<Rightarrow> 'a outcome \<times> 's) \<Rightarrow> 'x list \<Rightarrow> 's \<Rightarrow> unit outcome \<times> 's" where
  "for_each f [] s = (Ret (), s)"
| "for_each f (x # xs) s = bindS (f x s) (\<lambda>_ s'. for_each f xs s')"

fun is_ret :: "'a outcome \<Rightarrow> bool" where
  "is_ret (Ret _) = True"
| "is_ret (Raise _) = False"

section \<open>Arithmetic, tensors and queues\<close>

definition ceil_div :: "nat \<Rightarrow> nat \<Rightarrow> nat" where
  "ceil_div a b = nat (- ((- int a) div int b))"

fun scatter :: "nat list \<Rightarrow> 'r list \<Rightarrow> 'r list \<Rightarrow> 'r list" where
  "scatter (i # is) (r # rs) xs = scatter is rs (xs[i := r])"
| "scatter _ _ xs = xs"

definition gather :: "'r list \<Rightarrow> nat list \<Rightarrow> 'r list" where
  "gather xs is = map (\<lambda>i. xs ! i) is"

definition deque_append :: "nat \<Rightarrow> 'a list \<Rightarrow> 'a \<Rightarrow> 'a list" where
  "deque_append n q x = drop (length q + 1 - n) (q @ [x])"

section \<open>Collections of facts\<close>

named_theorems frame_simps \<open>what an operation leaves unchanged\<close>
named_theorems wf_intros \<open>preservation of a component's invariant\<close>

section \<open>Lemmas\<close>

lemma bindS_Ret [simp]: "bindS (Ret a, s) f = f a s"
  by (simp add: bindS_def)

lemma bindS_Raise [simp]: "bindS (Raise e, s) f = (Raise e, s)"
  by (simp add: bindS_def)

lemma bindS_eq_Ret:
  "bindS r f = (Ret b, t) \<longleftrightarrow> (\<exists>a s. r = (Ret a, s) \<and> f a s = (Ret b, t))"
  by (cases r; cases "fst r") (auto simp: bindS_def split: outcome.splits)

lemma for_each_append:
  "for_each f (xs @ ys) s = bindS (for_each f xs s) (\<lambda>_ s'. for_each f ys s')"
proof (induction xs arbitrary: s)
  case Nil
  then show ?case by simp
next
  case (Cons x xs)
  then show ?case
    by (cases "f x s"; cases "fst (f x s)") auto
qed

lemma for_each_invariant:
  assumes "\<And>x s r s'. x \<in> set xs \<Longrightarrow> I s \<Longrightarrow> f x s = (r, s') \<Longrightarrow> I s'"
    and "I s" and "for_each f xs s = (r, s')"
  shows "I s'"
  using assms
proof (induction xs arbitrary: s)
  case Nil
  then show ?case by simp
next
  case (Cons x xs)
  obtain q t where q: "f x s = (q, t)" by (cases "f x s")
  have "I t" using Cons.prems(1) [of x s q t] Cons.prems(2) q by simp
  then show ?case
    using Cons.IH [of t] Cons.prems q by (cases q) auto
qed

subsection \<open>Rounding up\<close>

lemma ceil_div_bounds:
  assumes "0 < b"
  shows "a \<le> ceil_div a b * b" and "ceil_div a b * b < a + b"
proof -
  define q where "q = (- int a) div int b"
  define r where "r = (- int a) mod int b"
  have r: "0 \<le> r" "r < int b" and eq: "- int a = int b * q + r"
    using assms by (simp_all add: q_def r_def)
  have "q \<le> 0"
    using assms div_neg_pos_less0 [of "- int a" "int b"] by (cases "a = 0") (auto simp: q_def)
  then have "int (ceil_div a b) = - q"
    by (simp add: ceil_div_def q_def)
  then have "int (ceil_div a b * b) = int a + r"
    using eq by (simp add: algebra_simps)
  then show "a \<le> ceil_div a b * b" and "ceil_div a b * b < a + b"
    using r by linarith+
qed

lemma ceil_div_unique:
  assumes "0 < b" and "a \<le> c * b" and "c * b < a + b"
  shows "ceil_div a b = c"
proof -
  note * = ceil_div_bounds [OF assms(1), of a]
  have "ceil_div a b * b < (c + 1) * b" "c * b < (ceil_div a b + 1) * b"
    using * assms(2,3) by (simp_all add: algebra_simps)
  then show ?thesis
    by (simp only: mult_less_cancel2) simp
qed

lemma ceil_div_0 [simp]: "ceil_div 0 b = 0"
  by (simp add: ceil_div_def)

lemma ceil_div_mult [simp]: "0 < b \<Longrightarrow> ceil_div (n * b) b = n"
  by (rule ceil_div_unique) auto

lemma ceil_div_mono: "0 < b \<Longrightarrow> a \<le> a' \<Longrightarrow> ceil_div a b \<le> ceil_div a' b"
proof (rule ccontr)
  assume b: "0 < b" and le: "a \<le> a'" and "\<not> ceil_div a b \<le> ceil_div a' b"
  then have "(ceil_div a' b + 1) * b \<le> ceil_div a b * b"
    by (intro mult_le_mono1) simp
  then show False
    using ceil_div_bounds [OF b, of a] ceil_div_bounds [OF b, of a'] le
    by (simp add: algebra_simps)
qed

lemma ceil_div_le_iff: "0 < b \<Longrightarrow> ceil_div a b \<le> n \<longleftrightarrow> a \<le> n * b"
proof
  assume b: "0 < b"
  show "a \<le> n * b" if "ceil_div a b \<le> n"
    using ceil_div_bounds(1) [OF b, of a] mult_le_mono1 [OF that, of b] by linarith
  show "ceil_div a b \<le> n" if "a \<le> n * b"
    using ceil_div_mono [OF b that] b by simp
qed

lemma ceil_div_Suc:
  assumes "0 < b"
  shows "ceil_div (Suc a) b = (if a mod b = 0 then Suc (ceil_div a b) else ceil_div a b)"
proof (cases "a mod b = 0")
  case True
  then obtain n where n: "a = n * b" by (metis dvdE mod_0_imp_dvd mult.commute)
  then show ?thesis
    using assms True by (intro trans [OF ceil_div_unique [of b _ "Suc n"]]) auto
next
  case False
  have *: "a \<le> ceil_div a b * b" "ceil_div a b * b < a + b"
    using ceil_div_bounds [OF assms, of a] by auto
  moreover have "a \<noteq> ceil_div a b * b"
    using False by (metis mod_mult_self2_is_0)
  ultimately have "ceil_div (Suc a) b = ceil_div a b"
    by (intro ceil_div_unique [OF assms]) linarith+
  with False show ?thesis by simp
qed

lemma div_less_ceil_div: "0 < b \<Longrightarrow> i < n \<Longrightarrow> i div b < ceil_div n b"
proof -
  assume b: "0 < b" and "i < n"
  then have "i < ceil_div n b * b"
    using ceil_div_bounds(1) [OF b, of n] by linarith
  then show ?thesis
    using b by (simp add: less_mult_imp_div_less)
qed

subsection \<open>Indexed writes and reads\<close>

lemma length_scatter [simp]: "length (scatter is rs xs) = length xs"
  by (induction "is" rs xs rule: scatter.induct) auto

lemma scatter_outside: "j \<notin> set is \<Longrightarrow> scatter is rs xs ! j = xs ! j"
  by (induction "is" rs xs rule: scatter.induct) auto

lemma scatter_inside:
  assumes "distinct is" and "length rs = length is" and "\<forall>i\<in>set is. i < length xs"
    and "n < length is"
  shows "scatter is rs xs ! (is ! n) = rs ! n"
  using assms
proof (induction "is" rs xs arbitrary: n rule: scatter.induct)
  case (1 i "is" r rs xs)
  then show ?case
    by (cases n) (auto simp: scatter_outside)
qed auto

lemma gather_scatter_same:
  assumes "distinct is" and "length rs = length is" and "\<forall>i\<in>set is. i < length xs"
  shows "gather (scatter is rs xs) is = rs"
  using assms by (auto simp: gather_def scatter_inside intro: nth_equalityI)

lemma gather_scatter_disjoint:
  assumes "set is \<inter> set js = {}"
  shows "gather (scatter is rs xs) js = gather xs js"
  using assms by (auto simp: gather_def disjoint_iff intro!: scatter_outside)

lemma length_gather [simp]: "length (gather xs is) = length is"
  by (simp add: gather_def)

lemma gather_append [simp]: "gather xs (is @ js) = gather xs is @ gather xs js"
  by (simp add: gather_def)

lemma gather_Nil [simp]: "gather xs [] = []"
  by (simp add: gather_def)

lemma gather_take: "gather xs (take n is) = take n (gather xs is)"
  by (simp add: gather_def take_map)

lemma gather_cong: "(\<And>i. i \<in> set is \<Longrightarrow> xs ! i = ys ! i) \<Longrightarrow> gather xs is = gather ys is"
  by (simp add: gather_def)

subsection \<open>Bounded queues\<close>

lemma length_deque_append: "0 < n \<Longrightarrow> length q \<le> n \<Longrightarrow> length (deque_append n q x) \<le> n"
  by (simp add: deque_append_def)

lemma deque_append_not_full: "length q < n \<Longrightarrow> deque_append n q x = q @ [x]"
  by (simp add: deque_append_def)

subsection \<open>Lists and multisets\<close>

lemma take_Suc_drop: "n < length xs \<Longrightarrow> take (Suc n) xs = take n xs @ [xs ! n]"
  by (rule take_Suc_conv_app_nth)

lemma count_mset_distinct: "distinct xs \<Longrightarrow> count (mset xs) x = (if x \<in> set xs then 1 else 0)"
  by (simp add: distinct_count_atmost_1)

lemma set_mset_subset_le: "A \<subseteq># B \<Longrightarrow> set_mset A \<subseteq> set_mset B"
  by (rule set_mset_mono)

lemma butlast_last_snoc: "xs \<noteq> [] \<Longrightarrow> xs = butlast xs @ [last xs]"
  by simp

lemma sum_list_positive: "xs \<noteq> [] \<Longrightarrow> \<forall>x \<in> set xs. (0 :: real) < x \<Longrightarrow> 0 < sum_list xs"
  by (induction xs rule: list_nonempty_induct) (auto simp: add_pos_pos)

end
