(* ===== verification/Config.thy ===== *)
theory Config
  imports Prelude
begin

text \<open>
  \<^verbatim>\<open>model/config.py\<close>: the dataclass \<^verbatim>\<open>NanoConfig\<close> as the record \<open>nano_config\<close>, its validation
  (\<open>post_init\<close>, every \<^verbatim>\<open>raise\<close> a branch), the derived sizes and the analytic parameter count. Python's
  unbounded non-negative sizes are \<open>nat\<close>; the three float hyper-parameters are \<open>real\<close>.
\<close>

record nano_config =
  vocab_size :: nat
  hidden_size :: nat
  num_hidden_layers :: nat
  num_attention_heads :: nat
  num_key_value_heads :: nat
  intermediate_size :: nat
  max_position_embeddings :: nat
  rms_norm_eps :: real
  rope_theta :: real
  initializer_range :: real
  tie_word_embeddings :: bool
  attention_bias :: bool
  mlp_bias :: bool

definition head_dim :: "nano_config \<Rightarrow> nat" where
  "head_dim c = hidden_size c div num_attention_heads c"

definition n_rep :: "nano_config \<Rightarrow> nat" where
  "n_rep c = num_attention_heads c div num_key_value_heads c"

definition post_init :: "nano_config \<Rightarrow> unit outcome" where
  "post_init c =
     (if num_attention_heads c = 0 then Raise ZeroDivisionError
      else if hidden_size c mod num_attention_heads c \<noteq> 0
        then Raise (ValueError ''hidden_size not divisible by num_attention_heads'')
      else if num_key_value_heads c = 0 then Raise ZeroDivisionError
      else if num_attention_heads c mod num_key_value_heads c \<noteq> 0
        then Raise (ValueError ''num_attention_heads not divisible by num_key_value_heads'')
      else if head_dim c mod 2 \<noteq> 0 then Raise (ValueError ''head_dim must be even for RoPE'')
      else Ret ())"

definition kv_bytes_per_token :: "nano_config \<Rightarrow> nat" where
  "kv_bytes_per_token c =
     (let per_layer = 2 * num_key_value_heads c * head_dim c * 2
      in per_layer * num_hidden_layers c)"

definition NANO_27M :: nano_config where
  "NANO_27M = \<lparr>vocab_size = 8192, hidden_size = 512, num_hidden_layers = 8, num_attention_heads = 8,
     num_key_value_heads = 2, intermediate_size = 1408, max_position_embeddings = 1024,
     rms_norm_eps = 1 / 100000, rope_theta = 10000, initializer_range = 2 / 100,
     tie_word_embeddings = True, attention_bias = False, mlp_bias = False\<rparr>"

definition TINY :: nano_config where
  "TINY = NANO_27M\<lparr>vocab_size := 256, hidden_size := 64, num_hidden_layers := 2,
     num_attention_heads := 4, num_key_value_heads := 2, intermediate_size := 176,
     max_position_embeddings := 128\<rparr>"

record param_counts =
  embedding :: nat
  per_layer :: nat
  layers :: nat
  final_norm :: nat
  lm_head :: nat
  total_params :: nat
  non_embedding :: nat

definition count_parameters :: "nano_config \<Rightarrow> param_counts" where
  "count_parameters c =
     (let h = hidden_size c; ffn = intermediate_size c; v = vocab_size c;
          kv_h = num_key_value_heads c * head_dim c;
          embed = v * h;
          attn = (h * h) + 2 * (h * kv_h) + (h * h);
          mlp = 3 * (h * ffn);
          norms = 2 * h;
          pl = attn + mlp + norms;
          body = num_hidden_layers c * pl + h;
          head = (if tie_word_embeddings c then 0 else v * h)
      in \<lparr>embedding = embed, per_layer = pl, layers = num_hidden_layers c * pl, final_norm = h,
          lm_head = head, total_params = embed + body + head, non_embedding = body\<rparr>)"

section \<open>What validation guarantees\<close>

lemma post_init_Ret_iff:
  "post_init c = Ret () \<longleftrightarrow>
     0 < num_attention_heads c \<and> num_attention_heads c dvd hidden_size c \<and>
     0 < num_key_value_heads c \<and> num_key_value_heads c dvd num_attention_heads c \<and> even (head_dim c)"
  by (auto simp: post_init_def dvd_eq_mod_eq_0)

lemma post_init_shapes:
  assumes "post_init c = Ret ()"
  shows "num_attention_heads c * head_dim c = hidden_size c"
    and "num_key_value_heads c * n_rep c = num_attention_heads c"
  using assms by (auto simp: post_init_Ret_iff head_dim_def n_rep_def)

end
