(* ===== verification/Transformer.thy ===== *)
theory Transformer
  imports Config
begin

text \<open>
  The decoder of \<^verbatim>\<open>model/transformer.py\<close>. A tensor is a nested list of reals, outermost dimension
  first; hidden states are \<open>batch \<Rightarrow> time \<Rightarrow> vector\<close>, keys and values \<open>batch \<Rightarrow> time \<Rightarrow> head \<Rightarrow> vector\<close>
  (the source transposes time and head for its kernel; the order of the data is the same).
  The modules and kernels of torch are parameters, gathered in the records \<open>layer_w\<close> and \<open>model_w\<close>:
  a \<^verbatim>\<open>nn.Linear\<close> is a function on the last dimension, \<open>sdpa\<close> is
  \<^verbatim>\<open>scaled_dot_product_attention\<close> for one batch entry and head, \<open>rsqrt\<close> and \<open>silu\<close> the elementwise
  functions. What torch documents of \<^verbatim>\<open>sdpa\<close> is the predicate \<open>sdpa_doc\<close>, a hypothesis of the theorems that
  need it. Changes of dtype are the identity on reals.

  A KV cache is any function \<open>upd\<close> of the protocol's type; the forward pass threads its state, and an
  exception it raises ends the pass.
\<close>

type_synonym vec = "real list"
type_synonym kv_row = "vec list"
type_synonym hidden = "vec list list"
type_synonym kv_tensor = "kv_row list list"
type_synonym 's kv_update =
  "nat \<Rightarrow> kv_tensor \<Rightarrow> kv_tensor \<Rightarrow> 's \<Rightarrow> (kv_tensor \<times> kv_tensor) outcome \<times> 's"
type_synonym mask = "bool list list list"

section \<open>Parameters: modules and kernels\<close>

record layer_w =
  q_proj :: "vec \<Rightarrow> vec"
  k_proj :: "vec \<Rightarrow> vec"
  v_proj :: "vec \<Rightarrow> vec"
  o_proj :: "vec \<Rightarrow> vec"
  gate_proj :: "vec \<Rightarrow> vec"
  up_proj :: "vec \<Rightarrow> vec"
  down_proj :: "vec \<Rightarrow> vec"
  input_layernorm :: vec
  post_attention_layernorm :: vec

record model_w =
  mcfg :: nano_config
  embed_tokens :: "nat \<Rightarrow> vec"
  mlayers :: "layer_w list"
  norm_w :: vec
  lm_head_w :: "vec \<Rightarrow> vec"
  rsqrt :: "real \<Rightarrow> real"
  silu :: "real \<Rightarrow> real"
  sdpa :: "vec list \<Rightarrow> vec list \<Rightarrow> vec list \<Rightarrow> bool list list option \<Rightarrow> bool \<Rightarrow> real \<Rightarrow> vec list"

section \<open>Normalisation and feed-forward\<close>

definition mean :: "vec \<Rightarrow> real" where
  "mean x = sum_list x / real (length x)"

definition vadd :: "vec \<Rightarrow> vec \<Rightarrow> vec" where
  "vadd a b = map2 (+) a b"

definition vmul :: "vec \<Rightarrow> vec \<Rightarrow> vec" where
  "vmul a b = map2 (*) a b"

definition rms_norm :: "(real \<Rightarrow> real) \<Rightarrow> real \<Rightarrow> vec \<Rightarrow> vec \<Rightarrow> vec" where
  "rms_norm rsq eps weight x =
     (let rms = rsq (mean (map (\<lambda>a. a ^ 2) x) + eps)
      in vmul (map (\<lambda>a. a * rms) x) weight)"

definition swiglu :: "model_w \<Rightarrow> layer_w \<Rightarrow> vec \<Rightarrow> vec" where
  "swiglu M lw x = down_proj lw (vmul (map (silu M) (gate_proj lw x)) (up_proj lw x))"

section \<open>Rotary position embeddings\<close>

record rope =
  rope_dim :: nat
  rope_base :: real
  max_positions :: nat
  cos_cached :: "vec list"
  sin_cached :: "vec list"

definition inv_freq :: "real \<Rightarrow> nat \<Rightarrow> vec" where
  "inv_freq base dh = map (\<lambda>i. 1 / (base powr (real (2 * i) / real dh))) [0..<(dh + 1) div 2]"

definition rope_emb :: "real \<Rightarrow> nat \<Rightarrow> nat \<Rightarrow> vec" where
  "rope_emb base dh t = (let freqs = map (\<lambda>f. real t * f) (inv_freq base dh) in freqs @ freqs)"

definition build_tables :: "nat \<Rightarrow> rope \<Rightarrow> rope" where
  "build_tables n r =
     (let emb = map (rope_emb (rope_base r) (rope_dim r)) [0..<n]
      in r\<lparr>max_positions := n, cos_cached := map (map cos) emb, sin_cached := map (map sin) emb\<rparr>)"

definition new_rope :: "nat \<Rightarrow> nat \<Rightarrow> real \<Rightarrow> rope" where
  "new_rope dh n base =
     build_tables n \<lparr>rope_dim = dh, rope_base = base, max_positions = 0, cos_cached = [], sin_cached = []\<rparr>"

definition rope_ensure_capacity :: "nat \<Rightarrow> rope \<Rightarrow> rope" where
  "rope_ensure_capacity m r = (if m > max_positions r then build_tables m r else r)"

definition rope_lookup :: "rope \<Rightarrow> nat list list \<Rightarrow> (vec list list \<times> vec list list) outcome" where
  "rope_lookup r pos =
     (if \<forall>row \<in> set pos. \<forall>p \<in> set row. p < length (cos_cached r)
      then Ret (map (map (\<lambda>p. cos_cached r ! p)) pos, map (map (\<lambda>p. sin_cached r ! p)) pos)
      else Raise IndexError)"

definition rotate_half :: "vec \<Rightarrow> vec" where
  "rotate_half x = (let half = length x div 2 in map uminus (drop half x) @ take half x)"

definition rotate :: "vec \<Rightarrow> vec \<Rightarrow> vec \<Rightarrow> vec" where
  "rotate x c s = vadd (vmul x c) (vmul (rotate_half x) s)"

definition apply_rotary :: "kv_tensor \<Rightarrow> vec list list \<Rightarrow> vec list list \<Rightarrow> kv_tensor" where
  "apply_rotary q cs sn =
     map (\<lambda>(rows, (cr, sr)). map (\<lambda>(heads, (c, s)). map (\<lambda>x. rotate x c s) heads) (zip rows (zip cr sr)))
       (zip q (zip cs sn))"

section \<open>Attention\<close>

fun split_heads :: "nat \<Rightarrow> nat \<Rightarrow> vec \<Rightarrow> kv_row" where
  "split_heads 0 d x = []"
| "split_heads (Suc n) d x = take d x # split_heads n d (drop d x)"

definition repeat_kv :: "nat \<Rightarrow> kv_row \<Rightarrow> kv_row" where
  "repeat_kv n heads = (if n = 1 then heads else concat (map (replicate n) heads))"

definition offset_causal_mask :: "nat \<Rightarrow> nat \<Rightarrow> bool list list" where
  "offset_causal_mask q_len kv_len =
     map (\<lambda>qp. map (\<lambda>kp. kp \<le> qp) [0..<kv_len]) [kv_len - q_len..<kv_len]"

definition time_dim :: "'a list list \<Rightarrow> nat" where
  "time_dim x = (case x of [] \<Rightarrow> 0 | rows # _ \<Rightarrow> length rows)"

definition mask_regime :: "nat \<Rightarrow> nat \<Rightarrow> nat \<Rightarrow> mask option \<Rightarrow> mask option \<times> bool" where
  "mask_regime b t kv_len attn_mask =
     (if attn_mask = None \<and> t > 1
      then if t = kv_len then (None, True)
           else (Some (replicate b (offset_causal_mask t kv_len)), False)
      else (attn_mask, False))"

definition head_of :: "nat \<Rightarrow> kv_row list \<Rightarrow> vec list" where
  "head_of h rows = map (\<lambda>r. r ! h) rows"

definition sdpa_heads ::
  "model_w \<Rightarrow> nat \<Rightarrow> kv_row list \<Rightarrow> kv_row list \<Rightarrow> kv_row list \<Rightarrow> bool list list option \<Rightarrow> bool \<Rightarrow> real \<Rightarrow> vec list" where
  "sdpa_heads M nh q k v m caus scale =
     (let outs = map (\<lambda>h. sdpa M (head_of h q) (head_of h k) (head_of h v) m caus scale) [0..<nh]
      in map (\<lambda>t. concat (map (\<lambda>out. out ! t) outs)) [0..<length q])"

definition attend ::
  "model_w \<Rightarrow> layer_w \<Rightarrow> kv_tensor \<Rightarrow> kv_tensor \<Rightarrow> kv_tensor \<Rightarrow> mask option \<Rightarrow> hidden" where
  "attend M lw q k v attn_mask =
     (let c = mcfg M; nr = n_rep c; nh = num_attention_heads c;
          k = map (map (repeat_kv nr)) k; v = map (map (repeat_kv nr)) v;
          t = time_dim q; kv_len = time_dim k;
          (m, is_causal) = mask_regime (length q) t kv_len attn_mask;
          scale = 1 / sqrt (real (head_dim c))
      in map (\<lambda>i. map (o_proj lw)
            (sdpa_heads M nh (q ! i) (k ! i) (v ! i) (map_option (\<lambda>mm. mm ! i) m) is_causal scale))
          [0..<length q])"

definition attention ::
  "model_w \<Rightarrow> layer_w \<Rightarrow> nat \<Rightarrow> hidden \<Rightarrow> vec list list \<Rightarrow> vec list list \<Rightarrow> 's kv_update option \<Rightarrow>
   mask option \<Rightarrow> 's \<Rightarrow> hidden outcome \<times> 's" where
  "attention M lw layer_idx x cs sn cache attn_mask s =
     (let c = mcfg M; nh = num_attention_heads c; nkv = num_key_value_heads c; dh = head_dim c;
          q = apply_rotary (map (map (\<lambda>r. split_heads nh dh (q_proj lw r))) x) cs sn;
          k = apply_rotary (map (map (\<lambda>r. split_heads nkv dh (k_proj lw r))) x) cs sn;
          v = map (map (\<lambda>r. split_heads nkv dh (v_proj lw r))) x
      in bindS (case cache of None \<Rightarrow> (Ret (k, v), s) | Some upd \<Rightarrow> upd layer_idx k v s)
           (\<lambda>(k, v) s. (Ret (attend M lw q k v attn_mask), s)))"

section \<open>Layers and the model\<close>

definition hadd :: "hidden \<Rightarrow> hidden \<Rightarrow> hidden" where
  "hadd x y = map2 (map2 vadd) x y"

definition decoder_layer ::
  "model_w \<Rightarrow> layer_w \<Rightarrow> nat \<Rightarrow> hidden \<Rightarrow> vec list list \<Rightarrow> vec list list \<Rightarrow> 's kv_update option \<Rightarrow>
   mask option \<Rightarrow> 's \<Rightarrow> hidden outcome \<times> 's" where
  "decoder_layer M lw i x cs sn cache attn_mask s =
     (let nrm = rms_norm (rsqrt M) (rms_norm_eps (mcfg M)) in
      bindS (attention M lw i (map (map (nrm (input_layernorm lw))) x) cs sn cache attn_mask s)
        (\<lambda>a s. let x = hadd x a;
                   x = hadd x (map (map (\<lambda>r. swiglu M lw (nrm (post_attention_layernorm lw) r))) x)
               in (Ret x, s)))"

fun run_layers ::
  "model_w \<Rightarrow> layer_w list \<Rightarrow> nat \<Rightarrow> hidden \<Rightarrow> vec list list \<Rightarrow> vec list list \<Rightarrow> 's kv_update option \<Rightarrow>
   mask option \<Rightarrow> 's \<Rightarrow> hidden outcome \<times> 's" where
  "run_layers M [] i x cs sn cache attn_mask s = (Ret x, s)"
| "run_layers M (lw # lws) i x cs sn cache attn_mask s =
     bindS (decoder_layer M lw i x cs sn cache attn_mask s)
       (\<lambda>x s. run_layers M lws (Suc i) x cs sn cache attn_mask s)"

definition embed :: "model_w \<Rightarrow> nat list list \<Rightarrow> hidden outcome" where
  "embed M ids =
     (if \<forall>row \<in> set ids. \<forall>t \<in> set row. t < vocab_size (mcfg M)
      then Ret (map (map (embed_tokens M)) ids) else Raise IndexError)"

definition nano_model ::
  "model_w \<Rightarrow> nat list list \<Rightarrow> nat list list option \<Rightarrow> ('s kv_update \<times> ('s \<Rightarrow> nat)) option \<Rightarrow> mask option \<Rightarrow>
   rope \<times> 's \<Rightarrow> hidden outcome \<times> (rope \<times> 's)" where
  "nano_model M input_ids position_ids cache attn_mask st =
     (case st of (r, s) \<Rightarrow>
        let t = time_dim input_ids;
            past = (case cache of None \<Rightarrow> 0 | Some (_, len) \<Rightarrow> len s);
            (r, pos) = (case position_ids of
                Some pos \<Rightarrow> (r, pos)
              | None \<Rightarrow> (rope_ensure_capacity (past + t) r, replicate (length input_ids) [past..<past + t]))
        in (case embed M input_ids of
              Raise e \<Rightarrow> (Raise e, (r, s))
            | Ret x \<Rightarrow>
                (case rope_lookup r pos of
                   Raise e \<Rightarrow> (Raise e, (r, s))
                 | Ret (cs, sn) \<Rightarrow>
                     (case run_layers M (mlayers M) 0 x cs sn (map_option fst cache) attn_mask s of
                        (Raise e, s) \<Rightarrow> (Raise e, (r, s))
                      | (Ret x, s) \<Rightarrow>
                          (Ret (map (map (rms_norm (rsqrt M) (rms_norm_eps (mcfg M)) (norm_w M))) x), (r, s))))))"

definition nano_causal_lm ::
  "model_w \<Rightarrow> nat list list \<Rightarrow> nat list list option \<Rightarrow> ('s kv_update \<times> ('s \<Rightarrow> nat)) option \<Rightarrow> mask option \<Rightarrow>
   rope \<times> 's \<Rightarrow> hidden outcome \<times> (rope \<times> 's)" where
  "nano_causal_lm M input_ids position_ids cache attn_mask st =
     bindS (nano_model M input_ids position_ids cache attn_mask st)
       (\<lambda>h st. (Ret (map (map (lm_head_w M)) h), st))"

text \<open>The training loss pairs position \<open>t\<close> with token \<open>t + 1\<close>; \<open>cross_entropy\<close> is torch's, over the
  flattened pairs.\<close>

definition lm_loss :: "(vec list \<Rightarrow> int list \<Rightarrow> real) \<Rightarrow> hidden \<Rightarrow> int list list \<Rightarrow> real" where
  "lm_loss cross_entropy logits labels =
     cross_entropy (concat (map butlast logits)) (concat (map tl labels))"

section \<open>The growing contiguous cache\<close>

record dyn_cache =
  dkeys :: "kv_tensor option list"
  dvalues :: "kv_tensor option list"

definition new_dyn_cache :: dyn_cache where
  "new_dyn_cache = \<lparr>dkeys = [], dvalues = []\<rparr>"

definition dyn_pad :: "nat \<Rightarrow> dyn_cache \<Rightarrow> dyn_cache" where
  "dyn_pad l c =
     (let n = Suc l - length (dkeys c)
      in c\<lparr>dkeys := dkeys c @ replicate n None, dvalues := dvalues c @ replicate n None\<rparr>)"

definition cat_time :: "kv_tensor \<Rightarrow> kv_tensor \<Rightarrow> kv_tensor" where
  "cat_time a b = map2 (@) a b"

definition dyn_update :: "dyn_cache kv_update" where
  "dyn_update l k v c =
     (let c = dyn_pad l c in
      case dkeys c ! l of
        None \<Rightarrow> (Ret (k, v), c\<lparr>dkeys := (dkeys c)[l := Some k], dvalues := (dvalues c)[l := Some v]\<rparr>)
      | Some prev_k \<Rightarrow>
          (case dvalues c ! l of
             None \<Rightarrow> (Raise TypeError, c)
           | Some prev_v \<Rightarrow>
               if length prev_k \<noteq> length k \<or> length prev_v \<noteq> length v
               then (Raise (RuntimeError ''sizes of tensors must match''), c)
               else let nk = cat_time prev_k k; nv = cat_time prev_v v
                    in (Ret (nk, nv), c\<lparr>dkeys := (dkeys c)[l := Some nk], dvalues := (dvalues c)[l := Some nv]\<rparr>)))"

definition dyn_len :: "dyn_cache \<Rightarrow> nat" where
  "dyn_len c = (case dkeys c of Some k # _ \<Rightarrow> time_dim k | _ \<Rightarrow> 0)"

section \<open>Parameters of the model\<close>

text \<open>The named parameters of the module tree, with their number of elements; a tied head is the same
  tensor as the embedding and is listed once.\<close>

definition linear_numel :: "nat \<Rightarrow> nat \<Rightarrow> bool \<Rightarrow> nat list" where
  "linear_numel n_in n_out bias = (if bias then [n_out * n_in, n_out] else [n_out * n_in])"

definition layer_parameters :: "nano_config \<Rightarrow> nat list" where
  "layer_parameters c =
     (let h = hidden_size c; dh = head_dim c in
      linear_numel h (num_attention_heads c * dh) (attention_bias c) @
      linear_numel h (num_key_value_heads c * dh) (attention_bias c) @
      linear_numel h (num_key_value_heads c * dh) (attention_bias c) @
      linear_numel (num_attention_heads c * dh) h (attention_bias c) @
      linear_numel h (intermediate_size c) (mlp_bias c) @
      linear_numel h (intermediate_size c) (mlp_bias c) @
      linear_numel (intermediate_size c) h (mlp_bias c) @ [h, h])"

definition num_parameters :: "nano_config \<Rightarrow> bool \<Rightarrow> nat" where
  "num_parameters c skip_embedding =
     sum_list ((if skip_embedding then [] else [vocab_size c * hidden_size c]) @
       concat (replicate (num_hidden_layers c) (layer_parameters c)) @ [hidden_size c] @
       (if tie_word_embeddings c then [] else linear_numel (hidden_size c) (vocab_size c) False))"

section \<open>What torch documents of its attention kernel\<close>

text \<open>\<open>visible m caus i kv\<close> are the key-value pairs query \<open>i\<close> may attend to: all, those the boolean mask
  allows, or with \<^verbatim>\<open>is_causal\<close> those at positions up to \<open>i\<close>.\<close>

definition allowed :: "bool list list option \<Rightarrow> bool \<Rightarrow> nat \<Rightarrow> nat \<Rightarrow> bool" where
  "allowed m caus i j = ((case m of None \<Rightarrow> True | Some mm \<Rightarrow> mm ! i ! j) \<and> (caus \<longrightarrow> j \<le> i))"

definition visible :: "bool list list option \<Rightarrow> bool \<Rightarrow> nat \<Rightarrow> (vec \<times> vec) list \<Rightarrow> (vec \<times> vec) list" where
  "visible m caus i kv = map (\<lambda>j. kv ! j) (filter (allowed m caus i) [0..<length kv])"

definition sdpa_doc ::
  "(vec list \<Rightarrow> vec list \<Rightarrow> vec list \<Rightarrow> bool list list option \<Rightarrow> bool \<Rightarrow> real \<Rightarrow> vec list) \<Rightarrow>
   (real \<Rightarrow> vec \<Rightarrow> (vec \<times> vec) list \<Rightarrow> vec) \<Rightarrow> bool" where
  "sdpa_doc f att \<longleftrightarrow>
     (\<forall>q k v m caus scale. length v = length k \<longrightarrow>
        f q k v m caus scale = map (\<lambda>i. att scale (q ! i) (visible m caus i (zip k v))) [0..<length q])"

definition dot :: "vec \<Rightarrow> vec \<Rightarrow> real" where
  "dot a b = sum_list (map2 (*) a b)"

section \<open>Rotations depend on relative position\<close>

lemma length_inv_freq [simp]: "length (inv_freq base dh) = (dh + 1) div 2"
  by (simp add: inv_freq_def)

lemma length_rope_emb: "even dh \<Longrightarrow> length (rope_emb base dh t) = dh"
  by (auto simp: rope_emb_def Let_def elim: evenE)

lemma nth_rope_emb:
  assumes "dh = 2 * h" and "i < h"
  shows "rope_emb base dh t ! i = real t * inv_freq base dh ! i"
    and "rope_emb base dh t ! (h + i) = real t * inv_freq base dh ! i"
  using assms by (simp_all add: rope_emb_def Let_def nth_append)

lemma build_tables_fields [simp]:
  "rope_dim (build_tables n r) = rope_dim r" "rope_base (build_tables n r) = rope_base r"
  "max_positions (build_tables n r) = n"
  "length (cos_cached (build_tables n r)) = n" "length (sin_cached (build_tables n r)) = n"
  by (simp_all add: build_tables_def Let_def)

lemma build_tables_nth:
  assumes "t < n"
  shows "cos_cached (build_tables n r) ! t = map cos (rope_emb (rope_base r) (rope_dim r) t)"
    and "sin_cached (build_tables n r) ! t = map sin (rope_emb (rope_base r) (rope_dim r) t)"
  using assms by (simp_all add: build_tables_def Let_def)

lemma dot_sum: "length a = n \<Longrightarrow> length b = n \<Longrightarrow> dot a b = (\<Sum>i<n. a ! i * b ! i)"
  by (simp add: dot_def sum_list_sum_nth atLeast0LessThan)

lemma length_rotate:
  "length x = dh \<Longrightarrow> length c = dh \<Longrightarrow> length s = dh \<Longrightarrow> length (rotate x c s) = dh"
  by (simp add: rotate_def vadd_def vmul_def rotate_half_def Let_def)

lemma nth_rotate:
  assumes "length x = 2 * h" "length c = 2 * h" "length s = 2 * h" "i < h"
  shows "rotate x c s ! i = x ! i * c ! i - x ! (h + i) * s ! i"
    and "rotate x c s ! (h + i) = x ! (h + i) * c ! (h + i) + x ! i * s ! (h + i)"
  using assms by (simp_all add: rotate_def vadd_def vmul_def rotate_half_def Let_def nth_append)

lemma sum_split: "(\<Sum>i<a + (b::nat). f i) = (\<Sum>i<a. f i) + (\<Sum>i<b. f (a + i))"
  by (induction b) (simp_all add: add.assoc)

lemma sum_halves: "(\<Sum>i<2 * (h::nat). f i) = (\<Sum>i<h. f i + f (h + i))"
  by (simp only: mult_2 sum_split sum.distrib)

lemma rotated_pair:
  fixes a b a' b' x y :: real
  shows "(a * cos x - b * sin x) * (a' * cos y - b' * sin y) + (b * cos x + a * sin x) * (b' * cos y + a' * sin y) =
    (a * a' + b * b') * cos (x - y) + (a * b' - b * a') * sin (x - y)"
  by (simp add: cos_diff sin_diff algebra_simps)

lemma dot_rotated:
  assumes "dh = 2 * h" and "length q = dh" and "length k = dh"
  shows "dot (rotate q (map cos (rope_emb base dh m)) (map sin (rope_emb base dh m)))
             (rotate k (map cos (rope_emb base dh n)) (map sin (rope_emb base dh n))) =
    (\<Sum>i<h. (q ! i * k ! i + q ! (h + i) * k ! (h + i)) * cos ((real m - real n) * inv_freq base dh ! i) +
            (q ! i * k ! (h + i) - q ! (h + i) * k ! i) * sin ((real m - real n) * inv_freq base dh ! i))"
proof -
  let ?e = "rope_emb base dh"
  have e: "length (?e t) = 2 * h" for t
    using assms(1) by (simp add: length_rope_emb)
  have l: "length (rotate x (map cos (?e t)) (map sin (?e t))) = 2 * h" if "length x = dh" for x t
    using length_rotate [of x "2 * h" "map cos (?e t)" "map sin (?e t)"] that assms(1) e by simp
  show ?thesis
    unfolding dot_sum [OF l [OF assms(2)] l [OF assms(3)]] sum_halves
    using assms e nth_rope_emb [OF assms(1)]
    by (intro sum.cong refl) (simp add: nth_rotate rotated_pair left_diff_distrib [symmetric])
qed

text \<open>C31: attention scores depend on relative position only. With the tables the model builds, rotating a
  query for position \<open>m\<close> and a key for position \<open>n\<close> gives the same score when both positions are shifted
  by the same distance.\<close>

theorem rope_relative_position:
  assumes "even dh" and "length q = dh" and "length k = dh" and "m + d < N" and "n + d < N"
  shows "(let r = new_rope dh N base in
    dot (rotate q (cos_cached r ! (m + d)) (sin_cached r ! (m + d)))
        (rotate k (cos_cached r ! (n + d)) (sin_cached r ! (n + d))) =
    dot (rotate q (cos_cached r ! m) (sin_cached r ! m)) (rotate k (cos_cached r ! n) (sin_cached r ! n)))"
proof -
  obtain h where h: "dh = 2 * h" using assms(1) by (auto elim: evenE)
  show ?thesis
    using assms dot_rotated [OF h assms(2,3)]
    by (simp add: Let_def new_rope_def build_tables_nth)
qed

theorem rope_relative_position_witness:
  "(let r = new_rope 2 8 10000 in
    dot (rotate [1, 2] (cos_cached r ! (3 + 4)) (sin_cached r ! (3 + 4)))
        (rotate [5, 7] (cos_cached r ! (1 + 4)) (sin_cached r ! (1 + 4))) =
    dot (rotate [1, 2] (cos_cached r ! 3) (sin_cached r ! 3)) (rotate [5, 7] (cos_cached r ! 1) (sin_cached r ! 1)))"
  by (rule rope_relative_position) simp_all

text \<open>Growing the rotary tables is invisible. After \<^verbatim>\<open>ensure_capacity\<close> every position below the
  requested bound can be looked up, and positions that were already covered keep their values.\<close>

theorem rope_growth_is_stable:
  assumes "\<forall>p \<in> set pos. p < m"
  shows "(let r = new_rope dh n base; r' = rope_ensure_capacity m r in
     is_ret (rope_lookup r' [pos]) \<and>
     (is_ret (rope_lookup r [pos]) \<longrightarrow> rope_lookup r' [pos] = rope_lookup r [pos]))"
  using assms
  by (auto simp: Let_def rope_ensure_capacity_def rope_lookup_def new_rope_def build_tables_nth)

theorem rope_growth_is_stable_witness:
  "is_ret (rope_lookup (rope_ensure_capacity 9 (new_rope 4 2 10000)) [[0, 1, 8]])"
  using rope_growth_is_stable [of "[0, 1, 8]" 9 4 2 10000] by (simp add: Let_def)

section \<open>Grouped-query attention\<close>

lemma sum_list_concat_replicate: "sum_list (concat (replicate n xs)) = n * (sum_list xs :: nat)"
  by (induction n) simp_all

lemma nth_concat_replicate:
  "i < length xs * n \<Longrightarrow> concat (map (replicate n) xs) ! i = xs ! (i div n)"
proof (induction xs arbitrary: i)
  case Nil
  then show ?case by simp
next
  case (Cons x xs)
  show ?case
  proof (cases "i < n")
    case True
    then show ?thesis by (simp add: nth_append)
  next
    case False
    with Cons.prems have "0 < n" by (cases n) auto
    with False obtain j where "i = n + j" "j < length xs * n"
      using Cons.prems by (metis add.commute add_less_cancel_left le_Suc_ex length_Cons mult_Suc not_less)
    with Cons.IH [of j] \<open>0 < n\<close> show ?thesis by (simp add: nth_append)
  qed
qed

lemma length_repeat_kv: "length (repeat_kv n heads) = length heads * n"
  by (simp add: repeat_kv_def length_concat comp_def sum_list_triv)

lemma nth_repeat_kv: "i < length heads * n \<Longrightarrow> repeat_kv n heads ! i = heads ! (i div n)"
  by (auto simp: repeat_kv_def nth_concat_replicate)

section \<open>The analytic parameter count\<close>

text \<open>C32: the analytic count equals the module's. For a valid configuration without bias terms,
  \<^verbatim>\<open>count_parameters\<close> returns the number of elements of the parameters the modules create, tied or untied;
  its non-embedding figure is the module's as well once the head is set apart.\<close>

theorem count_parameters_correct:
  assumes "post_init c = Ret ()" and "\<not> attention_bias c" and "\<not> mlp_bias c"
  shows "num_parameters c False = total_params (count_parameters c) \<and>
    num_parameters c True = non_embedding (count_parameters c) + lm_head (count_parameters c)"
proof -
  have dims: "num_attention_heads c * head_dim c = hidden_size c"
    using post_init_shapes [OF assms(1)] by simp
  show ?thesis
    using assms(2,3)
    by (simp add: num_parameters_def count_parameters_def layer_parameters_def linear_numel_def Let_def dims
        sum_list_concat_replicate)
qed

theorem count_parameters_correct_witness:
  "num_parameters NANO_27M False = total_params (count_parameters NANO_27M) \<and>
   num_parameters NANO_27M True = non_embedding (count_parameters NANO_27M) + lm_head (count_parameters NANO_27M)"
  by (rule count_parameters_correct) (simp_all add: post_init_def NANO_27M_def head_dim_def)

end
