(* ===== verification/Block_Allocator.thy ===== *)
theory Block_Allocator
  imports Prelude
begin

text \<open>
  The reference-counted free list of \<^verbatim>\<open>engine/block_manager.py\<close>: \<open>allocator\<close> is the class
  \<^verbatim>\<open>BlockAllocator\<close> (\<open>free_blocks\<close> is its stack \<^verbatim>\<open>_free\<close>, \<open>refs\<close> its list \<^verbatim>\<open>_refs\<close>), with one
  definition per method. A block id outside the pool raises \<^verbatim>\<open>IndexError\<close>, as the list access does.

  The contract is stated over the multiset of references the clients hold: \<open>alloc_ok a M\<close> says
  that the reference count of every block is its multiplicity in \<open>M\<close> and that exactly the
  unreferenced blocks are free. The locale \<open>refcounted\<close> is that contract as an interface; the paged
  cache, the prefix cache and the engine are verified against its laws, and the interpretation
  \<open>ba\<close> discharges them for the code.
\<close>

section \<open>The class\<close>

record allocator =
  num_blocks :: nat
  free_blocks :: "nat list"
  refs :: "nat list"

definition new_allocator :: "nat \<Rightarrow> allocator" where
  "new_allocator n = \<lparr>num_blocks = n, free_blocks = rev [0..<n], refs = replicate n 0\<rparr>"

definition allocate :: "allocator \<Rightarrow> nat option \<times> allocator" where
  "allocate a =
     (if free_blocks a = [] then (None, a)
      else let block = last (free_blocks a)
           in (Some block, a\<lparr>free_blocks := butlast (free_blocks a), refs := (refs a)[block := 1]\<rparr>))"

fun allocate_times :: "nat \<Rightarrow> allocator \<Rightarrow> nat option list \<times> allocator" where
  "allocate_times 0 a = ([], a)"
| "allocate_times (Suc n) a =
     (let (b, a') = allocate a; (bs, a'') = allocate_times n a' in (b # bs, a''))"

definition allocate_many :: "nat \<Rightarrow> allocator \<Rightarrow> nat option list option \<times> allocator" where
  "allocate_many n a =
     (if n > length (free_blocks a) then (None, a)
      else let (bs, a') = allocate_times n a in (Some bs, a'))"

definition incref :: "nat \<Rightarrow> allocator \<Rightarrow> unit outcome \<times> allocator" where
  "incref block a =
     (if block \<ge> length (refs a) then (Raise IndexError, a)
      else if refs a ! block \<le> 0 then (Raise (RuntimeError ''incref on free block''), a)
      else (Ret (), a\<lparr>refs := (refs a)[block := refs a ! block + 1]\<rparr>))"

definition decref :: "nat \<Rightarrow> allocator \<Rightarrow> bool outcome \<times> allocator" where
  "decref block a =
     (if block \<ge> length (refs a) then (Raise IndexError, a)
      else if refs a ! block \<le> 0 then (Raise (RuntimeError ''decref on free block''), a)
      else let a' = a\<lparr>refs := (refs a)[block := refs a ! block - 1]\<rparr>
           in if refs a' ! block = 0
              then (Ret True, a'\<lparr>free_blocks := free_blocks a' @ [block]\<rparr>)
              else (Ret False, a'))"

definition ref_count :: "allocator \<Rightarrow> nat \<Rightarrow> nat outcome" where
  "ref_count a block = (if block \<ge> length (refs a) then Raise IndexError else Ret (refs a ! block))"

definition num_free :: "allocator \<Rightarrow> nat" where
  "num_free a = length (free_blocks a)"

definition num_allocated :: "allocator \<Rightarrow> nat" where
  "num_allocated a = num_blocks a - length (free_blocks a)"

definition num_shared :: "allocator \<Rightarrow> nat" where
  "num_shared a = length (filter (\<lambda>r. r > 1) (refs a))"

text \<open>The reference-counting contract: \<open>M\<close> is the multiset of references in existence.\<close>

definition alloc_ok :: "allocator \<Rightarrow> nat multiset \<Rightarrow> bool" where
  "alloc_ok a M \<longleftrightarrow>
     length (refs a) = num_blocks a \<and>
     (\<forall>b < num_blocks a. refs a ! b = count M b) \<and>
     set_mset M \<subseteq> {..<num_blocks a} \<and>
     distinct (free_blocks a) \<and>
     set (free_blocks a) = {b. b < num_blocks a \<and> b \<notin># M}"

section \<open>The interface\<close>

locale refcounted =
  fixes ok :: "'a \<Rightarrow> nat multiset \<Rightarrow> bool"
    and alloc :: "'a \<Rightarrow> nat option \<times> 'a"
    and inc :: "nat \<Rightarrow> 'a \<Rightarrow> unit outcome \<times> 'a"
    and dec :: "nat \<Rightarrow> 'a \<Rightarrow> bool outcome \<times> 'a"
    and count_of :: "'a \<Rightarrow> nat \<Rightarrow> nat outcome"
    and nfree :: "'a \<Rightarrow> nat"
    and total :: "'a \<Rightarrow> nat"
  assumes alloc_none: "ok a M \<Longrightarrow> nfree a = 0 \<Longrightarrow> alloc a = (None, a)"
    and alloc_some: "ok a M \<Longrightarrow> 0 < nfree a \<Longrightarrow>
      \<exists>b a'. alloc a = (Some b, a') \<and> b \<notin># M \<and> b < total a \<and> ok a' (add_mset b M) \<and>
        nfree a' = nfree a - 1 \<and> total a' = total a"
    and inc_held: "ok a M \<Longrightarrow> b \<in># M \<Longrightarrow>
      \<exists>a'. inc b a = (Ret (), a') \<and> ok a' (add_mset b M) \<and> nfree a' = nfree a \<and> total a' = total a"
    and dec_held: "ok a M \<Longrightarrow> b \<in># M \<Longrightarrow>
      \<exists>a'. dec b a = (Ret (b \<notin># M - {#b#}), a') \<and> ok a' (M - {#b#}) \<and>
        nfree a' = nfree a + (if b \<in># M - {#b#} then 0 else 1) \<and> total a' = total a"
    and count_held: "ok a M \<Longrightarrow> b < total a \<Longrightarrow> count_of a b = Ret (count M b)"
    and held_bounded: "ok a M \<Longrightarrow> b \<in># M \<Longrightarrow> b < total a"
    and accounting: "ok a M \<Longrightarrow> nfree a + card (set_mset M) = total a"
begin

lemma inc_all:
  assumes "ok a M" and "set bs \<subseteq> set_mset M"
  shows "\<exists>a'. for_each inc bs a = (Ret (), a') \<and> ok a' (M + mset bs) \<and>
    nfree a' = nfree a \<and> total a' = total a"
  using assms
proof (induction bs arbitrary: a M)
  case Nil
  then show ?case by simp
next
  case (Cons b bs)
  then obtain a1 where a1: "inc b a = (Ret (), a1)" "ok a1 (add_mset b M)"
      "nfree a1 = nfree a" "total a1 = total a"
    using inc_held [of a M b] by auto
  with Cons obtain a2 where "for_each inc bs a1 = (Ret (), a2)" "ok a2 (add_mset b M + mset bs)"
      "nfree a2 = nfree a1" "total a2 = total a1"
    by (metis (no_types, lifting) set_mset_add_mset_insert set_subset_Cons subset_insertI2 subset_trans)
  with a1 show ?case by simp
qed

lemma dec_all:
  assumes "ok a (M + mset bs)"
  shows "\<exists>a'. for_each dec bs a = (Ret (), a') \<and> ok a' M \<and> total a' = total a"
  using assms
proof (induction bs arbitrary: a)
  case Nil
  then show ?case by simp
next
  case (Cons b bs)
  then obtain a1 r where a1: "dec b a = (Ret r, a1)" "ok a1 (M + mset bs)" "total a1 = total a"
    using dec_held [of a "M + mset (b # bs)" b] by auto
  with Cons.IH [of a1] show ?case by auto
qed

lemma count_positive: "ok a M \<Longrightarrow> b \<in># M \<Longrightarrow> count_of a b = Ret (count M b) \<and> 0 < count M b"
  by (simp add: count_held held_bounded)

lemma empty_is_all_free: "ok a {#} \<Longrightarrow> nfree a = total a"
  using accounting by fastforce

lemma free_bound: "ok a M \<Longrightarrow> nfree a \<le> total a"
  using accounting by fastforce

lemma dec_all_nfree_mono:
  assumes "ok a (M + mset bs)" and "for_each dec bs a = (Ret (), a')"
  shows "nfree a \<le> nfree a'"
proof -
  obtain a2 where a2: "for_each dec bs a = (Ret (), a2)" "ok a2 M" "total a2 = total a"
    using dec_all [OF assms(1)] by blast
  then have eq: "a2 = a'" using assms(2) by simp
  have "card (set_mset M) \<le> card (set_mset (M + mset bs))"
    by (intro card_mono) auto
  then show ?thesis
    using accounting [OF assms(1)] accounting [OF a2(2)] a2(3) unfolding eq by linarith
qed

end

section \<open>The code meets the contract\<close>

lemma new_allocator_ok: "alloc_ok (new_allocator n) {#}"
  by (auto simp: alloc_ok_def new_allocator_def)

lemma alloc_ok_free_bounded: "alloc_ok a M \<Longrightarrow> b \<in> set (free_blocks a) \<Longrightarrow> b < num_blocks a \<and> b \<notin># M"
  by (auto simp: alloc_ok_def)

lemma set_butlast_distinct: "distinct xs \<Longrightarrow> xs \<noteq> [] \<Longrightarrow> set (butlast xs) = set xs - {last xs}"
  by (metis Diff_insert_absorb append_butlast_last_id list.simps(15) rotate1.simps(2) set_rotate1
      not_distinct_conv_prefix distinct_butlast)

lemma allocate_ok:
  assumes ok: "alloc_ok a M" and ne: "0 < num_free a"
  shows "\<exists>b a'. allocate a = (Some b, a') \<and> b \<notin># M \<and> b < num_blocks a \<and> alloc_ok a' (add_mset b M) \<and>
    num_free a' = num_free a - 1 \<and> num_blocks a' = num_blocks a"
proof -
  let ?b = "last (free_blocks a)"
  have ne': "free_blocks a \<noteq> []" using ne by (auto simp: num_free_def)
  then have b: "?b \<in> set (free_blocks a)" by simp
  with ok have bb: "?b < num_blocks a" "?b \<notin># M" by (auto dest: alloc_ok_free_bounded)
  then have c0: "count M ?b = 0" by (simp add: not_in_iff)
  have "distinct (free_blocks a)" using ok by (simp add: alloc_ok_def)
  then have bl: "set (butlast (free_blocks a)) = set (free_blocks a) - {?b}"
    using ne' by (rule set_butlast_distinct)
  have "alloc_ok (snd (allocate a)) (add_mset ?b M)"
    using ok bb c0 bl ne' by (auto simp: alloc_ok_def allocate_def Let_def nth_list_update distinct_butlast)
  with ne' bb show ?thesis
    by (auto simp: allocate_def Let_def num_free_def)
qed

lemma incref_ok:
  assumes "alloc_ok a M" and "b \<in># M"
  shows "\<exists>a'. incref b a = (Ret (), a') \<and> alloc_ok a' (add_mset b M) \<and> num_free a' = num_free a \<and>
    num_blocks a' = num_blocks a"
  using assms by (auto simp: alloc_ok_def incref_def nth_list_update num_free_def)

lemma decref_ok:
  assumes ok: "alloc_ok a M" and b: "b \<in># M"
  shows "\<exists>a'. decref b a = (Ret (b \<notin># M - {#b#}), a') \<and> alloc_ok a' (M - {#b#}) \<and>
    num_free a' = num_free a + (if b \<in># M - {#b#} then 0 else 1) \<and> num_blocks a' = num_blocks a"
proof -
  have bb: "b < num_blocks a" "refs a ! b = count M b" "0 < count M b" "length (refs a) = num_blocks a"
    using ok b by (auto simp: alloc_ok_def)
  have eq: "(b \<in># M - {#b#}) = (count M b \<noteq> 1)"
    using bb(3) by (simp add: in_diff_count del: count_greater_zero_iff) linarith
  have "alloc_ok (snd (decref b a)) (M - {#b#})"
    using ok b bb eq by (auto simp: alloc_ok_def decref_def Let_def nth_list_update in_diff_count
        dest: in_diffD)
  moreover have "count M b = 1 \<or> 1 < count M b"
    using bb(3) by linarith
  ultimately show ?thesis
    using bb eq by (elim disjE) (auto simp: decref_def Let_def num_free_def)
qed

lemma alloc_ok_accounting: "alloc_ok a M \<Longrightarrow> num_free a + card (set_mset M) = num_blocks a"
proof -
  assume ok: "alloc_ok a M"
  then have "num_free a = card {b. b < num_blocks a \<and> b \<notin># M}"
    by (metis alloc_ok_def distinct_card num_free_def)
  moreover have "{..<num_blocks a} = {b. b < num_blocks a \<and> b \<notin># M} \<union> set_mset M"
    using ok by (auto simp: alloc_ok_def)
  then have "num_blocks a = card {b. b < num_blocks a \<and> b \<notin># M} + card (set_mset M)"
    by (metis (no_types, lifting) card_Un_disjoint card_lessThan disjoint_iff finite_Un
        finite_lessThan mem_Collect_eq)
  ultimately show ?thesis by simp
qed

interpretation ba: refcounted alloc_ok allocate incref decref ref_count num_free num_blocks
proof
  fix a M b
  show "alloc_ok a M \<Longrightarrow> num_free a = 0 \<Longrightarrow> allocate a = (None, a)"
    by (simp add: num_free_def allocate_def)
  show "alloc_ok a M \<Longrightarrow> b < num_blocks a \<Longrightarrow> ref_count a b = Ret (count M b)"
    by (simp add: alloc_ok_def ref_count_def)
  show "alloc_ok a M \<Longrightarrow> b \<in># M \<Longrightarrow> b < num_blocks a"
    by (auto simp: alloc_ok_def)
qed (rule allocate_ok incref_ok decref_ok alloc_ok_accounting; assumption)+

subsection \<open>All-or-nothing allocation\<close>

lemma allocate_times_ok:
  assumes "alloc_ok a M" and "n \<le> num_free a"
  shows "\<exists>bs a'. allocate_times n a = (map Some bs, a') \<and> length bs = n \<and> distinct bs \<and>
    set bs \<inter> set_mset M = {} \<and> alloc_ok a' (M + mset bs) \<and> num_free a' = num_free a - n"
  using assms
proof (induction n arbitrary: a M)
  case 0
  then show ?case by auto
next
  case (Suc n)
  then obtain b a1 where b: "allocate a = (Some b, a1)" "b \<notin># M" "alloc_ok a1 (add_mset b M)"
      "num_free a1 = num_free a - 1"
    using ba.alloc_some [of a M] by auto
  with Suc obtain bs a2 where "allocate_times n a1 = (map Some bs, a2)" "length bs = n" "distinct bs"
      "set bs \<inter> set_mset (add_mset b M) = {}" "alloc_ok a2 (add_mset b M + mset bs)"
      "num_free a2 = num_free a1 - n"
    by (metis Suc_le_D Suc_le_mono diff_Suc_1)
  with b show ?case
    by (intro exI [of _ "b # bs"] exI [of _ a2]) auto
qed

text \<open>\<^verbatim>\<open>allocate_many\<close> is all-or-nothing. When fewer than \<open>n\<close> blocks are free it returns \<^verbatim>\<open>None\<close> and
  changes nothing; otherwise it returns \<open>n\<close> distinct blocks, none of which anyone held, and adds
  exactly one reference to each.\<close>

theorem allocate_many_all_or_nothing:
  assumes "alloc_ok a M"
  shows "(num_free a < n \<longrightarrow> allocate_many n a = (None, a)) \<and>
    (n \<le> num_free a \<longrightarrow> (\<exists>bs a'. allocate_many n a = (Some (map Some bs), a') \<and> length bs = n \<and>
       distinct bs \<and> set bs \<inter> set_mset M = {} \<and> alloc_ok a' (M + mset bs) \<and>
       num_free a' = num_free a - n))"
  using allocate_times_ok [OF assms, of n]
  by (auto simp: allocate_many_def num_free_def)

theorem allocate_many_all_or_nothing_witness:
  "alloc_ok (new_allocator 4) {#} \<and>
   (\<exists>bs a'. allocate_many 3 (new_allocator 4) = (Some (map Some bs), a') \<and> length bs = 3 \<and>
      distinct bs \<and> set bs \<inter> set_mset {#} = {} \<and> alloc_ok a' ({#} + mset bs) \<and> num_free a' = 4 - 3) \<and>
   allocate_many 5 (new_allocator 4) = (None, new_allocator 4)"
  using allocate_many_all_or_nothing [OF new_allocator_ok [of 4], of 3]
    allocate_many_all_or_nothing [OF new_allocator_ok [of 4], of 5]
  by (simp add: new_allocator_ok num_free_def) (simp add: new_allocator_def)

text \<open>Misuse of a free block is loud and harmless. On a block nobody references, \<^verbatim>\<open>incref\<close> and
  \<^verbatim>\<open>decref\<close> raise \<^verbatim>\<open>RuntimeError\<close>, on an id outside the pool \<^verbatim>\<open>IndexError\<close>, and the allocator is
  unchanged.\<close>

theorem ref_errors_are_loud:
  assumes "alloc_ok a M" and "b \<notin># M"
  shows "incref b a = (Raise (if b < num_blocks a then RuntimeError ''incref on free block'' else IndexError), a) \<and>
    decref b a = (Raise (if b < num_blocks a then RuntimeError ''decref on free block'' else IndexError), a)"
  using assms by (auto simp: alloc_ok_def incref_def decref_def not_in_iff)

theorem ref_errors_are_loud_witness:
  "incref 1 (new_allocator 2) = (Raise (RuntimeError ''incref on free block''), new_allocator 2) \<and>
   decref 7 (new_allocator 2) = (Raise IndexError, new_allocator 2)"
  using ref_errors_are_loud [OF new_allocator_ok [of 2], of 1]
    ref_errors_are_loud [OF new_allocator_ok [of 2], of 7]
  by (simp add: new_allocator_def)

end
