(* ===== verification/Paged_Cache.thy ===== *)
theory Paged_Cache
  imports Block_Allocator Config
begin

text \<open>
  The paged KV cache of \<^verbatim>\<open>engine/block_manager.py\<close>. \<open>pool\<close> is \<^verbatim>\<open>PagedCachePool\<close>: the allocator and, per
  layer, one flat array of rows for K and one for V (a row is the \<^verbatim>\<open>(heads, head_dim)\<close> tensor of one
  token, kept abstract as \<open>'r\<close>). \<open>pcache\<close> is \<^verbatim>\<open>PagedKVCache\<close>, one sequence's block table. The
  Python cache object holds a reference to the pool it mutates; here every cache operation is a function on
  the pair \<open>'r pool \<times> pcache\<close>.

  Two invariants: \<open>pool_wf p M\<close> (the allocator contract for the references \<open>M\<close>, arrays of the right
  size) and \<open>cache_wf p c\<close> (the slot index is the flattened block table, blocks are distinct, and exactly
  the blocks the tokens need are held). \<open>R\<close> always stands for the references held by everybody else.
  The results: an update appends to the sequence's own contents and to nothing else (\<open>update0_ok\<close>,
  \<open>update_next_ok\<close>), exhaustion raises and leaks nothing, forking shares and copy-on-write separates.
\<close>

section \<open>State\<close>

record 'r pool =
  cfg :: nano_config
  block_size :: nat
  itemsize :: nat
  alloc :: allocator
  kmem :: "'r list list"
  vmem :: "'r list list"

record pcache =
  block_table :: "nat list"
  num_tokens :: nat
  start_pos :: nat
  slots :: "nat list"

type_synonym 'r pstate = "'r pool \<times> pcache"

definition DEFAULT_BLOCK_SIZE :: nat where
  "DEFAULT_BLOCK_SIZE = 16"

definition new_pool :: "'r \<Rightarrow> nano_config \<Rightarrow> nat \<Rightarrow> nat \<Rightarrow> nat \<Rightarrow> 'r pool" where
  "new_pool zero c nblocks bs isz =
     (let n_slots = nblocks * bs;
          mem = replicate (num_hidden_layers c) (replicate n_slots zero)
      in \<lparr>cfg = c, block_size = bs, itemsize = isz, alloc = new_allocator nblocks,
          kmem = mem, vmem = mem\<rparr>)"

definition new_pcache :: pcache where
  "new_pcache = \<lparr>block_table = [], num_tokens = 0, start_pos = 0, slots = []\<rparr>"

section \<open>Growth\<close>

definition block_slots :: "nat \<Rightarrow> nat \<Rightarrow> nat list" where
  "block_slots bs block = [block * bs ..< block * bs + bs]"

definition append_block :: "'r pool \<Rightarrow> nat \<Rightarrow> pcache \<Rightarrow> pcache" where
  "append_block p block c =
     c\<lparr>slots := slots c @ block_slots (block_size p) block, block_table := block_table c @ [block]\<rparr>"

fun ensure_loop :: "nat \<Rightarrow> 'r pstate \<Rightarrow> unit outcome \<times> 'r pstate" where
  "ensure_loop 0 st = (Ret (), st)"
| "ensure_loop (Suc n) (p, c) =
     (case allocate (alloc p) of
        (None, a) \<Rightarrow> (Raise OutOfBlocks, (p\<lparr>alloc := a\<rparr>, c))
      | (Some block, a) \<Rightarrow> ensure_loop n (p\<lparr>alloc := a\<rparr>, append_block p block c))"

definition ensure_capacity :: "nat \<Rightarrow> 'r pstate \<Rightarrow> unit outcome \<times> 'r pstate" where
  "ensure_capacity n_new st =
     (case st of (p, c) \<Rightarrow>
        let needed = ceil_div (num_tokens c + n_new) (block_size p)
        in ensure_loop (needed - length (block_table c)) (p, c))"

definition copy_slice :: "nat \<Rightarrow> nat \<Rightarrow> nat \<Rightarrow> 'r list \<Rightarrow> 'r list" where
  "copy_slice bs s d xs = take d xs @ take bs (drop s xs) @ drop (d + bs) xs"

definition copy_block :: "nat \<Rightarrow> nat \<Rightarrow> 'r pool \<Rightarrow> 'r pool" where
  "copy_block src dst p =
     (let bs = block_size p; s = src * bs; d = dst * bs
      in p\<lparr>kmem := map (copy_slice bs s d) (kmem p), vmem := map (copy_slice bs s d) (vmem p)\<rparr>)"

definition unshare_tail :: "'r pstate \<Rightarrow> unit outcome \<times> 'r pstate" where
  "unshare_tail st =
     (case st of (p, c) \<Rightarrow>
        if block_table c = [] then (Ret (), (p, c))
        else let tail = last (block_table c) in
          (case ref_count (alloc p) tail of
             Raise e \<Rightarrow> (Raise e, (p, c))
           | Ret n \<Rightarrow>
               if n \<le> 1 then (Ret (), (p, c))
               else (case allocate (alloc p) of
                   (None, a) \<Rightarrow> (Raise OutOfBlocks, (p\<lparr>alloc := a\<rparr>, c))
                 | (Some fresh, a) \<Rightarrow>
                     let p1 = copy_block tail fresh (p\<lparr>alloc := a\<rparr>); bs = block_size p in
                     (case decref tail (alloc p1) of
                        (Raise e, a2) \<Rightarrow> (Raise e, (p1\<lparr>alloc := a2\<rparr>, c))
                      | (Ret _, a2) \<Rightarrow>
                          (Ret (), (p1\<lparr>alloc := a2\<rparr>,
                             c\<lparr>block_table := butlast (block_table c) @ [fresh],
                               slots := take (length (slots c) - bs) (slots c) @ block_slots bs fresh\<rparr>))))))"

section \<open>The protocol\<close>

definition begin_pass :: "nat \<Rightarrow> 'r pstate \<Rightarrow> unit outcome \<times> 'r pstate" where
  "begin_pass n st =
     (case st of (p, c) \<Rightarrow>
        let c = c\<lparr>start_pos := num_tokens c\<rparr> in
        bindS (if num_tokens c mod block_size p \<noteq> 0 then unshare_tail (p, c) else (Ret (), (p, c)))
          (\<lambda>_ st. bindS (ensure_capacity n st)
            (\<lambda>_ (p, c). (Ret (), (p, c\<lparr>num_tokens := num_tokens c + n\<rparr>)))))"

definition write_layer ::
  "nat \<Rightarrow> 'r list \<Rightarrow> 'r list \<Rightarrow> 'r pstate \<Rightarrow> ('r list \<times> 'r list) outcome \<times> 'r pstate" where
  "write_layer layer k v st =
     (case st of (p, c) \<Rightarrow>
        let n = length k; e = start_pos c + n;
            sl = take n (drop (start_pos c) (slots c)) in
        if layer \<ge> length (kmem p) then (Raise IndexError, (p, c))
        else if length sl \<noteq> n \<or> length v \<noteq> n then (Raise (RuntimeError ''shape mismatch''), (p, c))
        else let p' = p\<lparr>kmem := (kmem p)[layer := scatter sl k (kmem p ! layer)],
                        vmem := (vmem p)[layer := scatter sl v (vmem p ! layer)]\<rparr>;
                 live = take e (slots c)
             in (Ret (gather (kmem p' ! layer) live, gather (vmem p' ! layer) live), (p', c)))"

definition update ::
  "nat \<Rightarrow> 'r list \<Rightarrow> 'r list \<Rightarrow> 'r pstate \<Rightarrow> ('r list \<times> 'r list) outcome \<times> 'r pstate" where
  "update layer k v st =
     bindS (if layer = 0 then begin_pass (length k) st else (Ret (), st))
       (\<lambda>_ st. write_layer layer k v st)"

section \<open>Sharing\<close>

definition on_alloc :: "(allocator \<Rightarrow> 'a outcome \<times> allocator) \<Rightarrow> 'r pool \<Rightarrow> 'a outcome \<times> 'r pool" where
  "on_alloc f p = (case f (alloc p) of (r, a) \<Rightarrow> (r, p\<lparr>alloc := a\<rparr>))"

definition fork :: "'r pool \<Rightarrow> pcache \<Rightarrow> pcache outcome \<times> 'r pool" where
  "fork p c =
     bindS (on_alloc (for_each incref (block_table c)) p)
       (\<lambda>_ p. (Ret (new_pcache\<lparr>block_table := block_table c, num_tokens := num_tokens c,
                             slots := slots c\<rparr>), p))"

definition free_cache :: "'r pstate \<Rightarrow> unit outcome \<times> 'r pstate" where
  "free_cache st =
     (case st of (p, c) \<Rightarrow>
        (case on_alloc (for_each decref (block_table c)) p of
           (Raise e, p) \<Rightarrow> (Raise e, (p, c))
         | (Ret _, p) \<Rightarrow> (Ret (), (p, c\<lparr>block_table := [], num_tokens := 0, slots := []\<rparr>))))"

section \<open>The pool\<close>

definition pool_allocate :: "'r pool \<Rightarrow> pcache option" where
  "pool_allocate p = (if num_free (alloc p) = 0 then None else Some new_pcache)"

definition can_fit :: "'r pool \<Rightarrow> nat \<Rightarrow> bool" where
  "can_fit p ntok = (let needed = ceil_div ntok (block_size p) in num_free (alloc p) \<ge> needed)"

definition pool_reset :: "'r pool \<Rightarrow> 'r pool" where
  "pool_reset p = p\<lparr>alloc := new_allocator (num_blocks (alloc p))\<rparr>"

definition bytes_per_token :: "'r pool \<Rightarrow> nat" where
  "bytes_per_token p =
     (let per_layer = 2 * num_key_value_heads (cfg p) * head_dim (cfg p)
      in per_layer * num_hidden_layers (cfg p) * itemsize p)"

definition total_bytes :: "'r pool \<Rightarrow> nat" where
  "total_bytes p = num_blocks (alloc p) * block_size p * bytes_per_token p"

definition blocks_for_budget :: "nano_config \<Rightarrow> int \<Rightarrow> nat \<Rightarrow> nat \<Rightarrow> int outcome" where
  "blocks_for_budget c budget bs isz =
     (let per_layer = 2 * num_key_value_heads c * head_dim c;
          bpt = per_layer * num_hidden_layers c * isz
      in if bpt * bs = 0 then Raise ZeroDivisionError
         else Ret (max 0 (budget div int (bpt * bs))))"

record block_stats =
  bst_total :: nat
  bst_allocated :: nat
  bst_block_size :: nat
  bst_tokens_used :: nat
  bst_shared :: nat
  bst_bytes_per_token :: nat

definition pool_stats :: "'r pool \<Rightarrow> nat \<Rightarrow> block_stats" where
  "pool_stats p used =
     \<lparr>bst_total = num_blocks (alloc p), bst_allocated = num_allocated (alloc p),
      bst_block_size = block_size p, bst_tokens_used = used, bst_shared = num_shared (alloc p),
      bst_bytes_per_token = bytes_per_token p\<rparr>"

definition bst_free :: "block_stats \<Rightarrow> int" where
  "bst_free s = int (bst_total s) - int (bst_allocated s)"

definition bst_tokens_allocated :: "block_stats \<Rightarrow> nat" where
  "bst_tokens_allocated s = bst_allocated s * bst_block_size s"

definition internal_fragmentation :: "block_stats \<Rightarrow> int" where
  "internal_fragmentation s = max 0 (int (bst_tokens_allocated s) - int (bst_tokens_used s))"

definition external_fragmentation :: "block_stats \<Rightarrow> int" where
  "external_fragmentation s = 0"

definition bst_utilization :: "block_stats \<Rightarrow> real" where
  "bst_utilization s =
     (if bst_tokens_allocated s \<noteq> 0 then real (bst_tokens_used s) / real (bst_tokens_allocated s) else 0)"

definition bst_waste_fraction :: "block_stats \<Rightarrow> real" where
  "bst_waste_fraction s = 1 - bst_utilization s"

definition bst_occupancy :: "block_stats \<Rightarrow> real" where
  "bst_occupancy s = (if bst_total s \<noteq> 0 then real (bst_allocated s) / real (bst_total s) else 0)"

section \<open>Invariants\<close>

definition pool_wf :: "'r pool \<Rightarrow> nat multiset \<Rightarrow> bool" where
  "pool_wf p M \<longleftrightarrow>
     alloc_ok (alloc p) M \<and> 0 < block_size p \<and>
     length (kmem p) = num_hidden_layers (cfg p) \<and> length (vmem p) = num_hidden_layers (cfg p) \<and>
     (\<forall>m \<in> set (kmem p) \<union> set (vmem p). length m = num_blocks (alloc p) * block_size p)"

definition table_slots :: "nat \<Rightarrow> nat list \<Rightarrow> nat list" where
  "table_slots bs bt = concat (map (block_slots bs) bt)"

text \<open>\<open>table_wf\<close> holds at every moment, also after an interrupted growth; \<open>cache_wf\<close> adds that
  the sequence holds exactly the blocks its tokens need.\<close>

definition table_wf :: "'r pool \<Rightarrow> pcache \<Rightarrow> bool" where
  "table_wf p c \<longleftrightarrow>
     slots c = table_slots (block_size p) (block_table c) \<and> distinct (block_table c)"

definition cache_wf :: "'r pool \<Rightarrow> pcache \<Rightarrow> bool" where
  "cache_wf p c \<longleftrightarrow>
     table_wf p c \<and> length (block_table c) = ceil_div (num_tokens c) (block_size p)"

text \<open>The rows a sequence has stored for a layer.\<close>

definition k_rows :: "'r pool \<Rightarrow> pcache \<Rightarrow> nat \<Rightarrow> nat \<Rightarrow> 'r list" where
  "k_rows p c n layer = gather (kmem p ! layer) (take n (slots c))"

definition v_rows :: "'r pool \<Rightarrow> pcache \<Rightarrow> nat \<Rightarrow> nat \<Rightarrow> 'r list" where
  "v_rows p c n layer = gather (vmem p ! layer) (take n (slots c))"

text \<open>Same contents, in every layer, of every slot that belongs to a block satisfying \<open>B\<close>.\<close>

definition same_blocks :: "(nat \<Rightarrow> bool) \<Rightarrow> 'r pool \<Rightarrow> 'r pool \<Rightarrow> bool" where
  "same_blocks B p q \<longleftrightarrow>
     (\<forall>layer < num_hidden_layers (cfg p). \<forall>i < num_blocks (alloc p) * block_size p.
        B (i div block_size p) \<longrightarrow>
        kmem p ! layer ! i = kmem q ! layer ! i \<and> vmem p ! layer ! i = vmem q ! layer ! i)"

definition pool_frame :: "'r pool \<Rightarrow> 'r pool \<Rightarrow> bool" where
  "pool_frame p q \<longleftrightarrow> cfg q = cfg p \<and> block_size q = block_size p \<and> itemsize q = itemsize p \<and>
     num_blocks (alloc q) = num_blocks (alloc p)"

text \<open>The slots the current pass may write belong to blocks nobody else references.\<close>

definition writable :: "'r pool \<Rightarrow> pcache \<Rightarrow> nat multiset \<Rightarrow> bool" where
  "writable p c R \<longleftrightarrow> (\<forall>s \<in> set (drop (start_pos c) (slots c)). s div block_size p \<notin># R)"

text \<open>Blocks one pass over \<open>n\<close> new tokens takes: the boundary crossings, and the copy of a shared
  partial tail.\<close>

definition cow_needed :: "'r pool \<Rightarrow> pcache \<Rightarrow> nat multiset \<Rightarrow> bool" where
  "cow_needed p c R \<longleftrightarrow>
     num_tokens c mod block_size p \<noteq> 0 \<and> block_table c \<noteq> [] \<and> last (block_table c) \<in># R"

definition pass_need :: "'r pool \<Rightarrow> pcache \<Rightarrow> nat multiset \<Rightarrow> nat \<Rightarrow> nat" where
  "pass_need p c R n =
     (ceil_div (num_tokens c + n) (block_size p) - length (block_table c)) +
     (if cow_needed p c R then 1 else 0)"

definition need_copy :: "pcache \<Rightarrow> nat multiset \<Rightarrow> nat" where
  "need_copy c R = (if block_table c \<noteq> [] \<and> last (block_table c) \<in># R then 1 else 0)"

text \<open>Between \<open>begin_pass\<close> and the last layer's write.\<close>

definition pass_ready :: "'r pool \<Rightarrow> pcache \<Rightarrow> nat multiset \<Rightarrow> nat \<Rightarrow> bool" where
  "pass_ready p c R n \<longleftrightarrow>
     pool_wf p (mset (block_table c) + R) \<and> cache_wf p c \<and> writable p c R \<and>
     num_tokens c = start_pos c + n"

section \<open>Slots of a block table\<close>

lemma length_block_slots [simp]: "length (block_slots bs b) = bs"
  by (simp add: block_slots_def)

lemma distinct_block_slots [simp]: "distinct (block_slots bs b)"
  by (simp add: block_slots_def)

lemma set_block_slots: "0 < bs \<Longrightarrow> set (block_slots bs b) = {i. i div bs = b}"
proof -
  assume bs: "0 < bs"
  have "b * bs \<le> i \<and> i < b * bs + bs \<longleftrightarrow> i div bs = b" for i
  proof
    assume "b * bs \<le> i \<and> i < b * bs + bs"
    then show "i div bs = b"
      by (intro div_nat_eqI) (auto simp: algebra_simps)
  next
    assume "i div bs = b"
    then show "b * bs \<le> i \<and> i < b * bs + bs"
      using dividend_less_div_times [OF bs, of i] by (auto simp: add.commute)
  qed
  then show ?thesis
    by (intro set_eqI) (simp only: block_slots_def set_upt atLeastLessThan_iff mem_Collect_eq)
qed

lemma table_slots_Nil [simp]: "table_slots bs [] = []"
  by (simp add: table_slots_def)

lemma table_slots_Cons [simp]: "table_slots bs (b # bt) = block_slots bs b @ table_slots bs bt"
  by (simp add: table_slots_def)

lemma table_slots_append [simp]: "table_slots bs (xs @ ys) = table_slots bs xs @ table_slots bs ys"
  by (simp add: table_slots_def)

lemma length_table_slots [simp]: "length (table_slots bs bt) = length bt * bs"
  by (induction bt) auto

lemma set_table_slots: "0 < bs \<Longrightarrow> set (table_slots bs bt) = {i. i div bs \<in> set bt}"
  by (induction bt) (auto simp: set_block_slots)

lemma distinct_table_slots: "0 < bs \<Longrightarrow> distinct bt \<Longrightarrow> distinct (table_slots bs bt)"
  by (induction bt) (auto simp: set_block_slots set_table_slots)

lemma nth_table_slots:
  "0 < bs \<Longrightarrow> i < length bt * bs \<Longrightarrow> table_slots bs bt ! i = bt ! (i div bs) * bs + i mod bs"
proof (induction bt arbitrary: i)
  case Nil
  then show ?case by simp
next
  case (Cons b bt)
  show ?case
  proof (cases "i < bs")
    case True
    then show ?thesis by (simp add: nth_append block_slots_def)
  next
    case False
    then obtain j where j: "i = bs + j" by (metis le_Suc_ex not_less)
    with Cons show ?thesis
      by (simp add: nth_append)
  qed
qed

lemma drop_table_slots: "0 < bs \<Longrightarrow> drop (n * bs) (table_slots bs bt) = table_slots bs (drop n bt)"
proof (induction bt arbitrary: n)
  case Nil
  then show ?case by simp
next
  case (Cons b bt)
  then show ?case by (cases n) simp_all
qed

section \<open>Copying a block\<close>

lemma length_copy_slice [simp]:
  "s + bs \<le> length xs \<Longrightarrow> d + bs \<le> length xs \<Longrightarrow> length (copy_slice bs s d xs) = length xs"
  by (simp add: copy_slice_def)

lemma copy_slice_inside:
  "s + bs \<le> length xs \<Longrightarrow> d + bs \<le> length xs \<Longrightarrow> j < bs \<Longrightarrow> copy_slice bs s d xs ! (d + j) = xs ! (s + j)"
  by (simp add: copy_slice_def nth_append)

lemma copy_slice_outside:
  assumes "s + bs \<le> length xs" and "d + bs \<le> length xs" and "i < d \<or> d + bs \<le> i" and "i < length xs"
  shows "copy_slice bs s d xs ! i = xs ! i"
proof (cases "i < d")
  case True
  then show ?thesis using assms by (simp add: copy_slice_def nth_append)
next
  case False
  then show ?thesis using assms by (auto simp: copy_slice_def nth_append)
qed

lemma block_end_le: "b < (n::nat) \<Longrightarrow> b * bs + bs \<le> n * bs"
  using mult_le_mono1 [of "Suc b" n bs] by simp

lemma copy_slice_other_block:
  assumes "0 < bs" "length xs = n * bs" "src < n" "dst < n" "i < n * bs" "i div bs \<noteq> dst"
  shows "copy_slice bs (src * bs) (dst * bs) xs ! i = xs ! i"
proof -
  have "i \<notin> set (block_slots bs dst)"
    using assms by (simp add: set_block_slots)
  then have "i < dst * bs \<or> dst * bs + bs \<le> i"
    by (auto simp: block_slots_def)
  then show ?thesis
    using assms block_end_le [of src n bs] block_end_le [of dst n bs]
    by (intro copy_slice_outside) auto
qed

lemma gather_copy_slice:
  assumes "0 < bs" "length xs = n * bs" "src < n" "dst < n"
  shows "gather (copy_slice bs (src * bs) (dst * bs) xs) (block_slots bs dst) = gather xs (block_slots bs src)"
proof (rule nth_equalityI)
  fix i assume i: "i < length (gather (copy_slice bs (src * bs) (dst * bs) xs) (block_slots bs dst))"
  then show "gather (copy_slice bs (src * bs) (dst * bs) xs) (block_slots bs dst) ! i =
      gather xs (block_slots bs src) ! i"
    using assms block_end_le [of src n bs] block_end_le [of dst n bs]
    by (simp add: gather_def block_slots_def copy_slice_inside)
qed simp

section \<open>Frames\<close>

lemma pool_frame_refl [simp]: "pool_frame p p"
  by (simp add: pool_frame_def)

lemma pool_frame_trans: "pool_frame p q \<Longrightarrow> pool_frame q r \<Longrightarrow> pool_frame p r"
  by (simp add: pool_frame_def)

lemma same_blocks_refl [simp]: "same_blocks B p p"
  by (simp add: same_blocks_def)

lemma same_blocks_trans:
  "same_blocks B p q \<Longrightarrow> same_blocks B q r \<Longrightarrow> pool_frame p q \<Longrightarrow> same_blocks B p r"
  by (simp add: same_blocks_def pool_frame_def)

lemma same_blocks_mono: "same_blocks B p q \<Longrightarrow> (\<And>b. C b \<Longrightarrow> B b) \<Longrightarrow> same_blocks C p q"
  by (simp add: same_blocks_def)

lemma same_blocks_alloc [simp]: "same_blocks B p (p\<lparr>alloc := a\<rparr>)"
  by (simp add: same_blocks_def)

lemma pool_wf_alloc:
  "pool_wf p M \<Longrightarrow> alloc_ok a N \<Longrightarrow> num_blocks a = num_blocks (alloc p) \<Longrightarrow> pool_wf (p\<lparr>alloc := a\<rparr>) N"
  by (simp add: pool_wf_def)

lemma pool_wf_allocD: "pool_wf p M \<Longrightarrow> alloc_ok (alloc p) M"
  by (simp add: pool_wf_def)

lemma pool_wf_bs: "pool_wf p M \<Longrightarrow> 0 < block_size p"
  by (simp add: pool_wf_def)

lemma pool_wf_mem:
  "pool_wf p M \<Longrightarrow> l < num_hidden_layers (cfg p) \<Longrightarrow>
    length (kmem p ! l) = num_blocks (alloc p) * block_size p \<and>
    length (vmem p ! l) = num_blocks (alloc p) * block_size p"
  by (simp add: pool_wf_def)

lemma pool_wf_bounded: "pool_wf p M \<Longrightarrow> b \<in># M \<Longrightarrow> b < num_blocks (alloc p)"
  by (metis ba.held_bounded pool_wf_allocD)

lemma slot_bounded: "0 < bs \<Longrightarrow> s div bs < n \<Longrightarrow> s < n * (bs::nat)"
  by (metis div_less_iff_less_mult)

text \<open>A sequence whose blocks all satisfy \<open>B\<close> reads the same rows before and after.\<close>

lemma rows_same_blocks:
  assumes "same_blocks B p q" and "table_wf p c" and "\<And>b. b \<in> set (block_table c) \<Longrightarrow> B b"
    and "pool_wf p M" and "set (block_table c) \<subseteq> set_mset M" and "l < num_hidden_layers (cfg p)"
  shows "k_rows q c n l = k_rows p c n l \<and> v_rows q c n l = v_rows p c n l"
proof -
  have bs: "0 < block_size p" using assms(4) by (rule pool_wf_bs)
  have "kmem p ! l ! s = kmem q ! l ! s \<and> vmem p ! l ! s = vmem q ! l ! s"
    if "s \<in> set (take n (slots c))" for s
  proof -
    have "s \<in> set (slots c)" using that by (rule in_set_takeD)
    then have "s div block_size p \<in> set (block_table c)"
      using assms(2) bs by (simp add: table_wf_def set_table_slots)
    then have "B (s div block_size p)" and "s < num_blocks (alloc p) * block_size p"
      using assms(3,5) pool_wf_bounded [OF assms(4)] bs
      by (auto intro!: slot_bounded)
    then show ?thesis
      using assms(1,6) by (simp add: same_blocks_def)
  qed
  then show ?thesis
    by (simp add: k_rows_def v_rows_def gather_def)
qed

section \<open>Growing\<close>

lemma append_block_fields [simp]:
  "block_table (append_block p b c) = block_table c @ [b]"
  "num_tokens (append_block p b c) = num_tokens c"
  "start_pos (append_block p b c) = start_pos c"
  "slots (append_block p b c) = slots c @ block_slots (block_size p) b"
  by (simp_all add: append_block_def)

text \<open>The growth loop takes fresh blocks in order; when they run out it raises, holding those it got.\<close>

lemma ensure_loop_spec:
  assumes "alloc_ok (alloc p) (mset (block_table c) + R)" and "table_wf p c"
  shows "\<exists>r a new. ensure_loop n (p, c) =
      (r, (p\<lparr>alloc := a\<rparr>, c\<lparr>block_table := block_table c @ new,
                             slots := slots c @ table_slots (block_size p) new\<rparr>)) \<and>
    r = (if n \<le> num_free (alloc p) then Ret () else Raise OutOfBlocks) \<and>
    length new = min n (num_free (alloc p)) \<and>
    distinct (block_table c @ new) \<and> set new \<inter> set_mset R = {} \<and>
    alloc_ok a (mset (block_table c @ new) + R) \<and>
    num_free a = num_free (alloc p) - n \<and> num_blocks a = num_blocks (alloc p)"
  using assms
proof (induction n arbitrary: p c)
  case 0
  then show ?case
    by (intro exI [of _ "Ret ()"] exI [of _ "alloc p"] exI [of _ "[]"]) (simp add: table_wf_def)
next
  case (Suc n)
  note ok = Suc.prems(1)
  show ?case
  proof (cases "num_free (alloc p) = 0")
    case True
    then have "ensure_loop (Suc n) (p, c) = (Raise OutOfBlocks, (p\<lparr>alloc := alloc p\<rparr>, c))"
      using ba.alloc_none [OF ok] by simp
    with True Suc.prems show ?thesis
      by (intro exI [of _ "Raise OutOfBlocks"] exI [of _ "alloc p"] exI [of _ "[]"]) (simp add: table_wf_def)
  next
    case False
    then obtain b a1 where b: "allocate (alloc p) = (Some b, a1)" "b \<notin># mset (block_table c) + R"
        "alloc_ok a1 (add_mset b (mset (block_table c) + R))"
        "num_free a1 = num_free (alloc p) - 1" "num_blocks a1 = num_blocks (alloc p)"
      using ba.alloc_some [OF ok] by auto
    let ?p = "p\<lparr>alloc := a1\<rparr>" and ?c = "append_block p b c"
    have "alloc_ok (alloc ?p) (mset (block_table ?c) + R)" "table_wf ?p ?c"
      using b Suc.prems by (auto simp: table_wf_def)
    from Suc.IH [OF this] obtain r a new where IH: "ensure_loop n (?p, ?c) =
        (r, (?p\<lparr>alloc := a\<rparr>, ?c\<lparr>block_table := block_table ?c @ new,
                               slots := slots ?c @ table_slots (block_size ?p) new\<rparr>))"
        "r = (if n \<le> num_free a1 then Ret () else Raise OutOfBlocks)"
        "length new = min n (num_free a1)" "distinct (block_table ?c @ new)" "set new \<inter> set_mset R = {}"
        "alloc_ok a (mset (block_table ?c @ new) + R)" "num_free a = num_free a1 - n"
        "num_blocks a = num_blocks a1"
      by auto
    have "c\<lparr>block_table := block_table c @ b # new,
            slots := slots c @ table_slots (block_size p) (b # new)\<rparr> =
          ?c\<lparr>block_table := block_table ?c @ new, slots := slots ?c @ table_slots (block_size ?p) new\<rparr>"
      by simp
    then show ?thesis
      using b IH False
      by (intro exI [of _ r] exI [of _ a] exI [of _ "b # new"]) (auto simp: append_block_def)
  qed
qed

lemma ensure_capacity_ok:
  assumes wf: "pool_wf p (mset (block_table c) + R)" and tw: "table_wf p c"
    and len: "length (block_table c) \<le> ceil_div (num_tokens c + n) (block_size p)"
    and free: "ceil_div (num_tokens c + n) (block_size p) - length (block_table c) \<le> num_free (alloc p)"
  shows "\<exists>a new. ensure_capacity n (p, c) =
      (Ret (), (p\<lparr>alloc := a\<rparr>, c\<lparr>block_table := block_table c @ new,
                             slots := slots c @ table_slots (block_size p) new\<rparr>)) \<and>
    length (block_table c @ new) = ceil_div (num_tokens c + n) (block_size p) \<and>
    distinct (block_table c @ new) \<and> set new \<inter> set_mset R = {} \<and>
    pool_wf (p\<lparr>alloc := a\<rparr>) (mset (block_table c @ new) + R) \<and>
    num_free a = num_free (alloc p) -
      (ceil_div (num_tokens c + n) (block_size p) - length (block_table c)) \<and>
    num_blocks a = num_blocks (alloc p)"
proof -
  obtain r a new where *: "ensure_capacity n (p, c) =
      (r, (p\<lparr>alloc := a\<rparr>, c\<lparr>block_table := block_table c @ new,
                             slots := slots c @ table_slots (block_size p) new\<rparr>))"
    "r = Ret ()"
    "length new = ceil_div (num_tokens c + n) (block_size p) - length (block_table c)"
    "distinct (block_table c @ new)" "set new \<inter> set_mset R = {}"
    "alloc_ok a (mset (block_table c @ new) + R)"
    "num_free a = num_free (alloc p) -
      (ceil_div (num_tokens c + n) (block_size p) - length (block_table c))"
    "num_blocks a = num_blocks (alloc p)"
    using ensure_loop_spec [OF pool_wf_allocD [OF wf] tw,
        of "ceil_div (num_tokens c + n) (block_size p) - length (block_table c)"] free
    by (auto simp: ensure_capacity_def Let_def)
  then show ?thesis
    using len wf
    by (intro exI [of _ a] exI [of _ new]) (auto intro: pool_wf_alloc)
qed

section \<open>Copy-on-write\<close>

lemma pool_wf_copy_block:
  assumes "pool_wf p M" "src < num_blocks (alloc p)" "dst < num_blocks (alloc p)"
  shows "pool_wf (copy_block src dst p) M"
  using assms block_end_le [OF assms(2), of "block_size p"] block_end_le [OF assms(3), of "block_size p"]
  by (auto simp: pool_wf_def copy_block_def Let_def)

lemma copy_block_fields [simp]:
  "cfg (copy_block s d p) = cfg p" "block_size (copy_block s d p) = block_size p"
  "itemsize (copy_block s d p) = itemsize p" "alloc (copy_block s d p) = alloc p"
  by (simp_all add: copy_block_def Let_def)

lemma copy_block_same_blocks:
  assumes wf: "pool_wf p M" and "src < num_blocks (alloc p)" "dst < num_blocks (alloc p)"
  shows "same_blocks (\<lambda>b. b \<noteq> dst) p (copy_block src dst p)"
proof -
  have len: "length (kmem p) = num_hidden_layers (cfg p)" "length (vmem p) = num_hidden_layers (cfg p)"
    using wf by (simp_all add: pool_wf_def)
  show ?thesis
    unfolding same_blocks_def
    using assms pool_wf_bs [OF wf] pool_wf_mem [OF wf] len
    by (simp add: copy_block_def Let_def copy_slice_other_block)
qed

lemma gather_copy_block:
  assumes wf: "pool_wf p M" and "src < num_blocks (alloc p)" "dst < num_blocks (alloc p)"
    and "l < num_hidden_layers (cfg p)"
  shows "gather (kmem (copy_block src dst p) ! l) (block_slots (block_size p) dst) =
      gather (kmem p ! l) (block_slots (block_size p) src)"
    and "gather (vmem (copy_block src dst p) ! l) (block_slots (block_size p) dst) =
      gather (vmem p ! l) (block_slots (block_size p) src)"
proof -
  have len: "length (kmem p) = num_hidden_layers (cfg p)" "length (vmem p) = num_hidden_layers (cfg p)"
    using wf by (simp_all add: pool_wf_def)
  show "gather (kmem (copy_block src dst p) ! l) (block_slots (block_size p) dst) =
      gather (kmem p ! l) (block_slots (block_size p) src)"
    and "gather (vmem (copy_block src dst p) ! l) (block_slots (block_size p) dst) =
      gather (vmem p ! l) (block_slots (block_size p) src)"
    using assms pool_wf_bs [OF wf] pool_wf_mem [OF wf, of l] len
    by (simp_all add: copy_block_def Let_def gather_copy_slice)
qed

text \<open>The tail of a table is shared exactly when somebody else references it.\<close>

lemma tail_count:
  assumes "distinct bt" "bt \<noteq> []"
  shows "count (mset bt + R) (last bt) = Suc (count R (last bt))"
  using assms by (simp add: count_mset_distinct)

lemma slots_snoc:
  assumes "table_wf p c" "block_table c \<noteq> []"
  shows "slots c = table_slots (block_size p) (butlast (block_table c)) @
    block_slots (block_size p) (last (block_table c))"
proof -
  have "slots c = table_slots (block_size p) (butlast (block_table c) @ [last (block_table c)])"
    using assms by (simp add: table_wf_def)
  then show ?thesis by (simp only: table_slots_append table_slots_Cons table_slots_Nil append_Nil2)
qed

lemma unshare_tail_private:
  assumes wf: "pool_wf p (mset (block_table c) + R)" and tw: "table_wf p c"
    and "block_table c = [] \<or> last (block_table c) \<notin># R"
  shows "unshare_tail (p, c) = (Ret (), (p, c))"
proof (cases "block_table c = []")
  case True
  then show ?thesis by (simp add: unshare_tail_def)
next
  case False
  then have "ref_count (alloc p) (last (block_table c)) = Ret 1"
    using ba.count_positive [OF pool_wf_allocD [OF wf], of "last (block_table c)"] assms tw
    by (simp add: count_mset_distinct table_wf_def not_in_iff)
  with False show ?thesis by (simp add: unshare_tail_def)
qed

lemma unshare_tail_out_of_blocks:
  assumes wf: "pool_wf p (mset (block_table c) + R)" and tw: "table_wf p c"
    and ne: "block_table c \<noteq> []" and sh: "last (block_table c) \<in># R" and "num_free (alloc p) = 0"
  shows "unshare_tail (p, c) = (Raise OutOfBlocks, (p, c))"
proof -
  have "ref_count (alloc p) (last (block_table c)) = Ret (Suc (count R (last (block_table c))))"
    using ba.count_positive [OF pool_wf_allocD [OF wf], of "last (block_table c)"] ne tw
    by (simp add: count_mset_distinct table_wf_def)
  moreover have "allocate (alloc p) = (None, alloc p)"
    using ba.alloc_none [OF pool_wf_allocD [OF wf]] assms(5) by simp
  moreover have "count R (last (block_table c)) \<noteq> 0"
    using sh by simp
  ultimately show ?thesis
    using ne by (simp add: unshare_tail_def Let_def)
qed

lemma unshare_tail_shared:
  assumes wf: "pool_wf p (mset (block_table c) + R)" and tw: "table_wf p c"
    and ne: "block_table c \<noteq> []" and sh: "last (block_table c) \<in># R" and fr: "0 < num_free (alloc p)"
  shows "\<exists>fresh a. unshare_tail (p, c) =
      (Ret (), ((copy_block (last (block_table c)) fresh p)\<lparr>alloc := a\<rparr>,
        c\<lparr>block_table := butlast (block_table c) @ [fresh],
          slots := table_slots (block_size p) (butlast (block_table c) @ [fresh])\<rparr>)) \<and>
    fresh \<notin># mset (block_table c) + R \<and> fresh < num_blocks (alloc p) \<and>
    alloc_ok a (mset (butlast (block_table c) @ [fresh]) + R) \<and>
    num_free a = num_free (alloc p) - 1 \<and> num_blocks a = num_blocks (alloc p)"
proof -
  let ?bt = "block_table c" and ?tail = "last (block_table c)" and ?bs = "block_size p"
  let ?M = "mset ?bt + R"
  have ok: "alloc_ok (alloc p) ?M" using wf by (rule pool_wf_allocD)
  obtain fresh a1 where f: "allocate (alloc p) = (Some fresh, a1)" "fresh \<notin># ?M"
      "fresh < num_blocks (alloc p)" "alloc_ok a1 (add_mset fresh ?M)"
      "num_free a1 = num_free (alloc p) - 1" "num_blocks a1 = num_blocks (alloc p)"
    using ba.alloc_some [OF ok fr] by auto
  have bt: "mset ?bt = add_mset ?tail (mset (butlast ?bt))"
    using arg_cong [OF append_butlast_last_id [OF ne], of mset] by simp
  have M: "add_mset fresh ?M - {#?tail#} = mset (butlast ?bt @ [fresh]) + R"
    by (simp add: bt)
  have "?tail \<in># add_mset fresh ?M - {#?tail#}"
    using sh by (simp add: M)
  then obtain r a2 where d: "decref ?tail a1 = (Ret r, a2)" "alloc_ok a2 (mset (butlast ?bt @ [fresh]) + R)"
      "num_free a2 = num_free a1" "num_blocks a2 = num_blocks a1"
    using ba.dec_held [OF f(4), of ?tail] ne by (auto simp: M)
  have rc: "ref_count (alloc p) ?tail = Ret (Suc (count R ?tail))"
    using ba.count_positive [OF ok, of ?tail] ne tw by (simp add: count_mset_distinct table_wf_def)
  obtain k where k: "count R ?tail = Suc k"
    using sh by (metis count_greater_zero_iff gr0_conv_Suc)
  have sl: "take (length (slots c) - ?bs) (slots c) = table_slots ?bs (butlast ?bt)"
    using slots_snoc [OF tw ne] by simp
  have "unshare_tail (p, c) = (Ret (), ((copy_block ?tail fresh p)\<lparr>alloc := a2\<rparr>,
      c\<lparr>block_table := butlast ?bt @ [fresh], slots := table_slots ?bs (butlast ?bt @ [fresh])\<rparr>))"
    using ne rc k f(1) d(1) sl
    by (simp add: unshare_tail_def Let_def copy_block_def)
  with f d show ?thesis by auto
qed

lemma rows_take: "k_rows p c n l = take n (gather (kmem p ! l) (slots c))"
    "v_rows p c n l = take n (gather (vmem p ! l) (slots c))"
  by (simp_all add: k_rows_def v_rows_def gather_take)

lemma unshare_tail_ok:
  assumes wf: "pool_wf p (mset (block_table c) + R)" and tw: "table_wf p c"
    and fr: "need_copy c R \<le> num_free (alloc p)"
  shows "\<exists>p' c'. unshare_tail (p, c) = (Ret (), (p', c')) \<and>
    pool_wf p' (mset (block_table c') + R) \<and> table_wf p' c' \<and>
    length (block_table c') = length (block_table c) \<and> num_tokens c' = num_tokens c \<and>
    start_pos c' = start_pos c \<and> (block_table c' \<noteq> [] \<longrightarrow> last (block_table c') \<notin># R) \<and>
    set (block_table c') \<inter> set_mset R \<subseteq> set (block_table c) \<and>
    same_blocks (\<lambda>b. b \<in># R) p p' \<and> pool_frame p p' \<and>
    (\<forall>n. \<forall>l < num_hidden_layers (cfg p). k_rows p' c' n l = k_rows p c n l \<and> v_rows p' c' n l = v_rows p c n l) \<and>
    num_free (alloc p') = num_free (alloc p) - need_copy c R"
proof (cases "block_table c \<noteq> [] \<and> last (block_table c) \<in># R")
  case False
  then show ?thesis
    using assms unshare_tail_private [OF wf tw] by (auto simp: need_copy_def)
next
  case True
  let ?bt = "block_table c" and ?tail = "last (block_table c)" and ?bs = "block_size p"
  have fr': "0 < num_free (alloc p)" using fr True by (simp add: need_copy_def)
  obtain fresh a where u: "unshare_tail (p, c) =
      (Ret (), ((copy_block ?tail fresh p)\<lparr>alloc := a\<rparr>,
        c\<lparr>block_table := butlast ?bt @ [fresh], slots := table_slots ?bs (butlast ?bt @ [fresh])\<rparr>))"
    "fresh \<notin># mset ?bt + R" "fresh < num_blocks (alloc p)"
    "alloc_ok a (mset (butlast ?bt @ [fresh]) + R)"
    "num_free a = num_free (alloc p) - 1" "num_blocks a = num_blocks (alloc p)"
    using unshare_tail_shared [OF wf tw _ _ fr'] True by blast
  let ?p = "(copy_block ?tail fresh p)\<lparr>alloc := a\<rparr>"
    and ?c = "c\<lparr>block_table := butlast ?bt @ [fresh], slots := table_slots ?bs (butlast ?bt @ [fresh])\<rparr>"
  have tail: "?tail < num_blocks (alloc p)"
    using pool_wf_bounded [OF wf] True by simp
  note bs = pool_wf_bs [OF wf]
  have same: "same_blocks (\<lambda>b. b \<noteq> fresh) p ?p"
    using copy_block_same_blocks [OF wf tail u(3)] by (simp add: same_blocks_def)
  have blocks: "b < num_blocks (alloc p) \<and> b \<noteq> fresh" if "b \<in> set (butlast ?bt)" for b
    using that u(2) pool_wf_bounded [OF wf] by (auto dest: in_set_butlastD)
  have rows: "gather (kmem ?p ! l) (slots ?c) = gather (kmem p ! l) (slots c) \<and>
      gather (vmem ?p ! l) (slots ?c) = gather (vmem p ! l) (slots c)" if l: "l < num_hidden_layers (cfg p)" for l
  proof -
    have "kmem ?p ! l ! s = kmem p ! l ! s \<and> vmem ?p ! l ! s = vmem p ! l ! s"
      if "s \<in> set (table_slots ?bs (butlast ?bt))" for s
      using that same blocks l bs by (auto simp: same_blocks_def set_table_slots slot_bounded)
    then show ?thesis
      using gather_copy_block [OF wf tail u(3) l] slots_snoc [OF tw] True
      by (simp add: gather_def)
  qed
  have "pool_wf ?p (mset (block_table ?c) + R)"
    using pool_wf_alloc [OF pool_wf_copy_block [OF wf tail u(3)], of a] u(4,6) by simp
  moreover have "table_wf ?p ?c"
    using tw u(2) by (auto simp: table_wf_def distinct_butlast dest: in_set_butlastD)
  moreover have "same_blocks (\<lambda>b. b \<in># R) p ?p"
    using same by (rule same_blocks_mono) (use u(2) in auto)
  moreover have "pool_frame p ?p"
    using u(6) by (simp add: pool_frame_def)
  moreover have "length (block_table ?c) = length ?bt"
    using True by (cases ?bt rule: rev_cases) simp_all
  moreover have "set (block_table ?c) \<inter> set_mset R \<subseteq> set ?bt"
    using u(2) by (auto dest: in_set_butlastD)
  ultimately show ?thesis
    using u True rows by (intro exI [of _ ?p] exI [of _ ?c]) (simp add: need_copy_def rows_take)
qed

section \<open>Beginning a pass\<close>

lemma drop_slots_private:
  assumes "0 < bs" and "length bt = ceil_div n bs" and "s \<in> set (drop n (table_slots bs bt))"
  shows "n mod bs \<noteq> 0 \<and> bt \<noteq> [] \<and> s div bs = last bt"
proof -
  note b = ceil_div_bounds [OF assms(1), of n]
  have ne: "bt \<noteq> []" using assms(3) by (cases bt) simp_all
  have "n mod bs \<noteq> 0"
  proof
    assume "n mod bs = 0"
    then obtain q where "n = q * bs" by (metis dvdE mod_0_imp_dvd mult.commute)
    with assms show False by simp
  qed
  have "(length bt - 1) * bs \<le> n"
    using b assms(2) ne by (simp add: diff_mult_distrib)
  then have "drop n (table_slots bs bt) =
      drop (n - (length bt - 1) * bs) (drop ((length bt - 1) * bs) (table_slots bs bt))"
    by simp
  also have "drop ((length bt - 1) * bs) (table_slots bs bt) = table_slots bs [last bt]"
    using assms(1) ne drop_table_slots [OF assms(1), of "length bt - 1" bt]
    by (cases bt rule: rev_cases) simp_all
  finally have "s \<in> set (block_slots bs (last bt))"
    using assms(3) by (auto dest: in_set_dropD)
  with assms(1) ne \<open>n mod bs \<noteq> 0\<close> show ?thesis by (simp add: set_block_slots)
qed

lemma pass_need_eq:
  "pass_need p c R n = (ceil_div (num_tokens c + n) (block_size p) - length (block_table c)) +
     (if num_tokens c mod block_size p \<noteq> 0 then need_copy c R else 0)"
  by (simp add: pass_need_def cow_needed_def need_copy_def)

text \<open>The first half of \<^verbatim>\<open>update\<close> on layer 0: make a shared partial tail private.\<close>

lemma cow_phase_ok:
  assumes wf: "pool_wf p (mset (block_table c) + R)" and tw: "table_wf p c"
    and fr: "(if num_tokens c mod block_size p \<noteq> 0 then need_copy c R else 0) \<le> num_free (alloc p)"
  shows "\<exists>p' c'. (if num_tokens c mod block_size p \<noteq> 0 then unshare_tail (p, c) else (Ret (), (p, c))) =
      (Ret (), (p', c')) \<and>
    pool_wf p' (mset (block_table c') + R) \<and> table_wf p' c' \<and>
    length (block_table c') = length (block_table c) \<and> num_tokens c' = num_tokens c \<and>
    start_pos c' = start_pos c \<and>
    (num_tokens c mod block_size p \<noteq> 0 \<longrightarrow> block_table c' \<noteq> [] \<longrightarrow> last (block_table c') \<notin># R) \<and>
    set (block_table c') \<inter> set_mset R \<subseteq> set (block_table c) \<and>
    same_blocks (\<lambda>b. b \<in># R) p p' \<and> pool_frame p p' \<and>
    (\<forall>m. \<forall>l < num_hidden_layers (cfg p). k_rows p' c' m l = k_rows p c m l \<and> v_rows p' c' m l = v_rows p c m l) \<and>
    num_free (alloc p') = num_free (alloc p) -
      (if num_tokens c mod block_size p \<noteq> 0 then need_copy c R else 0)"
proof (cases "num_tokens c mod block_size p = 0")
  case True
  then show ?thesis
    using wf tw by (intro exI [of _ p] exI [of _ c]) simp
next
  case False
  then show ?thesis
    using unshare_tail_ok [OF wf tw] fr by simp
qed

lemma writable_after_growth:
  assumes "0 < block_size p" and "slots c = table_slots (block_size p) (bt @ new)"
    and "length bt = ceil_div (start_pos c) (block_size p)"
    and "start_pos c mod block_size p \<noteq> 0 \<longrightarrow> bt \<noteq> [] \<longrightarrow> last bt \<notin># R"
    and "set new \<inter> set_mset R = {}"
  shows "writable p c R"
  unfolding writable_def
proof
  fix s assume "s \<in> set (drop (start_pos c) (slots c))"
  moreover have "start_pos c \<le> length (table_slots (block_size p) bt)"
    using ceil_div_bounds(1) [OF assms(1), of "start_pos c"] assms(3) by simp
  ultimately consider "s \<in> set (drop (start_pos c) (table_slots (block_size p) bt))"
    | "s \<in> set (table_slots (block_size p) new)"
    using assms(2) by auto
  then show "s div block_size p \<notin># R"
  proof cases
    case 1
    then show ?thesis
      using drop_slots_private [OF assms(1,3) 1] assms(4) by auto
  next
    case 2
    then show ?thesis using assms(1,5) by (auto simp: set_table_slots)
  qed
qed

lemma begin_pass_ok:
  assumes wf: "pool_wf p (mset (block_table c) + R)" and cw: "cache_wf p c"
    and fr: "pass_need p c R n \<le> num_free (alloc p)"
  shows "\<exists>p' c'. begin_pass n (p, c) = (Ret (), (p', c')) \<and> pass_ready p' c' R n \<and>
    start_pos c' = num_tokens c \<and> set (block_table c') \<inter> set_mset R \<subseteq> set (block_table c) \<and>
    same_blocks (\<lambda>b. b \<in># R) p p' \<and> pool_frame p p' \<and>
    (\<forall>l < num_hidden_layers (cfg p). k_rows p' c' (num_tokens c) l = k_rows p c (num_tokens c) l \<and>
       v_rows p' c' (num_tokens c) l = v_rows p c (num_tokens c) l) \<and>
    num_free (alloc p') = num_free (alloc p) - pass_need p c R n"
proof -
  let ?bs = "block_size p" and ?n0 = "num_tokens c" and ?c0 = "c\<lparr>start_pos := num_tokens c\<rparr>"
  let ?cp = "if ?n0 mod ?bs \<noteq> 0 then need_copy c R else 0"
  have bs: "0 < ?bs" using wf by (rule pool_wf_bs)
  have tw0: "table_wf p ?c0" and len0: "length (block_table c) = ceil_div ?n0 ?bs"
    using cw by (simp_all add: cache_wf_def table_wf_def)
  have wf0: "pool_wf p (mset (block_table ?c0) + R)" using wf by simp
  have nc: "need_copy ?c0 R = need_copy c R" "num_tokens ?c0 = ?n0" "start_pos ?c0 = ?n0"
    "block_table ?c0 = block_table c" by (simp_all add: need_copy_def)
  have fr0: "(if num_tokens ?c0 mod ?bs \<noteq> 0 then need_copy ?c0 R else 0) \<le> num_free (alloc p)"
    using fr by (auto simp: pass_need_eq nc split: if_splits)
  obtain p1 c1 where u:
    "(if ?n0 mod ?bs \<noteq> 0 then unshare_tail (p, ?c0) else (Ret (), (p, ?c0))) = (Ret (), (p1, c1))"
    "pool_wf p1 (mset (block_table c1) + R)" "table_wf p1 c1"
    "length (block_table c1) = length (block_table c)" "num_tokens c1 = ?n0" "start_pos c1 = ?n0"
    "?n0 mod ?bs \<noteq> 0 \<longrightarrow> block_table c1 \<noteq> [] \<longrightarrow> last (block_table c1) \<notin># R"
    "same_blocks (\<lambda>b. b \<in># R) p p1" "pool_frame p p1"
    "set (block_table c1) \<inter> set_mset R \<subseteq> set (block_table c)"
    "\<forall>m. \<forall>l < num_hidden_layers (cfg p). k_rows p1 c1 m l = k_rows p ?c0 m l \<and> v_rows p1 c1 m l = v_rows p ?c0 m l"
    "num_free (alloc p1) = num_free (alloc p) - ?cp"
    using cow_phase_ok [OF wf0 tw0 fr0] by (simp only: nc) blast
  have bs1: "block_size p1 = ?bs" using u(9) by (simp add: pool_frame_def)
  have le: "length (block_table c1) \<le> ceil_div (num_tokens c1 + n) (block_size p1)"
    using ceil_div_mono [OF bs, of ?n0 "?n0 + n"] len0 u(4,5) bs1 by simp
  have fr1: "ceil_div (num_tokens c1 + n) (block_size p1) - length (block_table c1) \<le> num_free (alloc p1)"
    using fr u(4,5,12) bs1 by (simp add: pass_need_eq split: if_splits)
  obtain a new where e: "ensure_capacity n (p1, c1) =
      (Ret (), (p1\<lparr>alloc := a\<rparr>, c1\<lparr>block_table := block_table c1 @ new,
                             slots := slots c1 @ table_slots (block_size p1) new\<rparr>))"
    "length (block_table c1 @ new) = ceil_div (num_tokens c1 + n) (block_size p1)"
    "distinct (block_table c1 @ new)" "set new \<inter> set_mset R = {}"
    "pool_wf (p1\<lparr>alloc := a\<rparr>) (mset (block_table c1 @ new) + R)"
    "num_free a = num_free (alloc p1) -
      (ceil_div (num_tokens c1 + n) (block_size p1) - length (block_table c1))"
    "num_blocks a = num_blocks (alloc p1)"
    using ensure_capacity_ok [OF u(2,3) le fr1] by blast
  let ?p = "p1\<lparr>alloc := a\<rparr>"
    and ?c = "c1\<lparr>block_table := block_table c1 @ new,
                 slots := slots c1 @ table_slots (block_size p1) new, num_tokens := ?n0 + n\<rparr>"
  have run: "begin_pass n (p, c) = (Ret (), (?p, ?c))"
    using u(1,5) e(1) by (simp add: begin_pass_def Let_def)
  have sl1: "slots c1 = table_slots ?bs (block_table c1)"
    using u(3) bs1 by (simp add: table_wf_def)
  have n0: "?n0 \<le> length (slots c1)"
    using ceil_div_bounds(1) [OF bs, of ?n0] sl1 u(4) len0 by simp
  have "writable ?p ?c R"
    by (rule writable_after_growth [where bt = "block_table c1" and new = new])
      (use bs bs1 sl1 u(4,6,7) len0 e(4) in simp_all)
  then have "pass_ready ?p ?c R n"
    using e(2,3,5) u(3,5,6) bs1 by (simp add: pass_ready_def cache_wf_def table_wf_def)
  moreover have "same_blocks (\<lambda>b. b \<in># R) p ?p"
    by (rule same_blocks_trans [OF u(8) _ u(9)]) simp
  moreover have "k_rows ?p ?c ?n0 l = k_rows p c ?n0 l \<and> v_rows ?p ?c ?n0 l = v_rows p c ?n0 l"
    if "l < num_hidden_layers (cfg p)" for l
    using u(11) [rule_format, OF that, of ?n0] n0 by (simp add: k_rows_def v_rows_def)
  moreover have "num_free (alloc ?p) = num_free (alloc p) - pass_need p c R n"
    using e(6) u(4,5,12) bs1 by (simp add: pass_need_eq)
  moreover have "set (block_table ?c) \<inter> set_mset R \<subseteq> set (block_table c)"
    using u(10) e(4) by auto
  ultimately show ?thesis
    using run u(6,9) e(7) by (intro exI [of _ ?p] exI [of _ ?c]) (auto simp: pool_frame_def)
qed

section \<open>Writing a layer\<close>

lemma pass_ready_slots:
  assumes "pass_ready p c R n"
  shows "take (start_pos c + n) (slots c) = take (start_pos c) (slots c) @ take n (drop (start_pos c) (slots c))"
    and "length (take n (drop (start_pos c) (slots c))) = n"
    and "distinct (slots c)"
    and "\<And>s. s \<in> set (slots c) \<Longrightarrow> s < num_blocks (alloc p) * block_size p"
proof -
  have wf: "pool_wf p (mset (block_table c) + R)" and cw: "cache_wf p c"
    and nt: "num_tokens c = start_pos c + n"
    using assms by (simp_all add: pass_ready_def)
  note bs = pool_wf_bs [OF wf]
  have sl: "slots c = table_slots (block_size p) (block_table c)" "distinct (block_table c)"
    using cw by (simp_all add: cache_wf_def table_wf_def)
  show "take (start_pos c + n) (slots c) = take (start_pos c) (slots c) @ take n (drop (start_pos c) (slots c))"
    by (simp add: take_add)
  have "start_pos c + n \<le> length (slots c)"
    using ceil_div_bounds(1) [OF bs, of "num_tokens c"] cw nt sl by (simp add: cache_wf_def)
  then show "length (take n (drop (start_pos c) (slots c))) = n" by simp
  show "distinct (slots c)" using sl bs by (simp add: distinct_table_slots)
  show "s < num_blocks (alloc p) * block_size p" if "s \<in> set (slots c)" for s
    using that sl bs pool_wf_bounded [OF wf] by (auto simp: set_table_slots intro!: slot_bounded)
qed

lemma scatter_rows:
  assumes "distinct (xs @ ys)" and "\<forall>s \<in> set ys. s < length m" and "length rs = length ys"
  shows "gather (scatter ys rs m) (xs @ ys) = gather m xs @ rs"
  using assms by (auto simp: gather_scatter_same gather_scatter_disjoint Int_commute)

lemma write_layer_ok:
  assumes pr: "pass_ready p c R n" and len: "length k = n" "length v = n"
    and l: "l < num_hidden_layers (cfg p)"
  shows "\<exists>p'. write_layer l k v (p, c) =
      (Ret (k_rows p c (start_pos c) l @ k, v_rows p c (start_pos c) l @ v), (p', c)) \<and>
    pass_ready p' c R n \<and> same_blocks (\<lambda>b. b \<in># R) p p' \<and> pool_frame p p' \<and> alloc p' = alloc p \<and>
    k_rows p' c (start_pos c + n) l = k_rows p c (start_pos c) l @ k \<and>
    v_rows p' c (start_pos c + n) l = v_rows p c (start_pos c) l @ v \<and>
    (\<forall>l'. l' \<noteq> l \<longrightarrow> kmem p' ! l' = kmem p ! l' \<and> vmem p' ! l' = vmem p ! l')"
proof -
  let ?sl = "take n (drop (start_pos c) (slots c))"
  let ?p = "p\<lparr>kmem := (kmem p)[l := scatter ?sl k (kmem p ! l)],
              vmem := (vmem p)[l := scatter ?sl v (vmem p ! l)]\<rparr>"
  note ps = pass_ready_slots [OF pr]
  have wf: "pool_wf p (mset (block_table c) + R)" using pr by (simp add: pass_ready_def)
  note mem = pool_wf_mem [OF wf l]
  have lens: "length (kmem p) = num_hidden_layers (cfg p)" "length (vmem p) = num_hidden_layers (cfg p)"
    using wf by (simp_all add: pool_wf_def)
  have dist: "distinct (take (start_pos c) (slots c) @ ?sl)"
    using ps(1,3) by (metis distinct_take)
  have bnd: "\<forall>s \<in> set ?sl. s < num_blocks (alloc p) * block_size p"
    using ps(4) by (auto dest!: in_set_takeD in_set_dropD)
  have gk: "gather (kmem ?p ! l) (take (start_pos c + n) (slots c)) = k_rows p c (start_pos c) l @ k"
    and gv: "gather (vmem ?p ! l) (take (start_pos c + n) (slots c)) = v_rows p c (start_pos c) l @ v"
    using scatter_rows [OF dist, of "kmem p ! l" k] scatter_rows [OF dist, of "vmem p ! l" v]
      mem bnd len ps(1,2) l lens by (simp_all add: k_rows_def v_rows_def)
  have run: "write_layer l k v (p, c) =
      (Ret (k_rows p c (start_pos c) l @ k, v_rows p c (start_pos c) l @ v), (?p, c))"
    using l lens len ps(2) gk gv by (simp add: write_layer_def Let_def)
  have "pool_wf ?p (mset (block_table c) + R)"
    using wf l mem by (auto simp: pool_wf_def dest!: subsetD [OF set_update_subset_insert])
  then have "pass_ready ?p c R n"
    using pr by (simp add: pass_ready_def cache_wf_def table_wf_def writable_def)
  moreover have "same_blocks (\<lambda>b. b \<in># R) p ?p"
  proof -
    have "s \<notin> set ?sl" if "s div block_size p \<in># R" for s
      using that pr by (auto simp: pass_ready_def writable_def dest!: in_set_takeD)
    then have "scatter ?sl rs m ! s = m ! s" if "s div block_size p \<in># R" for s rs and m :: "'a list"
      using that by (simp add: scatter_outside)
    then show ?thesis
      using lens l by (auto simp: same_blocks_def nth_list_update)
  qed
  moreover have "pool_frame p ?p" by (simp add: pool_frame_def)
  ultimately show ?thesis
    using run gk gv by (intro exI [of _ ?p]) (simp add: k_rows_def v_rows_def)
qed

section \<open>One layer's update\<close>

text \<open>Layer 0 begins the pass; its result is the sequence's rows with the new ones appended.\<close>

lemma update0_ok:
  assumes wf: "pool_wf p (mset (block_table c) + R)" and cw: "cache_wf p c"
    and fr: "pass_need p c R n \<le> num_free (alloc p)"
    and len: "length k = n" "length v = n" and l: "0 < num_hidden_layers (cfg p)"
  shows "\<exists>p' c'. update 0 k v (p, c) =
      (Ret (k_rows p c (num_tokens c) 0 @ k, v_rows p c (num_tokens c) 0 @ v), (p', c')) \<and>
    pass_ready p' c' R n \<and> start_pos c' = num_tokens c \<and>
    same_blocks (\<lambda>b. b \<in># R) p p' \<and> pool_frame p p' \<and>
    k_rows p' c' (num_tokens c + n) 0 = k_rows p c (num_tokens c) 0 @ k \<and>
    v_rows p' c' (num_tokens c + n) 0 = v_rows p c (num_tokens c) 0 @ v \<and>
    (\<forall>l < num_hidden_layers (cfg p). l \<noteq> 0 \<longrightarrow>
       k_rows p' c' (num_tokens c) l = k_rows p c (num_tokens c) l \<and>
       v_rows p' c' (num_tokens c) l = v_rows p c (num_tokens c) l) \<and>
    num_free (alloc p') = num_free (alloc p) - pass_need p c R n"
proof -
  obtain p1 c1 where b: "begin_pass n (p, c) = (Ret (), (p1, c1))" "pass_ready p1 c1 R n"
    "start_pos c1 = num_tokens c" "same_blocks (\<lambda>b. b \<in># R) p p1" "pool_frame p p1"
    "\<forall>l < num_hidden_layers (cfg p). k_rows p1 c1 (num_tokens c) l = k_rows p c (num_tokens c) l \<and>
       v_rows p1 c1 (num_tokens c) l = v_rows p c (num_tokens c) l"
    "num_free (alloc p1) = num_free (alloc p) - pass_need p c R n"
    using begin_pass_ok [OF wf cw fr] by blast
  have l1: "0 < num_hidden_layers (cfg p1)" using b(5) l by (simp add: pool_frame_def)
  obtain p2 where w: "write_layer 0 k v (p1, c1) =
      (Ret (k_rows p1 c1 (start_pos c1) 0 @ k, v_rows p1 c1 (start_pos c1) 0 @ v), (p2, c1))"
    "pass_ready p2 c1 R n" "same_blocks (\<lambda>b. b \<in># R) p1 p2" "pool_frame p1 p2" "alloc p2 = alloc p1"
    "k_rows p2 c1 (start_pos c1 + n) 0 = k_rows p1 c1 (start_pos c1) 0 @ k"
    "v_rows p2 c1 (start_pos c1 + n) 0 = v_rows p1 c1 (start_pos c1) 0 @ v"
    "\<forall>l'. l' \<noteq> 0 \<longrightarrow> kmem p2 ! l' = kmem p1 ! l' \<and> vmem p2 ! l' = vmem p1 ! l'"
    using write_layer_ok [OF b(2) len l1] by blast
  have "update 0 k v (p, c) =
      (Ret (k_rows p c (num_tokens c) 0 @ k, v_rows p c (num_tokens c) 0 @ v), (p2, c1))"
    using b(1,3,6) w(1) len l by (simp add: update_def)
  moreover have "same_blocks (\<lambda>b. b \<in># R) p p2" "pool_frame p p2"
    using same_blocks_trans [OF b(4) w(3) b(5)] pool_frame_trans [OF b(5) w(4)] by blast+
  moreover have "k_rows p2 c1 (num_tokens c) l = k_rows p c (num_tokens c) l \<and>
       v_rows p2 c1 (num_tokens c) l = v_rows p c (num_tokens c) l"
    if "l < num_hidden_layers (cfg p)" "l \<noteq> 0" for l
    using b(6) w(8) that by (auto simp: k_rows_def v_rows_def)
  ultimately show ?thesis
    using b(3,6,7) w(2,5,6,7) l by (intro exI [of _ p2] exI [of _ c1]) auto
qed

lemma update_next_ok:
  assumes "pass_ready p c R n" and "length k = n" "length v = n"
    and "0 < l" and "l < num_hidden_layers (cfg p)"
  shows "\<exists>p'. update l k v (p, c) =
      (Ret (k_rows p c (start_pos c) l @ k, v_rows p c (start_pos c) l @ v), (p', c)) \<and>
    pass_ready p' c R n \<and> same_blocks (\<lambda>b. b \<in># R) p p' \<and> pool_frame p p' \<and> alloc p' = alloc p \<and>
    k_rows p' c (start_pos c + n) l = k_rows p c (start_pos c) l @ k \<and>
    v_rows p' c (start_pos c + n) l = v_rows p c (start_pos c) l @ v \<and>
    (\<forall>l'. l' \<noteq> l \<longrightarrow> kmem p' ! l' = kmem p ! l' \<and> vmem p' ! l' = vmem p ! l')"
  using write_layer_ok [OF assms(1-3,5)] assms(4) by (simp add: update_def)

section \<open>Exhaustion\<close>

text \<open>What a failed pass leaves: every block taken so far is in the sequence's table, the token count
  has not moved, and nobody else's rows changed.\<close>

lemma begin_pass_out_of_blocks:
  assumes wf: "pool_wf p (mset (block_table c) + R)" and cw: "cache_wf p c"
    and fr: "num_free (alloc p) < pass_need p c R n"
  shows "\<exists>p' c'. begin_pass n (p, c) = (Raise OutOfBlocks, (p', c')) \<and>
    pool_wf p' (mset (block_table c') + R) \<and> table_wf p' c' \<and> num_tokens c' = num_tokens c \<and>
    same_blocks (\<lambda>b. b \<in># R) p p' \<and> pool_frame p p' \<and> num_free (alloc p') = 0"
proof -
  let ?bs = "block_size p" and ?n0 = "num_tokens c" and ?c0 = "c\<lparr>start_pos := num_tokens c\<rparr>"
  let ?cp = "if ?n0 mod ?bs \<noteq> 0 then need_copy c R else 0"
  have tw0: "table_wf p ?c0"
    using cw by (simp add: cache_wf_def table_wf_def)
  have wf0: "pool_wf p (mset (block_table ?c0) + R)" using wf by simp
  have nc: "need_copy ?c0 R = need_copy c R" "num_tokens ?c0 = ?n0" "block_table ?c0 = block_table c"
    by (simp_all add: need_copy_def)
  show ?thesis
  proof (cases "?cp \<le> num_free (alloc p)")
    case False
    then have c: "?n0 mod ?bs \<noteq> 0" "block_table c \<noteq> []" "last (block_table c) \<in># R" "num_free (alloc p) = 0"
      by (auto simp: need_copy_def split: if_splits)
    then have "unshare_tail (p, ?c0) = (Raise OutOfBlocks, (p, ?c0))"
      by (intro unshare_tail_out_of_blocks [OF wf0 tw0]) simp_all
    then have "begin_pass n (p, c) = (Raise OutOfBlocks, (p, ?c0))"
      using c(1) by (simp add: begin_pass_def Let_def)
    then show ?thesis
      using c wf tw0 by (intro exI [of _ p] exI [of _ ?c0]) simp
  next
    case True
    then have fr0: "(if num_tokens ?c0 mod ?bs \<noteq> 0 then need_copy ?c0 R else 0) \<le> num_free (alloc p)"
      by (simp only: nc)
    obtain p1 c1 where u:
      "(if ?n0 mod ?bs \<noteq> 0 then unshare_tail (p, ?c0) else (Ret (), (p, ?c0))) = (Ret (), (p1, c1))"
      "pool_wf p1 (mset (block_table c1) + R)" "table_wf p1 c1"
      "length (block_table c1) = length (block_table c)" "num_tokens c1 = ?n0"
      "same_blocks (\<lambda>b. b \<in># R) p p1" "pool_frame p p1"
      "num_free (alloc p1) = num_free (alloc p) - ?cp"
      using cow_phase_ok [OF wf0 tw0 fr0] by (simp only: nc) blast
    let ?m = "ceil_div (num_tokens c1 + n) (block_size p1) - length (block_table c1)"
    have bs1: "block_size p1 = ?bs" using u(7) by (simp add: pool_frame_def)
    have "\<not> ?m \<le> num_free (alloc p1)"
      using fr True u(4,5,8) bs1 by (simp add: pass_need_eq split: if_splits)
    then obtain a new where e: "ensure_capacity n (p1, c1) =
        (Raise OutOfBlocks, (p1\<lparr>alloc := a\<rparr>, c1\<lparr>block_table := block_table c1 @ new,
                               slots := slots c1 @ table_slots (block_size p1) new\<rparr>))"
      "distinct (block_table c1 @ new)" "alloc_ok a (mset (block_table c1 @ new) + R)"
      "num_free a = 0" "num_blocks a = num_blocks (alloc p1)"
      using ensure_loop_spec [OF pool_wf_allocD [OF u(2)] u(3), of ?m]
      by (auto simp: ensure_capacity_def Let_def)
    let ?c = "c1\<lparr>block_table := block_table c1 @ new, slots := slots c1 @ table_slots (block_size p1) new\<rparr>"
    have "begin_pass n (p, c) = (Raise OutOfBlocks, (p1\<lparr>alloc := a\<rparr>, ?c))"
      using u(1) e(1) by (simp add: begin_pass_def Let_def)
    moreover have "pool_wf (p1\<lparr>alloc := a\<rparr>) (mset (block_table ?c) + R)"
      using pool_wf_alloc [OF u(2) e(3,5)] by simp
    moreover have "same_blocks (\<lambda>b. b \<in># R) p (p1\<lparr>alloc := a\<rparr>)"
      by (rule same_blocks_trans [OF u(6) _ u(7)]) simp
    ultimately show ?thesis
      using u(3,5,7) e(2,4,5)
      by (intro exI [of _ "p1\<lparr>alloc := a\<rparr>"] exI [of _ ?c]) (simp add: table_wf_def pool_frame_def)
  qed
qed

section \<open>Fork and free\<close>

lemma on_alloc_eq: "f (alloc p) = (r, a) \<Longrightarrow> on_alloc f p = (r, p\<lparr>alloc := a\<rparr>)"
  by (simp add: on_alloc_def)

lemma fork_ok:
  assumes wf: "pool_wf p (mset (block_table c) + R)" and cw: "cache_wf p c"
  shows "\<exists>a c'. fork p c = (Ret c', p\<lparr>alloc := a\<rparr>) \<and>
    pool_wf (p\<lparr>alloc := a\<rparr>) (mset (block_table c') + (mset (block_table c) + R)) \<and>
    cache_wf (p\<lparr>alloc := a\<rparr>) c' \<and> block_table c' = block_table c \<and> num_tokens c' = num_tokens c \<and>
    slots c' = slots c \<and> num_free a = num_free (alloc p) \<and> num_blocks a = num_blocks (alloc p)"
proof -
  obtain a where a: "for_each incref (block_table c) (alloc p) = (Ret (), a)"
    "alloc_ok a (mset (block_table c) + R + mset (block_table c))" "num_free a = num_free (alloc p)"
    "num_blocks a = num_blocks (alloc p)"
    using ba.inc_all [OF pool_wf_allocD [OF wf], of "block_table c"] by auto
  then show ?thesis
    using wf cw by (intro exI [of _ a] exI [of _ "new_pcache\<lparr>block_table := block_table c,
        num_tokens := num_tokens c, slots := slots c\<rparr>"])
      (auto simp: fork_def on_alloc_eq pool_wf_def cache_wf_def table_wf_def add.commute)
qed

lemma free_cache_ok:
  assumes wf: "pool_wf p (mset (block_table c) + R)"
  shows "\<exists>a. free_cache (p, c) =
      (Ret (), (p\<lparr>alloc := a\<rparr>, c\<lparr>block_table := [], num_tokens := 0, slots := []\<rparr>)) \<and>
    pool_wf (p\<lparr>alloc := a\<rparr>) R \<and> num_blocks a = num_blocks (alloc p) \<and>
    num_free a = num_free (alloc p) + card (set (block_table c) - set_mset R)"
proof -
  have ok: "alloc_ok (alloc p) (R + mset (block_table c))"
    using pool_wf_allocD [OF wf] by (simp add: add.commute)
  obtain a where a: "for_each decref (block_table c) (alloc p) = (Ret (), a)" "alloc_ok a R"
    "num_blocks a = num_blocks (alloc p)"
    using ba.dec_all [OF ok] by blast
  have "set_mset (R + mset (block_table c)) = set_mset R \<union> (set (block_table c) - set_mset R)"
    by auto
  then have "card (set_mset (R + mset (block_table c))) = card (set_mset R) + card (set (block_table c) - set_mset R)"
    by (metis Diff_disjoint card_Un_disjoint finite_Diff finite_set finite_set_mset)
  then have "num_free a = num_free (alloc p) + card (set (block_table c) - set_mset R)"
    using ba.accounting [OF ok] ba.accounting [OF a(2)] a(3) by linarith
  then show ?thesis
    using a pool_wf_alloc [OF wf a(2,3)] by (auto simp: free_cache_def on_alloc_eq)
qed

lemma new_pool_wf: "0 < bs \<Longrightarrow> pool_wf (new_pool z cf n bs isz) {#}"
  by (auto simp: pool_wf_def new_pool_def Let_def new_allocator_ok) (simp_all add: new_allocator_def)

lemma new_pcache_wf: "cache_wf p new_pcache"
  by (simp add: cache_wf_def table_wf_def new_pcache_def)

section \<open>Properties\<close>

lemma update0_out_of_blocks:
  assumes "pool_wf p (mset (block_table c) + R)" and "cache_wf p c"
    and "num_free (alloc p) < pass_need p c R (length k)"
  shows "\<exists>p' c'. update 0 k v (p, c) = (Raise OutOfBlocks, (p', c')) \<and>
    pool_wf p' (mset (block_table c') + R) \<and> table_wf p' c' \<and> num_tokens c' = num_tokens c \<and>
    same_blocks (\<lambda>b. b \<in># R) p p' \<and> pool_frame p p' \<and> num_free (alloc p') = 0"
  using begin_pass_out_of_blocks [OF assms] by (auto simp: update_def)

lemma fresh_pass_need: "pass_need p new_pcache R n = ceil_div n (block_size p)"
  by (simp add: pass_need_def cow_needed_def new_pcache_def)

text \<open>A pool after a first write, for the concrete instances.\<close>

lemma first_write:
  assumes "0 < bs" and "0 < num_hidden_layers cf" and "length k \<le> nb * bs" and "length v = length k"
  shows "\<exists>p c. update 0 k v (new_pool z cf nb bs isz, new_pcache) = (Ret (k, v), (p, c)) \<and>
    pool_wf p (mset (block_table c)) \<and> cache_wf p c \<and> num_tokens c = length k \<and> block_size p = bs \<and>
    cfg p = cf \<and> num_free (alloc p) = nb - ceil_div (length k) bs"
proof -
  let ?p = "new_pool z cf nb bs isz"
  have wf: "pool_wf ?p (mset (block_table new_pcache) + {#})"
    using new_pool_wf [OF assms(1)] by (simp add: new_pcache_def)
  have f: "block_size ?p = bs" "cfg ?p = cf" "num_free (alloc ?p) = nb"
    by (simp_all add: new_pool_def Let_def num_free_def new_allocator_def)
  have fr: "pass_need ?p new_pcache {#} (length k) \<le> num_free (alloc ?p)"
    using assms(1,3) f by (simp add: fresh_pass_need ceil_div_le_iff)
  show ?thesis
    using update0_ok [OF wf new_pcache_wf fr refl assms(4)] assms(2) f
      fresh_pass_need [of ?p "{#}" "length k"]
    by (auto simp: pass_ready_def pool_frame_def k_rows_def v_rows_def new_pcache_def)
qed

text \<open>C27: running out of blocks in the middle of a sequence is reported and leaks nothing. The update
  raises \<^verbatim>\<open>OutOfBlocks\<close>, the sequence's length has not moved, and freeing the sequence afterwards
  returns every block it took, leaving exactly the other holders' references and their contents.\<close>

theorem paged_exhaustion_leaks_nothing:
  assumes "pool_wf p (mset (block_table c) + R)" and "cache_wf p c"
    and "num_free (alloc p) < pass_need p c R (length k)"
  shows "\<exists>p1 c1 p2 c2. update 0 k v (p, c) = (Raise OutOfBlocks, (p1, c1)) \<and>
    num_tokens c1 = num_tokens c \<and> free_cache (p1, c1) = (Ret (), (p2, c2)) \<and>
    pool_wf p2 R \<and> cache_wf p2 c2 \<and> same_blocks (\<lambda>b. b \<in># R) p p2"
proof -
  obtain p1 c1 where u: "update 0 k v (p, c) = (Raise OutOfBlocks, (p1, c1))"
    "pool_wf p1 (mset (block_table c1) + R)" "num_tokens c1 = num_tokens c"
    "same_blocks (\<lambda>b. b \<in># R) p p1" "pool_frame p p1"
    using update0_out_of_blocks [OF assms] by blast
  obtain a where f: "free_cache (p1, c1) =
      (Ret (), (p1\<lparr>alloc := a\<rparr>, c1\<lparr>block_table := [], num_tokens := 0, slots := []\<rparr>))"
    "pool_wf (p1\<lparr>alloc := a\<rparr>) R"
    using free_cache_ok [OF u(2)] by blast
  have "same_blocks (\<lambda>b. b \<in># R) p (p1\<lparr>alloc := a\<rparr>)"
    by (rule same_blocks_trans [OF u(4) _ u(5)]) simp
  with u(1,3) f show ?thesis
    by (auto simp: cache_wf_def table_wf_def)
qed

theorem paged_exhaustion_leaks_nothing_witness:
  "\<exists>p1 c1 p2 c2. update 0 [1, 2, 3] [4, 5, 6] (new_pool (0::nat) TINY 1 2 2, new_pcache) =
      (Raise OutOfBlocks, (p1, c1)) \<and>
    num_tokens c1 = 0 \<and> free_cache (p1, c1) = (Ret (), (p2, c2)) \<and>
    pool_wf p2 {#} \<and> cache_wf p2 c2 \<and>
    same_blocks (\<lambda>b. b \<in># {#}) (new_pool (0::nat) TINY 1 2 2) p2"
proof -
  have "ceil_div (Suc (Suc (Suc 0))) 2 = 2" by (rule ceil_div_unique) simp_all
  then have "num_free (alloc (new_pool (0::nat) TINY 1 2 2)) <
      pass_need (new_pool (0::nat) TINY 1 2 2) new_pcache {#} (length [1, 2, 3::nat])"
    by (simp add: fresh_pass_need new_pool_def Let_def num_free_def new_allocator_def)
  moreover have "pool_wf (new_pool (0::nat) TINY 1 2 2) (mset (block_table new_pcache) + {#})"
    using new_pool_wf [of 2] by (simp add: new_pcache_def)
  ultimately show ?thesis
    using paged_exhaustion_leaks_nothing [OF _ new_pcache_wf, of "new_pool (0::nat) TINY 1 2 2" "{#}"
        "[1, 2, 3]" "[4, 5, 6]"] by (simp add: new_pcache_def)
qed

text \<open>\<^verbatim>\<open>can_fit\<close> is exact. It answers yes precisely when writing that many tokens into a fresh sequence
  succeeds; when it answers no the write raises \<^verbatim>\<open>OutOfBlocks\<close>.\<close>

theorem can_fit_exact:
  assumes "pool_wf p R" and "0 < num_hidden_layers (cfg p)" and "length v = length k"
  shows "(can_fit p (length k) \<longrightarrow> (\<exists>st. update 0 k v (p, new_pcache) = (Ret (k, v), st))) \<and>
    (\<not> can_fit p (length k) \<longrightarrow> (\<exists>st. update 0 k v (p, new_pcache) = (Raise OutOfBlocks, st)))"
proof -
  have wf: "pool_wf p (mset (block_table new_pcache) + R)"
    using assms(1) by (simp add: new_pcache_def)
  have fit: "can_fit p (length k) \<longleftrightarrow> pass_need p new_pcache R (length k) \<le> num_free (alloc p)"
    by (simp add: can_fit_def fresh_pass_need)
  have nil: "k_rows p new_pcache m l = []" "v_rows p new_pcache m l = []" for m l
    by (simp_all add: k_rows_def v_rows_def new_pcache_def)
  show ?thesis
    using update0_ok [OF wf new_pcache_wf, of "length k" k v] assms(2,3)
      update0_out_of_blocks [OF wf new_pcache_wf, of k v] fit nil
    by (auto simp: not_le)
qed

theorem can_fit_exact_witness:
  "(\<exists>st. update 0 [7] [8] (new_pool (0::nat) TINY 1 2 2, new_pcache) = (Ret ([7], [8]), st)) \<and>
   (\<exists>st. update 0 [7] [8] (new_pool (0::nat) TINY 0 2 2, new_pcache) = (Raise OutOfBlocks, st))"
proof -
  have c: "ceil_div (Suc 0) 2 = 1" by (rule ceil_div_unique) simp_all
  have L: "0 < num_hidden_layers (cfg (new_pool (0::nat) TINY n 2 2))" for n
    by (simp add: new_pool_def Let_def TINY_def NANO_27M_def)
  show ?thesis
    using can_fit_exact [OF new_pool_wf [of 2] L, of "[8]" "[7]" 1]
      can_fit_exact [OF new_pool_wf [of 2] L, of "[8]" "[7]" 0]
    by (simp add: can_fit_def new_pool_def Let_def num_free_def new_allocator_def c)
qed

text \<open>C28: forking copies no memory, and the fork is accounted for. A fork takes no block and reads the
  parent's rows; freeing it restores the parent's reference counts and the number of free blocks.\<close>

theorem fork_shares_free_restores:
  assumes "pool_wf p (mset (block_table c) + R)" and "cache_wf p c"
  shows "\<exists>p1 d p2 d2. fork p c = (Ret d, p1) \<and> num_free (alloc p1) = num_free (alloc p) \<and>
    cache_wf p1 d \<and> (\<forall>n l. k_rows p1 d n l = k_rows p c n l \<and> v_rows p1 d n l = v_rows p c n l) \<and>
    free_cache (p1, d) = (Ret (), (p2, d2)) \<and> pool_wf p2 (mset (block_table c) + R) \<and>
    num_free (alloc p2) = num_free (alloc p)"
proof -
  obtain a d where f: "fork p c = (Ret d, p\<lparr>alloc := a\<rparr>)"
    "pool_wf (p\<lparr>alloc := a\<rparr>) (mset (block_table d) + (mset (block_table c) + R))"
    "cache_wf (p\<lparr>alloc := a\<rparr>) d" "block_table d = block_table c" "slots d = slots c"
    "num_free a = num_free (alloc p)"
    using fork_ok [OF assms] by blast
  have held: "set (block_table d) - set_mset (mset (block_table c) + R) = {}"
    using f(4) by auto
  obtain a2 where g: "free_cache (p\<lparr>alloc := a\<rparr>, d) =
      (Ret (), (p\<lparr>alloc := a2\<rparr>, d\<lparr>block_table := [], num_tokens := 0, slots := []\<rparr>))"
    "pool_wf (p\<lparr>alloc := a2\<rparr>) (mset (block_table c) + R)" "num_free a2 = num_free a"
    using free_cache_ok [OF f(2)] held by auto
  with f show ?thesis
    by (auto simp: k_rows_def v_rows_def)
qed

theorem fork_shares_free_restores_witness:
  "\<exists>p c p1 d p2 d2. update 0 [1, 2, 3] [4, 5, 6] (new_pool (0::nat) TINY 3 2 2, new_pcache) =
      (Ret ([1, 2, 3], [4, 5, 6]), (p, c)) \<and>
    fork p c = (Ret d, p1) \<and> num_free (alloc p1) = num_free (alloc p) \<and>
    k_rows p1 d 3 0 = k_rows p c 3 0 \<and>
    free_cache (p1, d) = (Ret (), (p2, d2)) \<and> num_free (alloc p2) = num_free (alloc p)"
proof -
  have "\<exists>p c. update 0 [1, 2, 3] [4, 5, 6] (new_pool (0::nat) TINY 3 2 2, new_pcache) =
      (Ret ([1, 2, 3], [4, 5, 6]), (p, c)) \<and>
      pool_wf p (mset (block_table c)) \<and> cache_wf p c \<and> num_tokens c = length [1, 2, 3::nat] \<and> block_size p = 2 \<and>
      cfg p = TINY \<and> num_free (alloc p) = 3 - ceil_div (length [1, 2, 3::nat]) 2"
    by (rule first_write) (simp_all add: TINY_def NANO_27M_def)
  then obtain p c where u: "update 0 [1, 2, 3] [4, 5, 6] (new_pool (0::nat) TINY 3 2 2, new_pcache) =
      (Ret ([1, 2, 3], [4, 5, 6]), (p, c))" "pool_wf p (mset (block_table c))" "cache_wf p c"
    by blast
  then show ?thesis
    using fork_shares_free_restores [of p c "{#}"] by fastforce
qed

lemma alloc_ok_num_allocated:
  "alloc_ok a M \<Longrightarrow> num_allocated a = card (set_mset M)"
  using ba.accounting [of a M] by (simp add: num_allocated_def num_free_def)

lemma sum_blocks_bound:
  assumes "0 < bs"
  shows "sum_list (map (\<lambda>n. ceil_div n bs) ns) * bs \<le> sum_list ns + length ns * (bs - 1)"
proof (induction ns)
  case Nil
  then show ?case by simp
next
  case (Cons n ns)
  have "ceil_div n bs * bs \<le> n + (bs - 1)"
    using ceil_div_bounds(2) [OF assms, of n] by linarith
  with Cons show ?case by (simp add: add_mult_distrib)
qed

text \<open>C29: paging bounds internal fragmentation. With sequences that share no block, the pool wastes at most
  \<open>block_size - 1\<close> token slots per sequence, whatever their lengths.\<close>

theorem paged_fragmentation_bound:
  assumes "pool_wf p (mset (concat (map block_table cs)))" and "\<forall>c \<in> set cs. cache_wf p c"
    and "distinct (concat (map block_table cs))"
  shows "internal_fragmentation (pool_stats p (sum_list (map num_tokens cs))) \<le>
    int (length cs * (block_size p - 1))"
proof -
  let ?bt = "concat (map block_table cs)"
  have "num_allocated (alloc p) = length ?bt"
    using alloc_ok_num_allocated [OF pool_wf_allocD [OF assms(1)]] distinct_card [OF assms(3)] by simp
  also have "length ?bt = sum_list (map (\<lambda>n. ceil_div n (block_size p)) (map num_tokens cs))"
    using assms(2) by (induction cs) (simp_all add: cache_wf_def)
  finally show ?thesis
    using sum_blocks_bound [OF pool_wf_bs [OF assms(1)], of "map num_tokens cs"]
    unfolding internal_fragmentation_def pool_stats_def bst_tokens_allocated_def
    by (simp flip: of_nat_mult of_nat_add add: le_diff_eq)
qed

theorem paged_fragmentation_bound_witness:
  "\<exists>p c. update 0 [1, 2, 3, 4, 5] [6, 7, 8, 9, 10] (new_pool (0::nat) TINY 3 4 2, new_pcache) =
      (Ret ([1, 2, 3, 4, 5], [6, 7, 8, 9, 10]), (p, c)) \<and>
    internal_fragmentation (pool_stats p (sum_list (map num_tokens [c]))) \<le> int (length [c] * (block_size p - 1))"
proof -
  have "\<exists>p c. update 0 [1, 2, 3, 4, 5] [6, 7, 8, 9, 10] (new_pool (0::nat) TINY 3 4 2, new_pcache) =
      (Ret ([1, 2, 3, 4, 5], [6, 7, 8, 9, 10]), (p, c)) \<and>
      pool_wf p (mset (block_table c)) \<and> cache_wf p c \<and> num_tokens c = length [1, 2, 3, 4, 5::nat] \<and> block_size p = 4 \<and>
      cfg p = TINY \<and> num_free (alloc p) = 3 - ceil_div (length [1, 2, 3, 4, 5::nat]) 4"
    by (rule first_write) (simp_all add: TINY_def NANO_27M_def)
  then obtain p c where u: "update 0 [1, 2, 3, 4, 5] [6, 7, 8, 9, 10] (new_pool (0::nat) TINY 3 4 2, new_pcache) =
      (Ret ([1, 2, 3, 4, 5], [6, 7, 8, 9, 10]), (p, c))" "pool_wf p (mset (block_table c))" "cache_wf p c"
    by blast
  moreover have "distinct (block_table c)" using u(3) by (simp add: cache_wf_def table_wf_def)
  ultimately show ?thesis
    using paged_fragmentation_bound [of p "[c]"] by auto
qed

text \<open>\<^verbatim>\<open>blocks_for_budget\<close> is the largest pool that fits. Whenever it returns, a pool of that many blocks
  stays within a non-negative byte budget and one more block would exceed it.\<close>

theorem blocks_for_budget_optimal:
  assumes "blocks_for_budget cf budget bs isz = Ret n" and "0 \<le> budget"
  shows "int (total_bytes (new_pool z cf (nat n) bs isz)) \<le> budget \<and>
    budget < int (total_bytes (new_pool z cf (nat n + 1) bs isz))"
proof -
  define w where "w = int (2 * num_key_value_heads cf * head_dim cf * num_hidden_layers cf * isz * bs)"
  have w: "0 < w" and n: "n = budget div w"
    using assms by (auto simp: blocks_for_budget_def Let_def w_def pos_imp_zdiv_nonneg_iff split: if_splits)
  have tb: "int (total_bytes (new_pool z cf m bs isz)) = int m * w" for m
    by (simp add: total_bytes_def bytes_per_token_def new_pool_def Let_def new_allocator_def w_def)
  have n0: "0 \<le> n" using w n assms(2) by (simp add: pos_imp_zdiv_nonneg_iff)
  have "budget = n * w + budget mod w"
    unfolding n by (rule div_mult_mod_eq [symmetric])
  then have "n * w \<le> budget" "budget < (n + 1) * w"
    using pos_mod_sign [OF w, of budget] pos_mod_bound [OF w, of budget]
    by (simp_all add: distrib_right)
  then show ?thesis
    using n0 by (simp add: tb add.commute)
qed

theorem blocks_for_budget_optimal_witness:
  "blocks_for_budget TINY 10000 16 2 = Ret 2 \<and>
   int (total_bytes (new_pool (0::nat) TINY 2 16 2)) \<le> 10000"
proof -
  have "blocks_for_budget TINY 10000 16 2 = Ret 2"
    by (simp add: blocks_for_budget_def Let_def head_dim_def TINY_def NANO_27M_def)
  then show ?thesis
    using blocks_for_budget_optimal [of TINY 10000 16 2 2 "0::nat"] by simp
qed

end
