(* ===== verification/KV_Protocol.thy ===== *)
theory KV_Protocol
  imports Transformer Paged_Cache
begin

text \<open>
  The protocol \<^verbatim>\<open>KVCache\<close> of \<^verbatim>\<open>model/transformer.py\<close> as an interface. The abstract cache is a history:
  per layer, the keys and values stored so far (\<open>hist_update\<close> appends and returns them). The locale
  \<open>kv_protocol\<close> states what an implementation owes the model: during a pass it is asked for layer 0, then
  1, and so on, and each answer is the history with the new rows appended. Inside it, one theorem is
  proved once: the decoder cannot tell an implementation from the history, over any sequence of passes.
  The growing cache and the paged cache are interpretations, hence give the same logits.
\<close>

type_synonym hist = "(kv_row list \<times> kv_row list) list"

definition hist_update :: "hist kv_update" where
  "hist_update l k v h =
     (let K = fst (h ! l) @ k ! 0; V = snd (h ! l) @ v ! 0 in (Ret ([K], [V]), h[l := (K, V)]))"

definition hist_len :: "hist \<Rightarrow> nat" where
  "hist_len h = length (fst (h ! 0))"

text \<open>A cache for one sequence takes the only entry of the batch and returns a batch of one.\<close>

definition solo ::
  "(nat \<Rightarrow> kv_row list \<Rightarrow> kv_row list \<Rightarrow> 's \<Rightarrow> (kv_row list \<times> kv_row list) outcome \<times> 's) \<Rightarrow> 's kv_update" where
  "solo f l k v s = bindS (f l (k ! 0) (v ! 0) s) (\<lambda>(K, V) s. (Ret ([K], [V]), s))"

text \<open>A run: the passes of a generation, prompt first, each a list of token ids at the positions that
  follow what is cached. It stops at the first exception.\<close>

fun run_passes ::
  "model_w \<Rightarrow> 's kv_update \<times> ('s \<Rightarrow> nat) \<Rightarrow> nat list list \<Rightarrow> rope \<times> 's \<Rightarrow> hidden list outcome \<times> (rope \<times> 's)" where
  "run_passes M cache [] st = (Ret [], st)"
| "run_passes M cache (ids # rest) st =
     bindS (nano_causal_lm M [ids] None (Some cache) None st)
       (\<lambda>out st. bindS (run_passes M cache rest st) (\<lambda>outs st. (Ret (out # outs), st)))"

definition empty_hist :: "nat \<Rightarrow> hist" where
  "empty_hist L = replicate L ([], [])"

text \<open>The representation relations of the two caches: between passes, and in the middle of a pass over
  \<open>n\<close> tokens with the first \<open>l\<close> layers written.\<close>

definition dyn_ready :: "dyn_cache \<Rightarrow> hist \<Rightarrow> bool" where
  "dyn_ready c h \<longleftrightarrow>
     (dkeys c = [] \<and> dvalues c = [] \<and> (\<forall>e \<in> set h. e = ([], []))) \<or>
     (dkeys c = map (\<lambda>e. Some [fst e]) h \<and> dvalues c = map (\<lambda>e. Some [snd e]) h)"

definition dyn_mid :: "nat \<Rightarrow> nat \<Rightarrow> dyn_cache \<Rightarrow> hist \<Rightarrow> bool" where
  "dyn_mid n l c h \<longleftrightarrow> l \<le> length h \<and>
     ((dkeys c = map (\<lambda>e. Some [fst e]) (take l h) \<and> dvalues c = map (\<lambda>e. Some [snd e]) (take l h) \<and>
       (\<forall>e \<in> set (drop l h). e = ([], []))) \<or>
      (dkeys c = map (\<lambda>e. Some [fst e]) h \<and> dvalues c = map (\<lambda>e. Some [snd e]) h))"

type_synonym kv_pstate = "kv_row pool \<times> pcache"

definition paged_len :: "kv_pstate \<Rightarrow> nat" where
  "paged_len st = num_tokens (snd st)"

definition paged_ready :: "nat multiset \<Rightarrow> kv_pstate \<Rightarrow> hist \<Rightarrow> bool" where
  "paged_ready R st h \<longleftrightarrow>
     (case st of (p, c) \<Rightarrow> pool_wf p (mset (block_table c) + R) \<and> cache_wf p c \<and>
        h = map (\<lambda>l. (k_rows p c (num_tokens c) l, v_rows p c (num_tokens c) l)) [0..<num_hidden_layers (cfg p)])"

definition paged_mid :: "nat multiset \<Rightarrow> nat \<Rightarrow> nat \<Rightarrow> kv_pstate \<Rightarrow> hist \<Rightarrow> bool" where
  "paged_mid R n l st h \<longleftrightarrow>
     (case st of (p, c) \<Rightarrow> pass_ready p c R n \<and>
        h = map (\<lambda>j. let m = (if j < l then num_tokens c else start_pos c) in (k_rows p c m j, v_rows p c m j))
              [0..<num_hidden_layers (cfg p)])"

definition paged_fits :: "nat multiset \<Rightarrow> kv_pstate \<Rightarrow> nat \<Rightarrow> bool" where
  "paged_fits R st n \<longleftrightarrow> (case st of (p, c) \<Rightarrow> pass_need p c R n \<le> num_free (alloc p) \<and>
     length (block_table c) = ceil_div (num_tokens c) (block_size p) \<and> 0 < block_size p)"

definition paged_frame :: "nat multiset \<Rightarrow> kv_pstate \<Rightarrow> kv_pstate \<Rightarrow> bool" where
  "paged_frame R st st' \<longleftrightarrow>
     same_blocks (\<lambda>b. b \<in># R) (fst st) (fst st') \<and> pool_frame (fst st) (fst st')"

text \<open>A small concrete model for the concrete instances: two layers of identity maps and an attention
  that adds up the values it sees.\<close>

definition demo_layer :: layer_w where
  "demo_layer = \<lparr>q_proj = id, k_proj = id, v_proj = id, o_proj = id, gate_proj = id, up_proj = id,
     down_proj = id, input_layernorm = [1], post_attention_layernorm = [1]\<rparr>"

definition demo_att :: "real \<Rightarrow> vec \<Rightarrow> (vec \<times> vec) list \<Rightarrow> vec" where
  "demo_att scale q kv = foldr (\<lambda>(k, v) acc. vadd v acc) kv q"

definition demo_model :: model_w where
  "demo_model = \<lparr>mcfg = TINY, embed_tokens = (\<lambda>t. [real t]), mlayers = [demo_layer, demo_layer], norm_w = [1],
     lm_head_w = id, rsqrt = id, silu = id,
     sdpa = (\<lambda>q k v m caus scale. map (\<lambda>i. demo_att scale (q ! i) (visible m caus i (zip k v))) [0..<length q])\<rparr>"

text \<open>One layer on one sequence, split at its only effect: the rows it hands to the cache, and its
  output as a function of what the cache returns.\<close>

definition rot_rows :: "vec list \<Rightarrow> vec list \<Rightarrow> kv_row list \<Rightarrow> kv_row list" where
  "rot_rows cs sn rows = map (\<lambda>(heads, (c, s)). map (\<lambda>x. rotate x c s) heads) (zip rows (zip cs sn))"

definition pre_norm :: "model_w \<Rightarrow> layer_w \<Rightarrow> vec list \<Rightarrow> vec list" where
  "pre_norm M lw x = map (rms_norm (rsqrt M) (rms_norm_eps (mcfg M)) (input_layernorm lw)) x"

definition layer_q :: "model_w \<Rightarrow> layer_w \<Rightarrow> vec list \<Rightarrow> vec list \<Rightarrow> vec list \<Rightarrow> kv_row list" where
  "layer_q M lw x cs sn = rot_rows cs sn
     (map (\<lambda>r. split_heads (num_attention_heads (mcfg M)) (head_dim (mcfg M)) (q_proj lw r)) (pre_norm M lw x))"

definition layer_k :: "model_w \<Rightarrow> layer_w \<Rightarrow> vec list \<Rightarrow> vec list \<Rightarrow> vec list \<Rightarrow> kv_row list" where
  "layer_k M lw x cs sn = rot_rows cs sn
     (map (\<lambda>r. split_heads (num_key_value_heads (mcfg M)) (head_dim (mcfg M)) (k_proj lw r)) (pre_norm M lw x))"

definition layer_v :: "model_w \<Rightarrow> layer_w \<Rightarrow> vec list \<Rightarrow> kv_row list" where
  "layer_v M lw x =
     map (\<lambda>r. split_heads (num_key_value_heads (mcfg M)) (head_dim (mcfg M)) (v_proj lw r)) (pre_norm M lw x)"

definition layer_mlp :: "model_w \<Rightarrow> layer_w \<Rightarrow> vec \<Rightarrow> vec" where
  "layer_mlp M lw r = vadd r
     (swiglu M lw (rms_norm (rsqrt M) (rms_norm_eps (mcfg M)) (post_attention_layernorm lw) r))"

definition layer_out ::
  "model_w \<Rightarrow> layer_w \<Rightarrow> vec list \<Rightarrow> vec list \<Rightarrow> vec list \<Rightarrow> mask option \<Rightarrow> kv_tensor \<times> kv_tensor \<Rightarrow> vec list" where
  "layer_out M lw x cs sn m KV =
     map (layer_mlp M lw) (map2 vadd x (attend M lw [layer_q M lw x cs sn] (fst KV) (snd KV) m ! 0))"

section \<open>Shapes of one layer\<close>

lemma length_rot_rows [simp]:
  "length cs = length rows \<Longrightarrow> length sn = length rows \<Longrightarrow> length (rot_rows cs sn rows) = length rows"
  by (simp add: rot_rows_def)

lemma length_sdpa_heads [simp]: "length (sdpa_heads M nh q k v m caus scale) = length q"
  by (simp add: sdpa_heads_def Let_def)

lemma attend_single:
  "\<exists>a. attend M lw [q] k v m = [a] \<and> length a = length q"
  by (simp add: attend_def Let_def split_beta)

lemma length_layer [simp]:
  assumes "length cs = length x" and "length sn = length x"
  shows "length (layer_q M lw x cs sn) = length x" "length (layer_k M lw x cs sn) = length x"
    "length (layer_v M lw x) = length x" "length (layer_out M lw x cs sn m KV) = length x"
proof -
  show q: "length (layer_q M lw x cs sn) = length x" and "length (layer_k M lw x cs sn) = length x"
    and "length (layer_v M lw x) = length x"
    using assms by (simp_all add: layer_q_def layer_k_def layer_v_def pre_norm_def)
  show "length (layer_out M lw x cs sn m KV) = length x"
    using attend_single [of M lw "layer_q M lw x cs sn" "fst KV" "snd KV" m] q
    by (auto simp: layer_out_def)
qed

lemma map2_map_self: "map2 f xs (map g xs) = map (\<lambda>x. f x (g x)) xs"
  by (induction xs) simp_all

lemma decoder_layer_single:
  "decoder_layer M lw l [x] [cs] [sn] (Some upd) m s =
     bindS (upd l [layer_k M lw x cs sn] [layer_v M lw x] s)
       (\<lambda>KV s. (Ret [layer_out M lw x cs sn m KV], s))"
proof -
  obtain r t where u: "upd l [layer_k M lw x cs sn] [layer_v M lw x] s = (r, t)"
    by (cases "upd l [layer_k M lw x cs sn] [layer_v M lw x] s")
  have "attention M lw l [pre_norm M lw x] [cs] [sn] (Some upd) m s =
    bindS (r, t) (\<lambda>KV s. (Ret (attend M lw [layer_q M lw x cs sn] (fst KV) (snd KV) m), s))"
    using u by (simp add: attention_def Let_def apply_rotary_def layer_q_def layer_k_def layer_v_def
        rot_rows_def case_prod_unfold)
  note att = this
  show ?thesis
  proof (cases r)
    case (Ret KV)
    obtain a where "attend M lw [layer_q M lw x cs sn] (fst KV) (snd KV) m = [a]"
      using attend_single by blast
    then show ?thesis
      using u att Ret by (simp add: decoder_layer_def Let_def pre_norm_def hadd_def layer_out_def
          layer_mlp_def [abs_def] map2_map_self)
  qed (use u att in \<open>simp add: decoder_layer_def Let_def pre_norm_def\<close>)
qed

section \<open>The interface\<close>

locale kv_protocol =
  fixes upd :: "'s kv_update"
    and len :: "'s \<Rightarrow> nat"
    and ready :: "'s \<Rightarrow> hist \<Rightarrow> bool"
    and mid :: "nat \<Rightarrow> nat \<Rightarrow> 's \<Rightarrow> hist \<Rightarrow> bool"
    and fits :: "'s \<Rightarrow> nat \<Rightarrow> bool"
    and frame :: "'s \<Rightarrow> 's \<Rightarrow> bool"
  assumes first: "ready s h \<Longrightarrow> fits s n \<Longrightarrow> h \<noteq> [] \<Longrightarrow> length k = n \<Longrightarrow> length v = n \<Longrightarrow>
      \<exists>s'. upd 0 [k] [v] s = (Ret ([fst (h ! 0) @ k], [snd (h ! 0) @ v]), s') \<and>
        mid n 1 s' (h[0 := (fst (h ! 0) @ k, snd (h ! 0) @ v)]) \<and> frame s s' \<and>
        (\<forall>m. fits s (n + m) \<longrightarrow> fits s' m)"
    and following: "mid n l s h \<Longrightarrow> 0 < l \<Longrightarrow> l < length h \<Longrightarrow> length k = n \<Longrightarrow> length v = n \<Longrightarrow>
      \<exists>s'. upd l [k] [v] s = (Ret ([fst (h ! l) @ k], [snd (h ! l) @ v]), s') \<and>
        mid n (Suc l) s' (h[l := (fst (h ! l) @ k, snd (h ! l) @ v)]) \<and> frame s s' \<and>
        (\<forall>m. fits s m \<longrightarrow> fits s' m)"
    and complete: "mid n (length h) s h \<Longrightarrow> ready s h"
    and length_law: "ready s h \<Longrightarrow> h \<noteq> [] \<Longrightarrow> len s = hist_len h"
    and frame_refl: "frame s s"
    and frame_trans: "frame s t \<Longrightarrow> frame t u \<Longrightarrow> frame s u"
    and fits_less: "fits s (n + m) \<Longrightarrow> fits s n"
begin

lemma layer_step:
  assumes len: "length cs = length x" "length sn = length x" "length x = n" and i: "i < length h"
    and st: "if i = 0 then ready s h \<and> fits s n else mid n i s h"
  shows "\<exists>y s' h'. decoder_layer M lw i [x] [cs] [sn] (Some upd) m s = (Ret [y], s') \<and>
    decoder_layer M lw i [x] [cs] [sn] (Some hist_update) m h = (Ret [y], h') \<and>
    length y = n \<and> length h' = length h \<and> mid n (Suc i) s' h' \<and> frame s s' \<and>
    (\<forall>j. (if i = 0 then fits s (n + j) else fits s j) \<longrightarrow> fits s' j)"
proof -
  let ?k = "layer_k M lw x cs sn" and ?v = "layer_v M lw x"
  have kv: "length ?k = n" "length ?v = n" using len by simp_all
  have "\<exists>s'. upd i [?k] [?v] s = (Ret ([fst (h ! i) @ ?k], [snd (h ! i) @ ?v]), s') \<and>
      mid n (Suc i) s' (h[i := (fst (h ! i) @ ?k, snd (h ! i) @ ?v)]) \<and> frame s s' \<and>
      (\<forall>j. (if i = 0 then fits s (n + j) else fits s j) \<longrightarrow> fits s' j)"
    using first [of s h n ?k ?v] following [of n i s h ?k ?v] kv i st by (cases "i = 0") auto
  then show ?thesis
    using len by (auto simp: decoder_layer_single hist_update_def Let_def)
qed

lemma layers_sim:
  assumes "length cs = n" "length sn = n" "length x = n" and "i + length lws = length h"
    and "if i = 0 then ready s h \<and> fits s n else mid n i s h"
  shows "\<exists>y s' h'. run_layers M lws i [x] [cs] [sn] (Some upd) m s = (Ret [y], s') \<and>
    run_layers M lws i [x] [cs] [sn] (Some hist_update) m h = (Ret [y], h') \<and>
    length y = n \<and> length h' = length h \<and> frame s s' \<and>
    (if length h = 0 then ready s' h' else mid n (length h) s' h') \<and>
    (\<forall>j. (if i = 0 then fits s (n + j) else fits s j) \<longrightarrow> (if length h = 0 then fits s (n + j) else fits s' j))"
  using assms
proof (induction lws arbitrary: i x s h)
  case Nil
  then show ?case by (auto simp: frame_refl)
next
  case (Cons lw lws)
  have i: "i < length h" using Cons.prems(4) by simp
  obtain y s1 h1 where y: "decoder_layer M lw i [x] [cs] [sn] (Some upd) m s = (Ret [y], s1)"
    "decoder_layer M lw i [x] [cs] [sn] (Some hist_update) m h = (Ret [y], h1)"
    "length y = n" "length h1 = length h" "mid n (Suc i) s1 h1" "frame s s1"
    "\<forall>j. (if i = 0 then fits s (n + j) else fits s j) \<longrightarrow> fits s1 j"
    using layer_step [of cs x sn n i h s M lw m] i Cons.prems by auto
  have "\<exists>z s' h'. run_layers M lws (Suc i) [y] [cs] [sn] (Some upd) m s1 = (Ret [z], s') \<and>
    run_layers M lws (Suc i) [y] [cs] [sn] (Some hist_update) m h1 = (Ret [z], h') \<and>
    length z = n \<and> length h' = length h1 \<and> frame s1 s' \<and>
    (if length h1 = 0 then ready s' h' else mid n (length h1) s' h') \<and>
    (\<forall>j. (if Suc i = 0 then fits s1 (n + j) else fits s1 j) \<longrightarrow>
      (if length h1 = 0 then fits s1 (n + j) else fits s' j))"
    by (rule Cons.IH) (use Cons.prems y in auto)
  then obtain z s2 h2 where "run_layers M lws (Suc i) [y] [cs] [sn] (Some upd) m s1 = (Ret [z], s2)"
    "run_layers M lws (Suc i) [y] [cs] [sn] (Some hist_update) m h1 = (Ret [z], h2)"
    "length z = n" "length h2 = length h1" "frame s1 s2" "mid n (length h1) s2 h2"
    "\<forall>j. fits s1 j \<longrightarrow> fits s2 j"
    using y(4) i by (cases "h = []") auto
  then show ?case
    using y i frame_trans [of s s1 s2] by (intro exI [of _ z] exI [of _ s2] exI [of _ h2]) auto
qed

lemma pass_sim:
  assumes "ready s h" and "fits s (length ids)" and "h \<noteq> []" and "length h = length (mlayers M)"
  shows "\<exists>out r' s' h'. nano_causal_lm M [ids] None (Some (upd, len)) m (r, s) = (out, (r', s')) \<and>
    nano_causal_lm M [ids] None (Some (hist_update, hist_len)) m (r, h) = (out, (r', h')) \<and>
    ready s' h' \<and> length h' = length h \<and> frame s s' \<and>
    (\<forall>j. fits s (length ids + j) \<longrightarrow> fits s' j \<or> \<not> is_ret out)"
proof -
  let ?past = "hist_len h" and ?n = "length ids"
  let ?r = "rope_ensure_capacity (?past + ?n) r" and ?pos = "[[?past..<?past + ?n]]"
  have past: "len s = ?past" using assms by (simp add: length_law)
  consider (emb) e where "embed M [ids] = Raise e"
    | (rope) x e where "embed M [ids] = Ret x" "rope_lookup ?r ?pos = Raise e"
    | (go) x cs sn where "embed M [ids] = Ret x" "rope_lookup ?r ?pos = Ret (cs, sn)"
    by (metis outcome.exhaust surj_pair)
  then show ?thesis
  proof cases
    case go
    have x: "x = [map (embed_tokens M) ids]" using go(1) by (auto simp: embed_def split: if_splits)
    obtain c1 s1 where cs: "cs = [c1]" "sn = [s1]" "length c1 = ?n" "length s1 = ?n"
      using go(2) by (auto simp: rope_lookup_def split: if_splits)
    have "\<exists>y s' h'. run_layers M (mlayers M) 0 [map (embed_tokens M) ids] [c1] [s1] (Some upd) m s = (Ret [y], s') \<and>
      run_layers M (mlayers M) 0 [map (embed_tokens M) ids] [c1] [s1] (Some hist_update) m h = (Ret [y], h') \<and>
      length y = ?n \<and> length h' = length h \<and> frame s s' \<and>
      (if length h = 0 then ready s' h' else mid ?n (length h) s' h') \<and>
      (\<forall>j. (if (0::nat) = 0 then fits s (?n + j) else fits s j) \<longrightarrow>
        (if length h = 0 then fits s (?n + j) else fits s' j))"
      by (rule layers_sim) (use assms cs in auto)
    then obtain y s2 h2 where
      "run_layers M (mlayers M) 0 [map (embed_tokens M) ids] [c1] [s1] (Some upd) m s = (Ret [y], s2)"
      "run_layers M (mlayers M) 0 [map (embed_tokens M) ids] [c1] [s1] (Some hist_update) m h = (Ret [y], h2)"
      "length h2 = length h" "frame s s2" "mid ?n (length h2) s2 h2" "\<forall>j. fits s (?n + j) \<longrightarrow> fits s2 j"
      using assms(3) by auto
    then show ?thesis
      using go x cs past complete [of ?n h2 s2]
      by (simp add: nano_causal_lm_def nano_model_def Let_def time_dim_def)
  qed (use assms past in \<open>simp_all add: nano_causal_lm_def nano_model_def Let_def time_dim_def frame_refl\<close>)
qed

lemma passes_sim:
  assumes "ready s h" and "fits s (sum_list (map length chunks))" and "h \<noteq> []" and "length h = length (mlayers M)"
  shows "\<exists>out r' s' h'. run_passes M (upd, len) chunks (r, s) = (out, (r', s')) \<and>
    run_passes M (hist_update, hist_len) chunks (r, h) = (out, (r', h')) \<and>
    ready s' h' \<and> length h' = length h \<and> frame s s'"
  using assms
proof (induction chunks arbitrary: r s h)
  case Nil
  then show ?case by (auto simp: frame_refl)
next
  case (Cons ids rest)
  have f: "fits s (length ids + sum_list (map length rest))" using Cons.prems(2) by simp
  obtain out r1 s1 h1 where p: "nano_causal_lm M [ids] None (Some (upd, len)) None (r, s) = (out, (r1, s1))"
    "nano_causal_lm M [ids] None (Some (hist_update, hist_len)) None (r, h) = (out, (r1, h1))"
    "ready s1 h1" "length h1 = length h" "frame s s1"
    "\<forall>j. fits s (length ids + j) \<longrightarrow> fits s1 j \<or> \<not> is_ret out"
    using pass_sim [OF Cons.prems(1) fits_less [OF f] Cons.prems(3,4), of None r] by blast
  show ?case
  proof (cases out)
    case (Raise e)
    then show ?thesis using p by simp
  next
    case (Ret a)
    have "fits s1 (sum_list (map length rest))" using p(6) f Ret by auto
    moreover have "h1 \<noteq> []" using p(4) Cons.prems(3) by auto
    ultimately obtain o2 r2 s2 h2 where q: "run_passes M (upd, len) rest (r1, s1) = (o2, (r2, s2))"
      "run_passes M (hist_update, hist_len) rest (r1, h1) = (o2, (r2, h2))"
      "ready s2 h2" "length h2 = length h1" "frame s1 s2"
      using Cons.IH [of s1 h1 r1] p(3,4) Cons.prems(4) by auto
    then show ?thesis
      using p Ret frame_trans [OF p(5) q(5)] by (cases o2) simp_all
  qed
qed

end

section \<open>The growing cache meets it\<close>

lemma map_take_update:
  "l < length h \<Longrightarrow> map f (take (Suc l) (h[l := e])) = map f (take l h) @ [f e]"
  by (simp add: take_Suc_conv_app_nth)

lemma nth_in_drop: "l < length h \<Longrightarrow> h ! l \<in> set (drop l h)"
  by (metis Cons_nth_drop_Suc list.set_intros(1))

lemma set_drop_update: "set (drop (Suc l) (h[l := e])) \<subseteq> set (drop l h)"
  by (metis drop_update_cancel lessI set_drop_subset_set_drop Suc_n_not_le_n le_refl nat_le_linear)

lemma dyn_append_layer:
  assumes "dyn_mid n l c h" and "l < length h"
  shows "\<exists>c'. dyn_update l [k] [v] c = (Ret ([fst (h ! l) @ k], [snd (h ! l) @ v]), c') \<and>
    dyn_mid n (Suc l) c' (h[l := (fst (h ! l) @ k, snd (h ! l) @ v)])"
proof (cases "dkeys c = map (\<lambda>e. Some [fst e]) h")
  case True
  then have "length (dkeys c) \<noteq> length (map (\<lambda>e. Some [fst e]) (take l h))"
    using assms(2) by simp
  then have v: "dvalues c = map (\<lambda>e. Some [snd e]) h"
    using assms(1) unfolding dyn_mid_def by metis
  show ?thesis
    using True v assms(2)
    by (simp add: dyn_update_def dyn_pad_def Let_def cat_time_def dyn_mid_def map_update)
next
  case False
  then have k: "dkeys c = map (\<lambda>e. Some [fst e]) (take l h)" and v: "dvalues c = map (\<lambda>e. Some [snd e]) (take l h)"
    and e: "\<forall>e \<in> set (drop l h). e = ([], [])"
    using assms by (auto simp: dyn_mid_def)
  have "h ! l = ([], [])" using e nth_in_drop [OF assms(2)] by blast
  then show ?thesis
    using k v e assms(2) set_drop_update [of l h]
    by (auto simp: dyn_update_def dyn_pad_def Let_def dyn_mid_def map_take_update nth_append list_update_append)
qed

interpretation dynk: kv_protocol dyn_update dyn_len dyn_ready dyn_mid "\<lambda>_ _. True" "\<lambda>_ _. True"
proof
  fix s h n and k v :: "kv_row list"
  assume "dyn_ready s h" "h \<noteq> []" "length k = n" "length v = n"
  then have "dyn_mid n 0 s h" by (auto simp: dyn_ready_def dyn_mid_def)
  from dyn_append_layer [OF this, of k v] \<open>h \<noteq> []\<close>
  show "\<exists>s'. dyn_update 0 [k] [v] s = (Ret ([fst (h ! 0) @ k], [snd (h ! 0) @ v]), s') \<and>
      dyn_mid n 1 s' (h[0 := (fst (h ! 0) @ k, snd (h ! 0) @ v)]) \<and> True \<and> (\<forall>m. True \<longrightarrow> True)"
    by simp
next
  fix n l s h and k v :: "kv_row list"
  assume "dyn_mid n l s h" "l < length h"
  from dyn_append_layer [OF this, of k v]
  show "\<exists>s'. dyn_update l [k] [v] s = (Ret ([fst (h ! l) @ k], [snd (h ! l) @ v]), s') \<and>
      dyn_mid n (Suc l) s' (h[l := (fst (h ! l) @ k, snd (h ! l) @ v)]) \<and> True \<and> (\<forall>m. True \<longrightarrow> True)"
    by simp
next
  fix s and h :: hist
  assume "dyn_ready s h" "h \<noteq> []"
  then show "dyn_len s = hist_len h"
    by (cases h) (auto simp: dyn_ready_def dyn_len_def hist_len_def time_dim_def)
qed (auto simp: dyn_mid_def dyn_ready_def)

section \<open>The paged cache meets it\<close>

lemma pass_ready_no_cow:
  assumes "pass_ready p c R n"
  shows "\<not> cow_needed p c R"
proof
  assume cow: "cow_needed p c R"
  have wf: "pool_wf p (mset (block_table c) + R)" and cw: "cache_wf p c" and w: "writable p c R"
    and nt: "num_tokens c = start_pos c + n"
    using assms by (simp_all add: pass_ready_def)
  note bs = pool_wf_bs [OF wf]
  have sl: "slots c = table_slots (block_size p) (block_table c)"
    and len: "length (block_table c) = ceil_div (num_tokens c) (block_size p)"
    using cw by (simp_all add: cache_wf_def table_wf_def)
  have "num_tokens c \<noteq> ceil_div (num_tokens c) (block_size p) * block_size p"
    using cow by (metis cow_needed_def mod_mult_self2_is_0)
  then have lt: "num_tokens c < length (slots c)"
    using ceil_div_bounds(1) [OF bs, of "num_tokens c"] sl len by simp
  then have in_d: "slots c ! num_tokens c \<in> set (drop (num_tokens c) (slots c))"
    by (metis Cons_nth_drop_Suc list.set_intros(1))
  then have "slots c ! num_tokens c \<in> set (drop (start_pos c) (slots c))"
    using nt by (metis drop_drop add.commute in_set_dropD)
  moreover have "slots c ! num_tokens c div block_size p = last (block_table c)"
    using drop_slots_private [OF bs len] in_d sl by auto
  ultimately show False
    using w cow by (auto simp: writable_def cow_needed_def)
qed

lemma paged_fits_after:
  assumes "paged_fits R (p, c) (n + m)" and "pass_ready p' c' R n" and "num_tokens c' = num_tokens c + n"
    and "pool_frame p p'" and "num_free (alloc p') = num_free (alloc p) - pass_need p c R n"
  shows "paged_fits R (p', c') m"
proof -
  have bs: "0 < block_size p" "block_size p' = block_size p"
    using assms(1,4) by (simp_all add: paged_fits_def pool_frame_def)
  have len: "length (block_table c') = ceil_div (num_tokens c') (block_size p)"
    using assms(2) bs by (simp add: pass_ready_def cache_wf_def)
  have "ceil_div (num_tokens c) (block_size p) \<le> ceil_div (num_tokens c + n) (block_size p)"
    "ceil_div (num_tokens c + n) (block_size p) \<le> ceil_div (num_tokens c + (n + m)) (block_size p)"
    using bs(1) by (simp_all add: ceil_div_mono)
  then show ?thesis
    using assms(1,3,5) len bs pass_ready_no_cow [OF assms(2)]
    by (cases "cow_needed p c R") (auto simp: paged_fits_def pass_need_def add.assoc)
qed

lemma paged_first:
  assumes rd: "paged_ready R (p, c) h" and ft: "paged_fits R (p, c) n" and h: "h \<noteq> []"
    and len: "length k = n" "length v = n"
  shows "\<exists>s'. solo update 0 [k] [v] (p, c) = (Ret ([fst (h ! 0) @ k], [snd (h ! 0) @ v]), s') \<and>
    paged_mid R n 1 s' (h[0 := (fst (h ! 0) @ k, snd (h ! 0) @ v)]) \<and> paged_frame R (p, c) s' \<and>
    (\<forall>m. paged_fits R (p, c) (n + m) \<longrightarrow> paged_fits R s' m)"
proof -
  let ?L = "num_hidden_layers (cfg p)" and ?n0 = "num_tokens c"
  have wf: "pool_wf p (mset (block_table c) + R)" and cw: "cache_wf p c"
    and hd: "h = map (\<lambda>l. (k_rows p c ?n0 l, v_rows p c ?n0 l)) [0..<?L]"
    using rd by (simp_all add: paged_ready_def)
  have L: "0 < ?L" using h hd by (cases ?L) simp_all
  obtain p1 c1 where u: "update 0 k v (p, c) =
      (Ret (k_rows p c ?n0 0 @ k, v_rows p c ?n0 0 @ v), (p1, c1))"
    "pass_ready p1 c1 R n" "start_pos c1 = ?n0" "same_blocks (\<lambda>b. b \<in># R) p p1" "pool_frame p p1"
    "k_rows p1 c1 (?n0 + n) 0 = k_rows p c ?n0 0 @ k" "v_rows p1 c1 (?n0 + n) 0 = v_rows p c ?n0 0 @ v"
    "\<forall>l < ?L. l \<noteq> 0 \<longrightarrow> k_rows p1 c1 ?n0 l = k_rows p c ?n0 l \<and> v_rows p1 c1 ?n0 l = v_rows p c ?n0 l"
    "num_free (alloc p1) = num_free (alloc p) - pass_need p c R n"
    using update0_ok [OF wf cw _ len L] ft by (auto simp: paged_fits_def)
  have nt: "num_tokens c1 = ?n0 + n" using u(2,3) by (simp add: pass_ready_def)
  have "h[0 := (fst (h ! 0) @ k, snd (h ! 0) @ v)] =
      map (\<lambda>j. let m = (if j < 1 then num_tokens c1 else start_pos c1) in (k_rows p1 c1 m j, v_rows p1 c1 m j))
        [0..<num_hidden_layers (cfg p1)]"
    using u L nt by (intro nth_equalityI) (auto simp: hd nth_list_update pool_frame_def Let_def)
  then have "paged_mid R n 1 (p1, c1) (h[0 := (fst (h ! 0) @ k, snd (h ! 0) @ v)])"
    using u(2) by (simp add: paged_mid_def)
  moreover have "\<forall>m. paged_fits R (p, c) (n + m) \<longrightarrow> paged_fits R (p1, c1) m"
    using paged_fits_after [OF _ u(2) nt u(5,9)] by blast
  ultimately show ?thesis
    using u L by (auto simp: solo_def hd paged_frame_def)
qed

lemma paged_following:
  assumes md: "paged_mid R n l (p, c) h" and l: "0 < l" "l < length h" and len: "length k = n" "length v = n"
  shows "\<exists>s'. solo update l [k] [v] (p, c) = (Ret ([fst (h ! l) @ k], [snd (h ! l) @ v]), s') \<and>
    paged_mid R n (Suc l) s' (h[l := (fst (h ! l) @ k, snd (h ! l) @ v)]) \<and> paged_frame R (p, c) s' \<and>
    (\<forall>m. paged_fits R (p, c) m \<longrightarrow> paged_fits R s' m)"
proof -
  let ?L = "num_hidden_layers (cfg p)"
  let ?h = "\<lambda>p l j. let m = (if j < l then num_tokens c else start_pos c) in (k_rows p c m j, v_rows p c m j)"
  have pr: "pass_ready p c R n" and hd: "h = map (?h p l) [0..<?L]"
    using md by (simp_all add: paged_mid_def)
  have L: "l < ?L" using l(2) hd by simp
  have nt: "num_tokens c = start_pos c + n" using pr by (simp add: pass_ready_def)
  obtain p1 where u: "update l k v (p, c) =
      (Ret (k_rows p c (start_pos c) l @ k, v_rows p c (start_pos c) l @ v), (p1, c))"
    "pass_ready p1 c R n" "same_blocks (\<lambda>b. b \<in># R) p p1" "pool_frame p p1" "alloc p1 = alloc p"
    "k_rows p1 c (start_pos c + n) l = k_rows p c (start_pos c) l @ k"
    "v_rows p1 c (start_pos c + n) l = v_rows p c (start_pos c) l @ v"
    "\<forall>l'. l' \<noteq> l \<longrightarrow> kmem p1 ! l' = kmem p ! l' \<and> vmem p1 ! l' = vmem p ! l'"
    using update_next_ok [OF pr len l(1) L] by blast
  have other: "k_rows p1 c m j = k_rows p c m j" "v_rows p1 c m j = v_rows p c m j" if "j \<noteq> l" for m j
    using u(8) that by (simp_all add: k_rows_def v_rows_def)
  have "h[l := (fst (h ! l) @ k, snd (h ! l) @ v)] = map (?h p1 (Suc l)) [0..<num_hidden_layers (cfg p1)]"
    using u(4,6,7) L nt other
    by (intro nth_equalityI) (auto simp: hd nth_list_update pool_frame_def Let_def less_Suc_eq)
  then have "paged_mid R n (Suc l) (p1, c) (h[l := (fst (h ! l) @ k, snd (h ! l) @ v)])"
    using u(2) by (simp add: paged_mid_def)
  moreover have "\<forall>m. paged_fits R (p, c) m \<longrightarrow> paged_fits R (p1, c) m"
    using u(4,5) by (auto simp: paged_fits_def pass_need_def cow_needed_def pool_frame_def)
  ultimately show ?thesis
    using u(1,3,4) L by (auto simp: solo_def hd Let_def paged_frame_def)
qed

lemma paged_complete:
  assumes "paged_mid R n l s h" and "l = length h"
  shows "paged_ready R s h"
proof -
  obtain p c where s: "s = (p, c)" by (cases s)
  have h: "h = map (\<lambda>j. let m = (if j < l then num_tokens c else start_pos c) in (k_rows p c m j, v_rows p c m j))
      [0..<num_hidden_layers (cfg p)]"
    using assms(1) s by (simp add: paged_mid_def)
  have "l = num_hidden_layers (cfg p)"
    using arg_cong [OF h, of length] assms(2) by simp
  then have "h = map (\<lambda>l. (k_rows p c (num_tokens c) l, v_rows p c (num_tokens c) l)) [0..<num_hidden_layers (cfg p)]"
    unfolding h by (intro map_cong) (simp_all add: Let_def)
  then show ?thesis
    using assms(1) s by (simp add: paged_mid_def paged_ready_def pass_ready_def)
qed

lemma cache_wf_rows:
  assumes "pool_wf p M" and "cache_wf p c"
  shows "length (k_rows p c (num_tokens c) l) = num_tokens c"
  using ceil_div_bounds(1) [OF pool_wf_bs [OF assms(1)], of "num_tokens c"] assms(2)
  by (simp add: k_rows_def cache_wf_def table_wf_def)

interpretation paged: kv_protocol "solo update" paged_len "paged_ready R" "paged_mid R" "paged_fits R" "paged_frame R"
  for R
proof
  fix s h n and k v :: "kv_row list"
  assume "paged_ready R s h" "paged_fits R s n" "h \<noteq> []" "length k = n" "length v = n"
  then show "\<exists>s'. solo update 0 [k] [v] s = (Ret ([fst (h ! 0) @ k], [snd (h ! 0) @ v]), s') \<and>
      paged_mid R n 1 s' (h[0 := (fst (h ! 0) @ k, snd (h ! 0) @ v)]) \<and> paged_frame R s s' \<and>
      (\<forall>m. paged_fits R s (n + m) \<longrightarrow> paged_fits R s' m)"
    by (cases s) (metis paged_first)
next
  fix n l s h and k v :: "kv_row list"
  assume "paged_mid R n l s h" "0 < l" "l < length h" "length k = n" "length v = n"
  then show "\<exists>s'. solo update l [k] [v] s = (Ret ([fst (h ! l) @ k], [snd (h ! l) @ v]), s') \<and>
      paged_mid R n (Suc l) s' (h[l := (fst (h ! l) @ k, snd (h ! l) @ v)]) \<and> paged_frame R s s' \<and>
      (\<forall>m. paged_fits R s m \<longrightarrow> paged_fits R s' m)"
    by (cases s) (metis paged_following)
next
  fix n s h
  assume "paged_mid R n (length h) s h"
  then show "paged_ready R s h" by (rule paged_complete) simp
next
  fix s h
  assume "paged_ready R s h" "h \<noteq> []"
  then show "paged_len s = hist_len h"
    by (cases s) (auto simp: paged_ready_def paged_len_def hist_len_def cache_wf_rows)
next
  fix s t u
  assume "paged_frame R s t" "paged_frame R t u"
  then show "paged_frame R s u"
    by (auto simp: paged_frame_def intro: same_blocks_trans pool_frame_trans)
next
  fix s n m
  assume "paged_fits R s (n + m)"
  then show "paged_fits R s n"
    using ceil_div_mono [of "block_size (fst s)" "num_tokens (snd s) + n" "num_tokens (snd s) + (n + m)"]
    by (cases s) (auto simp: paged_fits_def pass_need_def)
qed (simp add: paged_frame_def)

section \<open>Properties\<close>

lemma empty_hist_ready: "dyn_ready new_dyn_cache (empty_hist L)"
  by (auto simp: dyn_ready_def new_dyn_cache_def empty_hist_def)

lemma empty_hist_paged:
  assumes "pool_wf p R" and "num_hidden_layers (cfg p) = L"
  shows "paged_ready R (p, new_pcache) (empty_hist L)"
  using assms new_pcache_wf [of p]
  by (auto simp: paged_ready_def empty_hist_def new_pcache_def k_rows_def v_rows_def intro: nth_equalityI)

lemma paged_fits_fresh:
  "0 < block_size p \<Longrightarrow> paged_fits R (p, new_pcache) n \<longleftrightarrow> ceil_div n (block_size p) \<le> num_free (alloc p)"
  by (simp add: paged_fits_def fresh_pass_need) (simp add: new_pcache_def)

text \<open>C10: the paged cache is invisible to the model. For any sequence of passes (a prompt, further chunks,
  single decode tokens) whose tokens fit the free blocks, running the decoder over the paged cache gives
  exactly the logits (or the exception) of running it over the contiguous cache, and leaves the pool well formed.\<close>

theorem paged_equals_contiguous:
  assumes "pool_wf p R" and "num_hidden_layers (cfg p) = length (mlayers M)" and "mlayers M \<noteq> []"
    and "ceil_div (sum_list (map length chunks)) (block_size p) \<le> num_free (alloc p)"
  shows "\<exists>out r' p' c' d'.
    run_passes M (solo update, paged_len) chunks (r, (p, new_pcache)) = (out, (r', (p', c'))) \<and>
    run_passes M (dyn_update, dyn_len) chunks (r, new_dyn_cache) = (out, (r', d')) \<and>
    pool_wf p' (mset (block_table c') + R) \<and> cache_wf p' c'"
proof -
  let ?h = "empty_hist (length (mlayers M))"
  have h: "?h \<noteq> []" "length ?h = length (mlayers M)" using assms(3) by (simp_all add: empty_hist_def)
  have ft: "paged_fits R (p, new_pcache) (sum_list (map length chunks))"
    using assms(4) pool_wf_bs [OF assms(1)] by (simp add: paged_fits_fresh)
  obtain out r1 s1 h1 where 1: "run_passes M (solo update, paged_len) chunks (r, (p, new_pcache)) = (out, (r1, s1))"
    "run_passes M (hist_update, hist_len) chunks (r, ?h) = (out, (r1, h1))" "paged_ready R s1 h1"
    using paged.passes_sim [OF empty_hist_paged [OF assms(1,2)] ft h] by blast
  obtain out2 r2 s2 h2 where "run_passes M (dyn_update, dyn_len) chunks (r, new_dyn_cache) = (out2, (r2, s2))"
    "run_passes M (hist_update, hist_len) chunks (r, ?h) = (out2, (r2, h2))"
    using dynk.passes_sim [OF empty_hist_ready _ h] by blast
  with 1 show ?thesis
    by (cases s1) (auto simp: paged_ready_def)
qed

theorem paged_equals_contiguous_witness:
  "\<exists>out r' p' c' d'.
    run_passes demo_model (solo update, paged_len) [[1, 2, 3], [4], [5]]
      (new_rope 16 128 10000, (new_pool [] TINY 3 2 2, new_pcache)) = (out, (r', (p', c'))) \<and>
    run_passes demo_model (dyn_update, dyn_len) [[1, 2, 3], [4], [5]] (new_rope 16 128 10000, new_dyn_cache) =
      (out, (r', d')) \<and> pool_wf p' (mset (block_table c') + {#}) \<and> cache_wf p' c'"
proof -
  have "ceil_div (Suc (Suc (Suc (Suc (Suc 0))))) 2 = 3" by (rule ceil_div_unique) simp_all
  then show ?thesis
    by (intro paged_equals_contiguous)
      (simp_all add: new_pool_wf, simp_all add: new_pool_def Let_def demo_model_def TINY_def
        num_free_def new_allocator_def)
qed

text \<open>C11: one sequence cannot disturb another. Whatever passes sequence \<open>c\<close> runs, the stored rows of a
  sequence \<open>d\<close> in the same pool, with which it may share blocks, are the same afterwards, and \<open>d\<close>
  remains well formed.\<close>

theorem paged_isolation:
  assumes "pool_wf p (mset (block_table c) + (mset (block_table d) + R))" and "cache_wf p c" and "cache_wf p d"
    and "num_hidden_layers (cfg p) = length (mlayers M)" and "mlayers M \<noteq> []"
    and "pass_need p c (mset (block_table d) + R) (sum_list (map length chunks)) \<le> num_free (alloc p)"
  shows "\<exists>out r' p' c'. run_passes M (solo update, paged_len) chunks (r, (p, c)) = (out, (r', (p', c'))) \<and>
    cache_wf p' d \<and> (\<forall>n. \<forall>l < length (mlayers M). k_rows p' d n l = k_rows p d n l \<and> v_rows p' d n l = v_rows p d n l)"
proof -
  let ?R = "mset (block_table d) + R"
  let ?h = "map (\<lambda>l. (k_rows p c (num_tokens c) l, v_rows p c (num_tokens c) l)) [0..<length (mlayers M)]"
  have rd: "paged_ready ?R (p, c) ?h" using assms by (simp add: paged_ready_def)
  have ft: "paged_fits ?R (p, c) (sum_list (map length chunks))"
    using assms(2,6) pool_wf_bs [OF assms(1)] by (simp add: paged_fits_def cache_wf_def)
  have h: "?h \<noteq> []" "length ?h = length (mlayers M)" using assms(5) by simp_all
  obtain out r1 s1 h1 where 1: "run_passes M (solo update, paged_len) chunks (r, (p, c)) = (out, (r1, s1))"
    "paged_frame ?R (p, c) s1"
    using paged.passes_sim [OF rd ft h] by blast
  obtain p1 c1 where s1: "s1 = (p1, c1)" by (cases s1)
  have fr: "same_blocks (\<lambda>b. b \<in># ?R) p p1" "pool_frame p p1"
    using 1(2) s1 by (simp_all add: paged_frame_def)
  have "table_wf p d" using assms(3) by (simp add: cache_wf_def)
  then have "k_rows p1 d n l = k_rows p d n l \<and> v_rows p1 d n l = v_rows p d n l"
    if "l < length (mlayers M)" for n l
    using rows_same_blocks [OF fr(1) _ _ assms(1), of d l n] that assms(4) by auto
  then show ?thesis
    using 1(1) s1 assms(3) fr(2) by (auto simp: cache_wf_def table_wf_def pool_frame_def)
qed

lemma forked_write:
  assumes "pool_wf p (mset (block_table d))" and "cache_wf p d" and "num_tokens d = 3" and "block_size p = 2"
    and "1 \<le> num_free (alloc p)"
  shows "\<exists>c p1. fork p d = (Ret c, p1) \<and> pool_wf p1 (mset (block_table c) + (mset (block_table d) + {#})) \<and>
    cache_wf p1 c \<and> cache_wf p1 d \<and> cfg p1 = cfg p \<and>
    pass_need p1 c (mset (block_table d) + {#}) 1 \<le> num_free (alloc p1)"
proof -
  obtain a c where f: "fork p d = (Ret c, p\<lparr>alloc := a\<rparr>)"
    "pool_wf (p\<lparr>alloc := a\<rparr>) (mset (block_table c) + (mset (block_table d) + {#}))"
    "cache_wf (p\<lparr>alloc := a\<rparr>) c" "num_tokens c = num_tokens d" "num_free a = num_free (alloc p)"
    using fork_ok [of p d "{#}"] assms(1,2) by auto
  have "ceil_div 4 2 = 2" "ceil_div 3 2 = 2" by (rule ceil_div_unique; simp)+
  then have "pass_need (p\<lparr>alloc := a\<rparr>) c (mset (block_table d) + {#}) 1 \<le> 1"
    using f(3,4) assms(3,4) by (simp add: pass_need_def cache_wf_def)
  then show ?thesis
    using f assms(2,5) by (auto simp: cache_wf_def table_wf_def)
qed

theorem paged_isolation_witness:
  "\<exists>p c p1 d out r' p' c'.
    update 0 [[[1]], [[2]], [[3]]] [[[4]], [[5]], [[6]]] (new_pool [] TINY 4 2 2, new_pcache) =
      (Ret ([[[1]], [[2]], [[3]]], [[[4]], [[5]], [[6]]]), (p, d)) \<and>
    fork p d = (Ret c, p1) \<and>
    run_passes demo_model (solo update, paged_len) [[7]] (new_rope 16 128 10000, (p1, c)) = (out, (r', (p', c'))) \<and>
    k_rows p' d 3 0 = k_rows p1 d 3 0"
proof -
  let ?k = "[[[1]], [[2]], [[3]]] :: kv_row list" and ?v = "[[[4]], [[5]], [[6]]] :: kv_row list"
  have c: "ceil_div (length ?k) 2 = 2" by (rule ceil_div_unique) simp_all
  have L: "num_hidden_layers TINY = length (mlayers demo_model)" "mlayers demo_model \<noteq> []"
    by (simp_all add: demo_model_def TINY_def)
  have "\<exists>p d. update 0 ?k ?v (new_pool [] TINY 4 2 2, new_pcache) = (Ret (?k, ?v), (p, d)) \<and>
      pool_wf p (mset (block_table d)) \<and> cache_wf p d \<and> num_tokens d = length ?k \<and> block_size p = 2 \<and>
      cfg p = TINY \<and> num_free (alloc p) = 4 - ceil_div (length ?k) 2"
    by (rule first_write) (simp_all add: TINY_def)
  then obtain p d where w: "update 0 ?k ?v (new_pool [] TINY 4 2 2, new_pcache) = (Ret (?k, ?v), (p, d))"
    "pool_wf p (mset (block_table d))" "cache_wf p d" "num_tokens d = 3" "block_size p = 2" "cfg p = TINY"
    "1 \<le> num_free (alloc p)"
    using c by auto
  obtain c p1 where f: "fork p d = (Ret c, p1)"
    "pool_wf p1 (mset (block_table c) + (mset (block_table d) + {#}))" "cache_wf p1 c" "cache_wf p1 d"
    "cfg p1 = TINY" "pass_need p1 c (mset (block_table d) + {#}) 1 \<le> num_free (alloc p1)"
    using forked_write [OF w(2-5,7)] w(6) by auto
  have "num_hidden_layers (cfg p1) = length (mlayers demo_model)" using f(5) L(1) by simp
  from paged_isolation [OF f(2-4) this L(2), of "[[7]]" "new_rope 16 128 10000"] show ?thesis
    using w(1) f(1,6) L(2) by fastforce
qed

end
