(* ===== verification/Incremental.thy ===== *)
theory Incremental
  imports KV_Protocol
begin

text \<open>
  Why a KV cache is correct at all: decoding in pieces computes what one pass over the whole sequence
  computes. The only fact about torch used is \<open>sdpa_doc\<close>, what it documents of its attention kernel. The
  three mask regimes of \<^verbatim>\<open>Attention.forward\<close> (prefill, decode, chunked prefill) are shown to be one
  rule (\<open>attend_causal\<close>): a query sees the keys up to its own position. From it, one layer splits at any
  point of its input (\<open>layer_split\<close>), then the stack (\<open>layers_split\<close>), the model, and a whole generation over
  the paged cache.
\<close>

definition rope_wf :: "rope \<Rightarrow> bool" where
  "rope_wf r \<longleftrightarrow> r = build_tables (max_positions r) r"

text \<open>The output row of one query over the keys and values it may see, heads expanded.\<close>

definition row_att :: "model_w \<Rightarrow> (real \<Rightarrow> vec \<Rightarrow> (vec \<times> vec) list \<Rightarrow> vec) \<Rightarrow> kv_row \<Rightarrow> (kv_row \<times> kv_row) list \<Rightarrow> vec" where
  "row_att M att q kvs =
     concat (map (\<lambda>h. att (1 / sqrt (real (head_dim (mcfg M)))) (q ! h)
       (map (\<lambda>(k, v). (repeat_kv (n_rep (mcfg M)) k ! h, repeat_kv (n_rep (mcfg M)) v ! h)) kvs))
     [0..<num_attention_heads (mcfg M)])"

definition hist_layer ::
  "model_w \<Rightarrow> layer_w \<Rightarrow> vec list \<Rightarrow> vec list \<Rightarrow> vec list \<Rightarrow> kv_row list \<times> kv_row list \<Rightarrow>
   vec list \<times> (kv_row list \<times> kv_row list)" where
  "hist_layer M lw x cs sn kv =
     (let K = fst kv @ layer_k M lw x cs sn; V = snd kv @ layer_v M lw x
      in (layer_out M lw x cs sn None ([K], [V]), (K, V)))"

fun hist_layers ::
  "model_w \<Rightarrow> layer_w list \<Rightarrow> nat \<Rightarrow> vec list \<Rightarrow> vec list \<Rightarrow> vec list \<Rightarrow> hist \<Rightarrow> vec list \<times> hist" where
  "hist_layers M [] i x cs sn h = (x, h)"
| "hist_layers M (lw # lws) i x cs sn h =
     (let (y, kv) = hist_layer M lw x cs sn (h ! i) in hist_layers M lws (Suc i) y cs sn (h[i := kv]))"

definition out_row ::
  "model_w \<Rightarrow> layer_w \<Rightarrow> (real \<Rightarrow> vec \<Rightarrow> (vec \<times> vec) list \<Rightarrow> vec) \<Rightarrow> vec \<Rightarrow> kv_row \<Rightarrow> (kv_row \<times> kv_row) list \<Rightarrow> vec" where
  "out_row M lw att xr q kvs = layer_mlp M lw (vadd xr (o_proj lw (row_att M att q kvs)))"

text \<open>Keys and values have the same number of rows in every layer.\<close>

definition hist_ok :: "hist \<Rightarrow> bool" where
  "hist_ok h \<longleftrightarrow> (\<forall>e \<in> set h. length (snd e) = length (fst e))"

text \<open>A pass over the history, with the rotary rows of consecutive positions.\<close>

definition cos_row :: "rope \<Rightarrow> nat \<Rightarrow> vec" where
  "cos_row r t = map cos (rope_emb (rope_base r) (rope_dim r) t)"

definition sin_row :: "rope \<Rightarrow> nat \<Rightarrow> vec" where
  "sin_row r t = map sin (rope_emb (rope_base r) (rope_dim r) t)"

definition hist_pass :: "model_w \<Rightarrow> rope \<Rightarrow> nat \<Rightarrow> nat list \<Rightarrow> hist \<Rightarrow> vec list \<times> hist" where
  "hist_pass M r past ids h =
     hist_layers M (mlayers M) 0 (map (embed_tokens M) ids) (map (cos_row r) [past..<past + length ids])
       (map (sin_row r) [past..<past + length ids]) h"

definition lm_out :: "model_w \<Rightarrow> vec \<Rightarrow> vec" where
  "lm_out M x = lm_head_w M (rms_norm (rsqrt M) (rms_norm_eps (mcfg M)) (norm_w M) x)"

section \<open>The three mask regimes are one rule\<close>

lemma filter_le_upt: "filter (\<lambda>j. j \<le> c) [0..<n] = [0..<min (Suc c) n]"
  by (induction n) (auto simp: min_def)

lemma map_nth_upt: "m \<le> length xs \<Longrightarrow> map (\<lambda>j. xs ! j) [0..<m] = take m xs"
  by (simp add: list_eq_iff_nth_eq)

lemma visible_prefix:
  assumes "\<And>j. j < length kv \<Longrightarrow> allowed m caus i j \<longleftrightarrow> j \<le> c"
  shows "visible m caus i kv = take (Suc c) kv"
proof -
  have "filter (allowed m caus i) [0..<length kv] = filter (\<lambda>j. j \<le> c) [0..<length kv]"
    using assms by (intro filter_cong) auto
  then show ?thesis
    by (simp add: visible_def filter_le_upt map_nth_upt min_def)
qed

lemma regime_allowed:
  assumes "t \<le> kv_len" and "i < t" and "j < kv_len" and "mask_regime 1 t kv_len None = (m, caus)"
  shows "allowed (map_option (\<lambda>mm. mm ! 0) m) caus i j \<longleftrightarrow> j \<le> kv_len - t + i"
proof (cases "t > 1 \<and> t \<noteq> kv_len")
  case True
  then have "m = Some [offset_causal_mask t kv_len]" "caus = False"
    using assms(4) by (auto simp: mask_regime_def)
  moreover have "offset_causal_mask t kv_len ! i ! j = (j \<le> kv_len - t + i)"
    using assms(1-3) by (simp add: offset_causal_mask_def)
  ultimately show ?thesis by (simp add: allowed_def)
next
  case False
  then show ?thesis
    using assms by (auto simp: mask_regime_def allowed_def split: if_splits)
qed

lemma zip_heads: "zip (head_of h (map f ks)) (head_of h (map f vs)) = map (\<lambda>(k, v). (f k ! h, f v ! h)) (zip ks vs)"
  by (simp add: head_of_def zip_map_map)

lemma attend_causal:
  assumes doc: "sdpa_doc (sdpa M) att" and len: "length vs = length ks" "length q \<le> length ks"
  shows "attend M lw [q] [ks] [vs] None =
    [map (\<lambda>i. o_proj lw (row_att M att (q ! i) (take (Suc (length ks - length q + i)) (zip ks vs)))) [0..<length q]]"
proof -
  let ?f = "repeat_kv (n_rep (mcfg M))" and ?nh = "num_attention_heads (mcfg M)"
    and ?s = "1 / sqrt (real (head_dim (mcfg M)))"
  obtain m caus where mr: "mask_regime 1 (length q) (length ks) None = (m, caus)"
    by (cases "mask_regime 1 (length q) (length ks) None")
  let ?m = "map_option (\<lambda>mm. mm ! 0) m"
  have one: "sdpa M (head_of h q) (head_of h (map ?f ks)) (head_of h (map ?f vs)) ?m caus ?s ! i =
      att ?s (q ! i ! h) (map (\<lambda>(k, v). (?f k ! h, ?f v ! h)) (take (Suc (length ks - length q + i)) (zip ks vs)))"
    if "i < length q" for h i
  proof -
    have "visible ?m caus i (zip (head_of h (map ?f ks)) (head_of h (map ?f vs))) =
        take (Suc (length ks - length q + i)) (zip (head_of h (map ?f ks)) (head_of h (map ?f vs)))"
      using regime_allowed [OF len(2) that _ mr] len(1) by (intro visible_prefix) (simp add: head_of_def)
    then have vis: "visible ?m caus i (zip (head_of h (map ?f ks)) (head_of h (map ?f vs))) =
        map (\<lambda>(k, v). (?f k ! h, ?f v ! h)) (take (Suc (length ks - length q + i)) (zip ks vs))"
      by (simp only: zip_heads take_map)
    have "length (head_of h (map ?f vs)) = length (head_of h (map ?f ks))"
      using len(1) by (simp add: head_of_def)
    then have "sdpa M (head_of h q) (head_of h (map ?f ks)) (head_of h (map ?f vs)) ?m caus ?s =
        map (\<lambda>i. att ?s (head_of h q ! i) (visible ?m caus i (zip (head_of h (map ?f ks)) (head_of h (map ?f vs)))))
          [0..<length (head_of h q)]"
      using doc by (simp add: sdpa_doc_def)
    then show ?thesis
      using that vis by (simp add: head_of_def)
  qed
  have "sdpa_heads M ?nh q (map ?f ks) (map ?f vs) ?m caus ?s =
      map (\<lambda>i. row_att M att (q ! i) (take (Suc (length ks - length q + i)) (zip ks vs))) [0..<length q]"
    by (simp add: sdpa_heads_def Let_def row_att_def comp_def one cong: map_cong)
  then show ?thesis
    using mr by (simp add: attend_def Let_def time_dim_def comp_def)
qed

section \<open>One layer\<close>

lemma rot_rows_append:
  "length c1 = length r1 \<Longrightarrow> length s1 = length r1 \<Longrightarrow>
    rot_rows (c1 @ c2) (s1 @ s2) (r1 @ r2) = rot_rows c1 s1 r1 @ rot_rows c2 s2 r2"
  by (simp add: rot_rows_def)

lemma layer_rows_append:
  assumes "length c1 = length x1" and "length s1 = length x1"
  shows "layer_q M lw (x1 @ x2) (c1 @ c2) (s1 @ s2) = layer_q M lw x1 c1 s1 @ layer_q M lw x2 c2 s2"
    and "layer_k M lw (x1 @ x2) (c1 @ c2) (s1 @ s2) = layer_k M lw x1 c1 s1 @ layer_k M lw x2 c2 s2"
    and "layer_v M lw (x1 @ x2) = layer_v M lw x1 @ layer_v M lw x2"
  using assms by (simp_all add: layer_q_def layer_k_def layer_v_def pre_norm_def rot_rows_append)

lemma hist_layer_out:
  assumes doc: "sdpa_doc (sdpa M) att" and len: "length cs = length x" "length sn = length x"
    "length (snd kv) = length (fst kv)"
  shows "fst (hist_layer M lw x cs sn kv) =
    map (\<lambda>i. out_row M lw att (x ! i) (layer_q M lw x cs sn ! i)
      (take (Suc (length (fst kv) + i)) (zip (fst kv @ layer_k M lw x cs sn) (snd kv @ layer_v M lw x)))) [0..<length x]"
proof -
  let ?K = "fst kv @ layer_k M lw x cs sn" and ?V = "snd kv @ layer_v M lw x" and ?q = "layer_q M lw x cs sn"
  have l: "length ?V = length ?K" "length ?q \<le> length ?K" "length ?K - length ?q = length (fst kv)" "length ?q = length x"
    using len by simp_all
  define rows where "rows = map (\<lambda>i. o_proj lw (row_att M att (?q ! i)
    (take (Suc (length (fst kv) + i)) (zip ?K ?V)))) [0..<length x]"
  have "attend M lw [?q] [?K] [?V] None = [rows]"
    unfolding attend_causal [OF doc l(1,2)] l(3) unfolding l(4) rows_def ..
  then have "fst (hist_layer M lw x cs sn kv) = map (layer_mlp M lw) (map2 vadd x rows)"
    by (simp add: hist_layer_def Let_def layer_out_def)
  also have "\<dots> = map (\<lambda>i. out_row M lw att (x ! i) (?q ! i)
      (take (Suc (length (fst kv) + i)) (zip ?K ?V))) [0..<length x]"
    by (rule nth_equalityI) (simp_all add: rows_def out_row_def)
  finally show ?thesis .
qed

lemma layer_split:
  assumes doc: "sdpa_doc (sdpa M) att" and len: "length c1 = length x1" "length s1 = length x1"
    "length c2 = length x2" "length s2 = length x2" "length (snd kv) = length (fst kv)"
  shows "hist_layer M lw (x1 @ x2) (c1 @ c2) (s1 @ s2) kv =
    (let (y1, kv1) = hist_layer M lw x1 c1 s1 kv; (y2, kv2) = hist_layer M lw x2 c2 s2 kv1 in (y1 @ y2, kv2))"
proof -
  let ?k1 = "layer_k M lw x1 c1 s1" and ?k2 = "layer_k M lw x2 c2 s2"
    and ?v1 = "layer_v M lw x1" and ?v2 = "layer_v M lw x2"
  let ?kv1 = "(fst kv @ ?k1, snd kv @ ?v1)"
  have kv1: "hist_layer M lw x1 c1 s1 kv = (fst (hist_layer M lw x1 c1 s1 kv), ?kv1)"
    by (simp add: hist_layer_def Let_def)
  have l: "length ?k1 = length x1" "length ?v1 = length x1" "length (snd ?kv1) = length (fst ?kv1)"
    using len by simp_all
  have zip_eq: "zip ((fst kv @ ?k1) @ ?k2) ((snd kv @ ?v1) @ ?v2) = zip (fst kv @ ?k1) (snd kv @ ?v1) @ zip ?k2 ?v2"
    using l(3) by (simp only: zip_append fst_conv snd_conv)
  have "fst (hist_layer M lw (x1 @ x2) (c1 @ c2) (s1 @ s2) kv) =
      fst (hist_layer M lw x1 c1 s1 kv) @ fst (hist_layer M lw x2 c2 s2 ?kv1)"
  proof (rule nth_equalityI)
    fix i assume "i < length (fst (hist_layer M lw (x1 @ x2) (c1 @ c2) (s1 @ s2) kv))"
    then have i: "i < length x1 + length x2"
      using len by (simp add: hist_layer_out [OF doc])
    show "fst (hist_layer M lw (x1 @ x2) (c1 @ c2) (s1 @ s2) kv) ! i =
      (fst (hist_layer M lw x1 c1 s1 kv) @ fst (hist_layer M lw x2 c2 s2 ?kv1)) ! i"
      using i len l zip_eq
      by (cases "i < length x1") (simp_all add: hist_layer_out [OF doc] layer_rows_append nth_append Suc_diff_le)
  qed (use len l in \<open>simp add: hist_layer_out [OF doc]\<close>)
  moreover have "snd (hist_layer M lw (x1 @ x2) (c1 @ c2) (s1 @ s2) kv) = snd (hist_layer M lw x2 c2 s2 ?kv1)"
    using len by (simp add: hist_layer_def Let_def layer_rows_append)
  ultimately show ?thesis
    by (subst kv1) (simp add: case_prod_unfold Let_def prod_eq_iff)
qed

section \<open>The stack\<close>

lemma length_hist_layer [simp]:
  "length cs = length x \<Longrightarrow> length sn = length x \<Longrightarrow> length (fst (hist_layer M lw x cs sn kv)) = length x"
  by (simp add: hist_layer_def Let_def)

lemma run_layers_hist:
  "run_layers M lws i [x] [cs] [sn] (Some hist_update) None h =
    (case hist_layers M lws i x cs sn h of (y, h') \<Rightarrow> (Ret [y], h'))"
proof (induction lws arbitrary: i x h)
  case Nil
  then show ?case by simp
next
  case (Cons lw lws)
  then show ?case
    by (simp add: decoder_layer_single hist_update_def hist_layer_def Let_def)
qed

lemma hist_layers_frame:
  assumes "j < i"
  shows "hist_layers M lws i x cs sn (h[j := e]) =
    (let (y, h') = hist_layers M lws i x cs sn h in (y, h'[j := e]))"
  using assms
proof (induction lws arbitrary: i x h)
  case Nil
  then show ?case by simp
next
  case (Cons lw lws)
  have "h[j := e, i := kv] = h[i := kv, j := e]" for kv
    using Cons.prems by (simp add: list_update_swap)
  then show ?case
    using Cons.prems Cons.IH [of "Suc i"] by (simp add: case_prod_unfold Let_def)
qed

lemma length_hist_layers [simp]: "length (snd (hist_layers M lws i x cs sn h)) = length h"
  by (induction lws arbitrary: i x h) (simp_all add: case_prod_unfold Let_def)

lemma hist_layers_other: "j < i \<Longrightarrow> snd (hist_layers M lws i x cs sn h) ! j = h ! j"
  by (induction lws arbitrary: i x h) (simp_all add: case_prod_unfold Let_def)

lemma hist_ok_update:
  assumes "hist_ok h" and "length (snd e) = length (fst e)"
  shows "hist_ok (h[i := e])"
  using assms by (auto simp: hist_ok_def dest!: subsetD [OF set_update_subset_insert])

lemma hist_ok_layer:
  "length (snd kv) = length (fst kv) \<Longrightarrow> length cs = length x \<Longrightarrow> length sn = length x \<Longrightarrow>
    length (snd (snd (hist_layer M lw x cs sn kv))) = length (fst (snd (hist_layer M lw x cs sn kv)))"
  by (simp add: hist_layer_def Let_def)

lemma hist_ok_layers:
  assumes "hist_ok h" and "i + length lws \<le> length h" and "length cs = length x" and "length sn = length x"
  shows "hist_ok (snd (hist_layers M lws i x cs sn h)) \<and> length (fst (hist_layers M lws i x cs sn h)) = length x"
  using assms
proof (induction lws arbitrary: i x h)
  case Nil
  then show ?case by simp
next
  case (Cons lw lws)
  obtain y kv where y: "hist_layer M lw x cs sn (h ! i) = (y, kv)" by (cases "hist_layer M lw x cs sn (h ! i)")
  have "length (snd (h ! i)) = length (fst (h ! i))" using Cons.prems(1,2) by (simp add: hist_ok_def)
  then have "length (snd kv) = length (fst kv)" "length y = length x"
    using hist_ok_layer [of "h ! i" cs x sn M lw] length_hist_layer [of cs x sn M lw "h ! i"] Cons.prems(3,4) y by simp_all
  then show ?case
    using Cons.IH [of "h[i := kv]" "Suc i" y] Cons.prems y hist_ok_update by simp
qed

lemma layers_split:
  assumes doc: "sdpa_doc (sdpa M) att" and "length c1 = length x1" "length s1 = length x1"
    "length c2 = length x2" "length s2 = length x2" and "hist_ok h" and "i + length lws \<le> length h"
  shows "hist_layers M lws i (x1 @ x2) (c1 @ c2) (s1 @ s2) h =
    (let (y1, h1) = hist_layers M lws i x1 c1 s1 h; (y2, h2) = hist_layers M lws i x2 c2 s2 h1 in (y1 @ y2, h2))"
  using assms(2-)
proof (induction lws arbitrary: i x1 x2 h)
  case Nil
  then show ?case by simp
next
  case (Cons lw lws)
  note len = Cons.prems(1-4)
  have i: "i < length h" using Cons.prems(6) by simp
  then have kvl: "length (snd (h ! i)) = length (fst (h ! i))" using Cons.prems(5) by (simp add: hist_ok_def)
  obtain y1 e1 where y1: "hist_layer M lw x1 c1 s1 (h ! i) = (y1, e1)" by (cases "hist_layer M lw x1 c1 s1 (h ! i)")
  obtain y2 e2 where y2: "hist_layer M lw x2 c2 s2 e1 = (y2, e2)" by (cases "hist_layer M lw x2 c2 s2 e1")
  have both: "hist_layer M lw (x1 @ x2) (c1 @ c2) (s1 @ s2) (h ! i) = (y1 @ y2, e2)"
    using layer_split [OF doc len kvl, of lw] y1 y2 by simp
  have ly: "length y1 = length x1" "length y2 = length x2"
    using length_hist_layer [OF len(1,2), of M lw "h ! i"] length_hist_layer [OF len(3,4), of M lw e1] y1 y2 by simp_all
  obtain z1 g1 where z1: "hist_layers M lws (Suc i) y1 c1 s1 h = (z1, g1)" by (cases "hist_layers M lws (Suc i) y1 c1 s1 h")
  obtain z2 g2 where z2: "hist_layers M lws (Suc i) y2 c2 s2 g1 = (z2, g2)" by (cases "hist_layers M lws (Suc i) y2 c2 s2 g1")
  have IH: "hist_layers M lws (Suc i) (y1 @ y2) (c1 @ c2) (s1 @ s2) h = (z1 @ z2, g2)"
    using Cons.IH [of y1 y2 h "Suc i"] len ly Cons.prems(5,6) z1 z2 by simp
  have g1: "length g1 = length h" using length_hist_layers [of M lws "Suc i" y1 c1 s1 h] z1 by simp
  have "hist_layers M (lw # lws) i x1 c1 s1 h = (z1, g1[i := e1])"
    using y1 z1 hist_layers_frame [of i "Suc i" M lws y1 c1 s1 h e1] by simp
  moreover have "hist_layers M (lw # lws) i x2 c2 s2 (g1[i := e1]) = (z2, g2[i := e2])"
    using y2 z2 g1 i hist_layers_frame [of i "Suc i" M lws y2 c2 s2 g1 e2] by simp
  moreover have "hist_layers M (lw # lws) i (x1 @ x2) (c1 @ c2) (s1 @ s2) h = (z1 @ z2, g2[i := e2])"
    using both IH hist_layers_frame [of i "Suc i" M lws "y1 @ y2" "c1 @ c2" "s1 @ s2" h e2] by simp
  ultimately show ?case by simp
qed

text \<open>Without a cache, attention sees exactly the rows of this pass: an empty history.\<close>

lemma decoder_layer_none:
  "decoder_layer M lw l [x] [cs] [sn] None m s =
     (Ret [layer_out M lw x cs sn m ([layer_k M lw x cs sn], [layer_v M lw x])], s)"
  using decoder_layer_single [of M lw l x cs sn "\<lambda>_ k v s. (Ret (k, v), s)" m s]
  by (simp add: decoder_layer_def attention_def Let_def)

lemma run_layers_none:
  assumes "\<forall>j. i \<le> j \<longrightarrow> j < i + length lws \<longrightarrow> h ! j = ([], [])"
  shows "run_layers M lws i [x] [cs] [sn] None None s = (Ret [fst (hist_layers M lws i x cs sn h)], s)"
  using assms
proof (induction lws arbitrary: i x h)
  case Nil
  then show ?case by simp
next
  case (Cons lw lws)
  have "h ! i = ([], [])" using Cons.prems by simp
  moreover have "\<forall>j. Suc i \<le> j \<longrightarrow> j < Suc i + length lws \<longrightarrow> h[i := kv] ! j = ([], [])" for kv
    using Cons.prems by auto
  ultimately show ?case
    using Cons.IH hist_layers_frame [of i "Suc i" M lws _ cs sn h]
    by (simp add: decoder_layer_none hist_layer_def case_prod_unfold Let_def)
qed

section \<open>The model\<close>

lemma build_tables_twice: "build_tables m (build_tables n r) = build_tables m r"
  by (simp add: build_tables_def Let_def)

lemma build_tables_wf [simp]: "rope_wf (build_tables n r)"
  by (simp add: rope_wf_def build_tables_twice)

lemma new_rope_wf: "rope_wf (new_rope dh n base)"
  by (simp add: new_rope_def)

lemma ensure_wf: "rope_wf r \<Longrightarrow> rope_wf (rope_ensure_capacity m r)"
  by (simp add: rope_ensure_capacity_def)

lemma ensure_fields [simp]:
  "cos_row (rope_ensure_capacity m r) = cos_row r" "sin_row (rope_ensure_capacity m r) = sin_row r"
  "m \<le> max_positions (rope_ensure_capacity m r)"
  by (auto simp: rope_ensure_capacity_def cos_row_def sin_row_def)

lemma rope_wf_tables:
  assumes "rope_wf r"
  shows "length (cos_cached r) = max_positions r"
    and "t < max_positions r \<Longrightarrow> cos_cached r ! t = cos_row r t"
    and "t < max_positions r \<Longrightarrow> sin_cached r ! t = sin_row r t"
proof -
  have r: "build_tables (max_positions r) r = r" using assms by (simp add: rope_wf_def)
  show "length (cos_cached r) = max_positions r"
    using build_tables_fields(4) [of "max_positions r" r] unfolding r .
  show "cos_cached r ! t = cos_row r t" "sin_cached r ! t = sin_row r t" if "t < max_positions r"
    using build_tables_nth [OF that, of r] unfolding r cos_row_def sin_row_def .
qed

lemma rope_lookup_wf:
  assumes "rope_wf r" and "\<forall>t \<in> set pos. t < max_positions r"
  shows "rope_lookup r [pos] = Ret ([map (cos_row r) pos], [map (sin_row r) pos])"
  using assms by (simp add: rope_lookup_def rope_wf_tables)

lemma lookup_ensured:
  assumes "rope_wf r"
  shows "rope_lookup (rope_ensure_capacity n r) [[past..<n]] =
    Ret ([map (cos_row r) [past..<n]], [map (sin_row r) [past..<n]])"
proof -
  have "\<forall>t \<in> set [past..<n]. t < max_positions (rope_ensure_capacity n r)"
    by (auto intro: less_le_trans [OF _ ensure_fields(3)])
  from rope_lookup_wf [OF ensure_wf [OF assms] this] show ?thesis by simp
qed

lemma lm_hist:
  assumes "rope_wf r" and "\<forall>t \<in> set ids. t < vocab_size (mcfg M)"
  shows "nano_causal_lm M [ids] None (Some (hist_update, hist_len)) None (r, h) =
    (Ret [map (lm_out M) (fst (hist_pass M r (hist_len h) ids h))],
     (rope_ensure_capacity (hist_len h + length ids) r, snd (hist_pass M r (hist_len h) ids h)))"
  using assms lookup_ensured [OF assms(1), of "hist_len h + length ids" "hist_len h"]
  by (simp add: nano_causal_lm_def nano_model_def Let_def time_dim_def embed_def run_layers_hist hist_pass_def
      lm_out_def comp_def case_prod_unfold)

text \<open>A cache that refuses the first layer's rows ends the pass before anything else happens.\<close>

lemma lm_update_raises:
  assumes "rope_wf r" and "\<forall>t \<in> set ids. t < vocab_size (mcfg M)" and "mlayers M \<noteq> []"
    and "\<And>k v. length k = length ids \<Longrightarrow> length v = length ids \<Longrightarrow> upd 0 [k] [v] s = (Raise x, s')"
  shows "nano_causal_lm M [ids] None (Some (upd, len)) m (r, s) =
    (Raise x, (rope_ensure_capacity (len s + length ids) r, s'))"
proof -
  obtain lw lws where l: "mlayers M = lw # lws" using assms(3) by (cases "mlayers M") auto
  let ?cs = "map (cos_row r) [len s..<len s + length ids]" and ?sn = "map (sin_row r) [len s..<len s + length ids]"
  let ?x = "map (embed_tokens M) ids"
  have "upd 0 [layer_k M lw ?x ?cs ?sn] [layer_v M lw ?x] s = (Raise x, s')" by (rule assms(4)) (simp_all add: layer_v_def pre_norm_def)
  then have "decoder_layer M lw 0 [?x] [?cs] [?sn] (Some upd) m s = (Raise x, s')"
    by (simp add: decoder_layer_single)
  then show ?thesis
    using l assms(1,2) lookup_ensured [OF assms(1), of "len s + length ids" "len s"]
    by (simp add: nano_causal_lm_def nano_model_def Let_def time_dim_def embed_def)
qed

lemma lm_none:
  assumes "rope_wf r" and "\<forall>t \<in> set ids. t < vocab_size (mcfg M)"
  shows "nano_causal_lm M [ids] None None None (r, s) =
    (Ret [map (lm_out M) (fst (hist_pass M r 0 ids (empty_hist (length (mlayers M)))))],
     (rope_ensure_capacity (length ids) r, s))"
proof -
  have "\<forall>j. 0 \<le> j \<longrightarrow> j < 0 + length (mlayers M) \<longrightarrow> empty_hist (length (mlayers M)) ! j = ([], [])"
    by (simp add: empty_hist_def)
  from run_layers_none [OF this, where s = s] show ?thesis
    using assms lookup_ensured [OF assms(1), of "length ids" 0]
    by (simp add: nano_causal_lm_def nano_model_def Let_def time_dim_def embed_def hist_pass_def lm_out_def comp_def)
qed

lemma hist_pass_split:
  assumes "sdpa_doc (sdpa M) att" and "hist_ok h" and "length (mlayers M) \<le> length h"
  shows "hist_pass M r past (a @ b) h =
    (let (y1, h1) = hist_pass M r past a h; (y2, h2) = hist_pass M r (past + length a) b h1 in (y1 @ y2, h2))"
proof -
  have "[past..<past + length (a @ b)] = [past..<past + length a] @ [past + length a..<past + length a + length b]"
    using upt_add_eq_append [of past "past + length a" "length b"] by (simp add: add.assoc)
  then show ?thesis
    using layers_split [OF assms(1), of "map (cos_row r) [past..<past + length a]" "map (embed_tokens M) a"
        "map (sin_row r) [past..<past + length a]"
        "map (cos_row r) [past + length a..<past + length a + length b]" "map (embed_tokens M) b"
        "map (sin_row r) [past + length a..<past + length a + length b]" h 0 "mlayers M"] assms(2,3)
    by (simp add: hist_pass_def)
qed

lemma hist_pass_ok:
  assumes "hist_ok h" and "length (mlayers M) \<le> length h"
  shows "hist_ok (snd (hist_pass M r past ids h))" "length (snd (hist_pass M r past ids h)) = length h"
    "length (fst (hist_pass M r past ids h)) = length ids"
  using hist_ok_layers [of h 0 "mlayers M" "map (cos_row r) [past..<past + length ids]" "map (embed_tokens M) ids"
      "map (sin_row r) [past..<past + length ids]" M] assms
  by (simp_all add: hist_pass_def)

lemma hist_pass_len:
  assumes "mlayers M \<noteq> []" and "length (mlayers M) \<le> length h"
  shows "hist_len (snd (hist_pass M r past ids h)) = hist_len h + length ids"
proof -
  obtain lw lws where l: "mlayers M = lw # lws" using assms(1) by (cases "mlayers M") auto
  have "0 < length h" using assms by (cases h) auto
  then show ?thesis
    using l by (simp add: hist_pass_def hist_len_def case_prod_unfold Let_def hist_layers_other hist_layer_def)
qed

section \<open>A generation\<close>

lemma hist_layers_empty: "hist_layers M lws i [] [] [] h = ([], h)"
  by (induction lws arbitrary: i)
    (simp_all add: hist_layer_def Let_def layer_k_def layer_v_def layer_out_def pre_norm_def rot_rows_def)

lemma passes_hist:
  assumes doc: "sdpa_doc (sdpa M) att" and ne: "mlayers M \<noteq> []"
    and "rope_wf r" and "\<forall>t \<in> set (concat chunks). t < vocab_size (mcfg M)"
    and "hist_ok h" and "length h = length (mlayers M)"
  shows "\<exists>outs r'. run_passes M (hist_update, hist_len) chunks (r, h) =
      (Ret outs, (r', snd (hist_pass M r (hist_len h) (concat chunks) h))) \<and>
    concat (map (\<lambda>out. out ! 0) outs) = map (lm_out M) (fst (hist_pass M r (hist_len h) (concat chunks) h))"
  using assms(3-)
proof (induction chunks arbitrary: r h)
  case Nil
  then show ?case by (simp add: hist_pass_def hist_layers_empty)
next
  case (Cons ids rest)
  have ids: "\<forall>t \<in> set ids. t < vocab_size (mcfg M)" using Cons.prems(2) by simp
  obtain y1 h1 where 1: "hist_pass M r (hist_len h) ids h = (y1, h1)" by (cases "hist_pass M r (hist_len h) ids h")
  have h1: "hist_ok h1" "length h1 = length (mlayers M)" "hist_len h1 = hist_len h + length ids"
    using hist_pass_ok [of h M r "hist_len h" ids] hist_pass_len [OF ne, of h r "hist_len h" ids] Cons.prems(3,4) 1
    by simp_all
  let ?r = "rope_ensure_capacity (hist_len h + length ids) r"
  have pass: "nano_causal_lm M [ids] None (Some (hist_update, hist_len)) None (r, h) = (Ret [map (lm_out M) y1], (?r, h1))"
    using lm_hist [OF Cons.prems(1) ids, of h] 1 by simp
  have hp: "hist_pass M ?r past xs g = hist_pass M r past xs g" for past xs g
    by (simp add: hist_pass_def)
  obtain outs r' where o: "run_passes M (hist_update, hist_len) rest (?r, h1) =
      (Ret outs, (r', snd (hist_pass M r (hist_len h1) (concat rest) h1)))"
    "concat (map (\<lambda>out. out ! 0) outs) = map (lm_out M) (fst (hist_pass M r (hist_len h1) (concat rest) h1))"
    using Cons.IH [OF ensure_wf [OF Cons.prems(1)] _ h1(1,2), of "hist_len h + length ids"] Cons.prems(2) hp by auto
  show ?case
    using pass o 1 h1(3) hist_pass_split [OF doc Cons.prems(3), of r "hist_len h" ids "concat rest"] Cons.prems(4)
    by (simp add: case_prod_unfold Let_def)
qed

text \<open>C6: decoding in pieces is correct. Given what torch documents of its attention kernel, running any
  split of a token sequence (prompt, chunks, single tokens) through the model over the paged cache
  succeeds, and the logits it produces are, position by position, those of one pass over the whole sequence without
  any cache.\<close>

theorem incremental_decoding_correct:
  assumes "sdpa_doc (sdpa M) att" and "pool_wf p R" and "num_hidden_layers (cfg p) = length (mlayers M)"
    and "mlayers M \<noteq> []" and "rope_wf r" and "\<forall>t \<in> set (concat chunks). t < vocab_size (mcfg M)"
    and "ceil_div (sum_list (map length chunks)) (block_size p) \<le> num_free (alloc p)"
  shows "\<exists>outs r1 st r2.
    run_passes M (solo update, paged_len) chunks (r, (p, new_pcache)) = (Ret outs, (r1, st)) \<and>
    nano_causal_lm M [concat chunks] None None None (r, ()) = (Ret [concat (map (\<lambda>out. out ! 0) outs)], (r2, ()))"
proof -
  let ?h = "empty_hist (length (mlayers M))"
  have h: "?h \<noteq> []" "length ?h = length (mlayers M)" "hist_ok ?h" "hist_len ?h = 0"
    using assms(4) by (simp_all add: empty_hist_def hist_ok_def hist_len_def)
  have ft: "paged_fits R (p, new_pcache) (sum_list (map length chunks))"
    using assms(7) pool_wf_bs [OF assms(2)] by (simp add: paged_fits_fresh)
  obtain out r1 s1 h1 where 1: "run_passes M (solo update, paged_len) chunks (r, (p, new_pcache)) = (out, (r1, s1))"
    "run_passes M (hist_update, hist_len) chunks (r, ?h) = (out, (r1, h1))"
    using paged.passes_sim [OF empty_hist_paged [OF assms(2,3)] ft h(1,2)] by blast
  obtain outs r' where "run_passes M (hist_update, hist_len) chunks (r, ?h) =
      (Ret outs, (r', snd (hist_pass M r (hist_len ?h) (concat chunks) ?h)))"
    "concat (map (\<lambda>out. out ! 0) outs) = map (lm_out M) (fst (hist_pass M r (hist_len ?h) (concat chunks) ?h))"
    using passes_hist [OF assms(1,4,5,6) h(3,2)] by blast
  then show ?thesis
    using 1 lm_none [OF assms(5,6), of "()"] h(4) by simp
qed

lemma demo_sdpa_doc: "sdpa_doc (sdpa demo_model) demo_att"
  by (simp add: sdpa_doc_def demo_model_def)

theorem incremental_decoding_correct_witness:
  "\<exists>outs r1 st r2.
    run_passes demo_model (solo update, paged_len) [[1, 2, 3], [4], [5]]
      (new_rope 16 128 10000, (new_pool [] TINY 3 2 2, new_pcache)) = (Ret outs, (r1, st)) \<and>
    nano_causal_lm demo_model [[1, 2, 3, 4, 5]] None None None (new_rope 16 128 10000, ()) =
      (Ret [concat (map (\<lambda>out. out ! 0) outs)], (r2, ()))"
proof -
  have c: "ceil_div (Suc (Suc (Suc (Suc (Suc 0))))) 2 = 3" by (rule ceil_div_unique) simp_all
  have p: "pool_wf (new_pool [] TINY 3 2 2) {#}" by (rule new_pool_wf) simp
  have l: "num_hidden_layers (cfg (new_pool [] TINY 3 2 2)) = length (mlayers demo_model)" "mlayers demo_model \<noteq> []"
    by (simp_all add: new_pool_def Let_def demo_model_def TINY_def)
  have v: "\<forall>t \<in> set (concat [[1, 2, 3], [4], [5]]). t < vocab_size (mcfg demo_model)"
    by (simp add: demo_model_def TINY_def)
  have f: "ceil_div (sum_list (map length [[1, 2, 3], [4], [5::nat]])) (block_size (new_pool [] TINY 3 2 2)) \<le>
      num_free (alloc (new_pool [] TINY 3 2 2))"
    using c by (simp add: new_pool_def Let_def num_free_def new_allocator_def)
  from incremental_decoding_correct [OF demo_sdpa_doc p l new_rope_wf v] show ?thesis
    using f by simp
qed

end
