(* ===== verification/Batched_Cache.thy ===== *)
theory Batched_Cache
  imports Incremental
begin

text \<open>
  \<^verbatim>\<open>BatchedPagedCache\<close> of \<^verbatim>\<open>engine/scheduler.py\<close>: one decode step over several sequences, each with its own
  block table. Preparation counts the blocks the step needs before it takes any, grows every sequence by one token and
  builds the write slots, the right-padded read index and the padding mask; an update is then one scatter and one gather
  per layer. The pinned staging buffer and the device copies are the identity here.

  The result is that batching is invisible: masked, padded and interleaved with the others, each sequence gets the
  logits it would get alone (\<open>batched_decode_equals_solo\<close>).
\<close>

record batch_prep =
  write_slots :: "nat list"
  read_index :: "nat list list"
  bmask :: mask

type_synonym batch_state = "kv_row pool \<times> pcache list \<times> batch_prep option"

section \<open>Preparation\<close>

fun batch_need :: "'r pool \<Rightarrow> pcache list \<Rightarrow> nat outcome" where
  "batch_need p [] = Ret 0"
| "batch_need p (c # cs) =
     (case batch_need p cs of
        Raise e \<Rightarrow> Raise e
      | Ret n \<Rightarrow>
          if num_tokens c mod block_size p = 0 then Ret (Suc n)
          else if block_table c \<noteq> []
          then (case ref_count (alloc p) (last (block_table c)) of
                  Raise e \<Rightarrow> Raise e
                | Ret r \<Rightarrow> Ret (if r > 1 then Suc n else n))
          else Ret n)"

definition grow_one :: "'r pstate \<Rightarrow> nat outcome \<times> 'r pstate" where
  "grow_one st =
     (case st of (p, c) \<Rightarrow>
        bindS (if num_tokens c mod block_size p \<noteq> 0 then unshare_tail (p, c) else (Ret (), (p, c)))
          (\<lambda>_ st. bindS (ensure_capacity 1 st)
            (\<lambda>_ (p, c). let pos = num_tokens c; bs = block_size p in
               (Ret (block_table c ! (pos div bs) * bs + pos mod bs), (p, c\<lparr>num_tokens := num_tokens c + 1\<rparr>)))))"

fun grow_all :: "'r pool \<Rightarrow> pcache list \<Rightarrow> nat list outcome \<times> ('r pool \<times> pcache list)" where
  "grow_all p [] = (Ret [], (p, []))"
| "grow_all p (c # cs) =
     (case grow_one (p, c) of
        (Raise e, (p', c')) \<Rightarrow> (Raise e, (p', c' # cs))
      | (Ret w, (p', c')) \<Rightarrow>
          (case grow_all p' cs of
             (Raise e, (p'', cs')) \<Rightarrow> (Raise e, (p'', c' # cs'))
           | (Ret ws, (p'', cs')) \<Rightarrow> (Ret (w # ws), (p'', c' # cs'))))"

definition pad_to :: "nat \<Rightarrow> nat list \<Rightarrow> nat list" where
  "pad_to n xs = xs @ replicate (n - length xs) 0"

definition build_index :: "nat list \<Rightarrow> pcache list \<Rightarrow> batch_prep" where
  "build_index ws cs =
     (let lengths = map num_tokens cs; max_len = Max (set lengths)
      in \<lparr>write_slots = ws,
          read_index = (let rows = map (\<lambda>c. take (num_tokens c) (slots c)) cs
                        in map (pad_to (Max (set (map length rows)))) rows),
          bmask = map (\<lambda>n. [map (\<lambda>j. j < n) [0..<max_len]]) lengths\<rparr>)"

definition prepare :: "batch_state \<Rightarrow> unit outcome \<times> batch_state" where
  "prepare st =
     (case st of (p, cs, bp) \<Rightarrow>
        (case batch_need p cs of
           Raise e \<Rightarrow> (Raise e, st)
         | Ret need \<Rightarrow>
             if need > num_free (alloc p) then (Raise OutOfBlocks, st)
             else (case grow_all p cs of
                     (Raise e, (p, cs)) \<Rightarrow> (Raise e, (p, cs, bp))
                   | (Ret ws, (p, cs)) \<Rightarrow>
                       if cs = [] then (Raise (ValueError ''max() arg is an empty sequence''), (p, cs, bp))
                       else (Ret (), (p, cs, Some (build_index ws cs))))))"

section \<open>The protocol\<close>

definition batched_write :: "nat \<Rightarrow> kv_tensor \<Rightarrow> kv_tensor \<Rightarrow> batch_state \<Rightarrow> (kv_tensor \<times> kv_tensor) outcome \<times> batch_state" where
  "batched_write l k v st =
     (case st of (p, cs, bp) \<Rightarrow>
        (case bp of
           None \<Rightarrow> (Raise TypeError, st)
         | Some b \<Rightarrow>
             if l \<ge> length (kmem p) then (Raise IndexError, st)
             else if length k \<noteq> length (write_slots b) \<or> length v \<noteq> length (write_slots b)
             then (Raise (RuntimeError ''shape mismatch''), st)
             else let p' = p\<lparr>kmem := (kmem p)[l := scatter (write_slots b) (map (\<lambda>rows. rows ! 0) k) (kmem p ! l)],
                             vmem := (vmem p)[l := scatter (write_slots b) (map (\<lambda>rows. rows ! 0) v) (vmem p ! l)]\<rparr>
                  in (Ret (map (gather (kmem p' ! l)) (read_index b), map (gather (vmem p' ! l)) (read_index b)), (p', cs, bp))))"

definition batched_update :: "batch_state kv_update" where
  "batched_update l k v st =
     bindS (if l = 0 \<and> snd (snd st) = None then prepare st else (Ret (), st)) (\<lambda>_ st. batched_write l k v st)"

definition batched_len :: "batch_state \<Rightarrow> nat" where
  "batched_len st = (case st of (p, cs, bp) \<Rightarrow> if cs = [] then 0 else Max (set (map num_tokens cs)))"

definition cache_mask :: "batch_state \<Rightarrow> mask option outcome \<times> batch_state" where
  "cache_mask st =
     bindS (if snd (snd st) = None then prepare st else (Ret (), st))
       (\<lambda>_ st. (Ret (map_option bmask (snd (snd st))), st))"

text \<open>The forward pass of a decode step, as \<^verbatim>\<open>step\<close> makes it: one token per sequence at its own position, the rotary
  tables grown first.\<close>

definition decode_forward :: "model_w \<Rightarrow> nat list \<Rightarrow> rope \<times> batch_state \<Rightarrow> hidden outcome \<times> (rope \<times> batch_state)" where
  "decode_forward M toks st =
     (case st of (r, (p, cs, bp)) \<Rightarrow>
        let positions = map (\<lambda>c. [num_tokens c]) cs;
            r = rope_ensure_capacity (Max (set (map num_tokens cs)) + 1) r
        in (case cache_mask (p, cs, bp) of
              (Raise e, b) \<Rightarrow> (Raise e, (r, b))
            | (Ret m, b) \<Rightarrow>
                nano_causal_lm M (map (\<lambda>t. [t]) toks) (Some positions) (Some (batched_update, batched_len)) m (r, b)))"

section \<open>Invariants\<close>

definition tables :: "pcache list \<Rightarrow> nat multiset" where
  "tables cs = mset (concat (map block_table cs))"

definition need_of :: "'r pool \<Rightarrow> nat multiset \<Rightarrow> pcache \<Rightarrow> nat" where
  "need_of p M c =
     (if num_tokens c mod block_size p = 0 then 1
      else if block_table c \<noteq> [] \<and> 1 < count M (last (block_table c)) then 1 else 0)"

text \<open>After preparation: sequence \<open>i\<close> has one more token, its new slot lies in a block only it references, and its old
  rows are where they were.\<close>

definition grown :: "'r pool \<Rightarrow> pcache \<Rightarrow> 'r pool \<Rightarrow> pcache \<Rightarrow> nat \<Rightarrow> nat multiset \<Rightarrow> bool" where
  "grown p c p' c' w M \<longleftrightarrow>
     cache_wf p' c' \<and> num_tokens c' = Suc (num_tokens c) \<and> num_tokens c < length (slots c') \<and>
     w = slots c' ! num_tokens c \<and> count M (w div block_size p') = 1 \<and>
     (\<forall>l < num_hidden_layers (cfg p). k_rows p' c' (num_tokens c) l = k_rows p c (num_tokens c) l \<and>
        v_rows p' c' (num_tokens c) l = v_rows p c (num_tokens c) l)"

section \<open>Growing one sequence is beginning a pass of one token\<close>

lemma unshare_tail_start:
  "unshare_tail (p, c\<lparr>start_pos := x\<rparr>) =
    (case unshare_tail (p, c) of (r, (p', c')) \<Rightarrow> (r, (p', c'\<lparr>start_pos := x\<rparr>)))"
  by (simp add: unshare_tail_def Let_def split: outcome.splits option.splits prod.splits)

lemma append_block_start: "append_block p b (c\<lparr>start_pos := x\<rparr>) = (append_block p b c)\<lparr>start_pos := x\<rparr>"
  by (simp add: append_block_def)

lemma ensure_loop_start:
  "ensure_loop n (p, c\<lparr>start_pos := x\<rparr>) =
    (case ensure_loop n (p, c) of (r, (p', c')) \<Rightarrow> (r, (p', c'\<lparr>start_pos := x\<rparr>)))"
proof (induction n arbitrary: p c)
  case 0
  then show ?case by simp
next
  case (Suc n)
  show ?case
    by (cases "allocate (alloc p)"; cases "fst (allocate (alloc p))")
      (simp_all add: append_block_start Suc.IH split: prod.splits)
qed

lemma ensure_capacity_start:
  "ensure_capacity n (p, c\<lparr>start_pos := x\<rparr>) =
    (case ensure_capacity n (p, c) of (r, (p', c')) \<Rightarrow> (r, (p', c'\<lparr>start_pos := x\<rparr>)))"
  by (simp add: ensure_capacity_def Let_def ensure_loop_start)

lemma grow_one_ok:
  assumes wf: "pool_wf p (mset (block_table c) + R)" and cw: "cache_wf p c"
    and fr: "pass_need p c R 1 \<le> num_free (alloc p)"
  shows "\<exists>p' c' w. grow_one (p, c) = (Ret w, (p', c')) \<and>
    pool_wf p' (mset (block_table c') + R) \<and> cache_wf p' c' \<and> num_tokens c' = Suc (num_tokens c) \<and>
    num_tokens c < length (slots c') \<and> w = slots c' ! num_tokens c \<and> w div block_size p' \<notin># R \<and>
    set (block_table c') \<inter> set_mset R \<subseteq> set (block_table c) \<and>
    same_blocks (\<lambda>b. b \<in># R) p p' \<and> pool_frame p p' \<and>
    (\<forall>l < num_hidden_layers (cfg p). k_rows p' c' (num_tokens c) l = k_rows p c (num_tokens c) l \<and>
       v_rows p' c' (num_tokens c) l = v_rows p c (num_tokens c) l) \<and>
    num_free (alloc p') = num_free (alloc p) - pass_need p c R 1"
proof -
  let ?n0 = "num_tokens c"
  obtain p' c' where b: "begin_pass 1 (p, c) = (Ret (), (p', c'))" "pass_ready p' c' R 1" "start_pos c' = ?n0"
    "set (block_table c') \<inter> set_mset R \<subseteq> set (block_table c)" "same_blocks (\<lambda>b. b \<in># R) p p'" "pool_frame p p'"
    "\<forall>l < num_hidden_layers (cfg p). k_rows p' c' ?n0 l = k_rows p c ?n0 l \<and> v_rows p' c' ?n0 l = v_rows p c ?n0 l"
    "num_free (alloc p') = num_free (alloc p) - pass_need p c R 1"
    using begin_pass_ok [OF wf cw fr] by blast
  obtain p1 c1 where u: "(if ?n0 mod block_size p \<noteq> 0 then unshare_tail (p, c) else (Ret (), (p, c))) = (Ret (), (p1, c1))"
    using b(1) by (auto simp: begin_pass_def Let_def bindS_eq_Ret unshare_tail_start split: if_splits prod.splits)
  obtain p2 c2 where e: "ensure_capacity 1 (p1, c1) = (Ret (), (p2, c2))"
    using b(1) u by (auto simp: begin_pass_def Let_def bindS_eq_Ret unshare_tail_start ensure_capacity_start
        split: if_splits prod.splits)
  have c': "p' = p2" "c' = c2\<lparr>start_pos := ?n0, num_tokens := num_tokens c2 + 1\<rparr>"
    using b(1) u e by (auto simp: begin_pass_def Let_def bindS_eq_Ret unshare_tail_start ensure_capacity_start
        split: if_splits prod.splits)
  let ?c = "c2\<lparr>num_tokens := num_tokens c2 + 1\<rparr>"
  have nt: "num_tokens c2 = ?n0" using b(2,3) c' by (simp add: pass_ready_def)
  have bs: "block_size p' = block_size p" "0 < block_size p'"
    using b(2,6) by (simp_all add: pool_frame_def pass_ready_def) (use b(2) in \<open>auto simp: pass_ready_def dest: pool_wf_bs\<close>)
  have pr: "pool_wf p' (mset (block_table c') + R)" "cache_wf p' c'" "writable p' c' R" "num_tokens c' = ?n0 + 1"
    using b(2,3) by (simp_all add: pass_ready_def)
  have sl: "slots c' = table_slots (block_size p') (block_table c')" "length (block_table c') = ceil_div (num_tokens c') (block_size p')"
    using pr(2) by (simp_all add: cache_wf_def table_wf_def)
  have lt: "?n0 < length (slots c')"
    using ceil_div_bounds(1) [OF bs(2), of "num_tokens c'"] pr(4) sl by simp
  have w: "block_table c2 ! (?n0 div block_size p') * block_size p' + ?n0 mod block_size p' = slots c' ! ?n0"
    using nth_table_slots [OF bs(2), of ?n0 "block_table c'"] sl lt c' by simp
  have "slots c' ! ?n0 \<in> set (drop (start_pos c') (slots c'))"
    using lt b(3) by (metis Cons_nth_drop_Suc list.set_intros(1))
  then have priv: "slots c' ! ?n0 div block_size p' \<notin># R" using pr(3) by (simp add: writable_def)
  have run: "grow_one (p, c) = (Ret (slots c' ! ?n0), (p', ?c))"
    using u e c' nt w by (simp add: grow_one_def Let_def)
  have eq: "block_table ?c = block_table c'" "slots ?c = slots c'" "num_tokens ?c = num_tokens c'" using c' by simp_all
  have "cache_wf p' ?c" using pr(2) eq by (simp add: cache_wf_def table_wf_def)
  moreover have "k_rows p' ?c = k_rows p' c'" "v_rows p' ?c = v_rows p' c'"
    using eq by (simp_all add: k_rows_def [abs_def] v_rows_def [abs_def])
  ultimately show ?thesis
    using run pr lt priv b(4-8) eq by (intro exI [of _ p'] exI [of _ ?c] exI [of _ "slots c' ! ?n0"]) simp
qed

section \<open>Growing the batch\<close>

lemma tables_Nil [simp]: "tables [] = {#}"
  by (simp add: tables_def)

lemma tables_Cons [simp]: "tables (c # cs) = mset (block_table c) + tables cs"
  by (simp add: tables_def)

lemma tables_member: "c \<in> set cs \<Longrightarrow> set (block_table c) \<subseteq> set_mset (tables cs)"
  by (auto simp: tables_def)

lemma cache_wf_frame: "pool_frame p q \<Longrightarrow> cache_wf q c \<longleftrightarrow> cache_wf p c"
  by (simp add: pool_frame_def cache_wf_def table_wf_def)

lemma count_own:
  "distinct bt \<Longrightarrow> b \<in> set bt \<Longrightarrow> count (mset bt + R) b = Suc (count R b)"
  by (simp add: distinct_count_atmost_1)

lemma need_of_pass:
  assumes "0 < block_size p" and "cache_wf p c"
  shows "pass_need p c R 1 = need_of p (mset (block_table c) + R) c"
proof -
  have "last (block_table c) \<in># R \<longleftrightarrow> 1 < count (mset (block_table c) + R) (last (block_table c))"
    if "block_table c \<noteq> []"
    using assms(2) that count_own [of "block_table c" "last (block_table c)" R]
    by (simp add: cache_wf_def table_wf_def)
  then show ?thesis
    using assms by (auto simp: pass_need_def need_of_def cow_needed_def cache_wf_def ceil_div_Suc)
qed

lemma need_of_mono:
  assumes "block_size q = block_size p" and "\<And>b. b \<in> set (block_table c) \<Longrightarrow> count N b \<le> count M b"
  shows "need_of q N c \<le> need_of p M c"
  using assms(2) [of "last (block_table c)"] by (auto simp: need_of_def assms(1))

lemma batch_need_sum:
  assumes "pool_wf p M" and "set_mset (tables cs) \<subseteq> set_mset M"
  shows "batch_need p cs = Ret (sum_list (map (need_of p M) cs))"
  using assms(2)
proof (induction cs)
  case Nil
  then show ?case by simp
next
  case (Cons c cs)
  have "ref_count (alloc p) (last (block_table c)) = Ret (count M (last (block_table c)))" if "block_table c \<noteq> []"
    using Cons.prems that assms(1) last_in_set [OF that]
    by (intro ba.count_held) (auto simp del: last_in_set dest: pool_wf_allocD intro: pool_wf_bounded)
  then show ?case using Cons by (simp add: need_of_def)
qed

lemma grown_frame:
  assumes "grown p c p1 c' w N" and "same_blocks (\<lambda>b. b \<in> set (block_table c')) p1 p2" and "pool_frame p p1" "pool_frame p1 p2"
    and "pool_wf p1 N'" "set (block_table c') \<subseteq> set_mset N'" and "count M (w div block_size p1) = 1"
  shows "grown p c p2 c' w M"
proof -
  have "k_rows p2 c' n l = k_rows p1 c' n l \<and> v_rows p2 c' n l = v_rows p1 c' n l"
    if "l < num_hidden_layers (cfg p)" for n l
    using assms that by (intro rows_same_blocks [OF assms(2), where M = N']) (auto simp: grown_def cache_wf_def pool_frame_def)
  then show ?thesis
    using assms cache_wf_frame [OF assms(4)] by (auto simp: grown_def pool_frame_def)
qed

lemma grown_before:
  assumes "grown p1 c p2 c' w M" and "same_blocks (\<lambda>b. b \<in># R) p p1" "pool_frame p p1" and "pool_wf p (N + R)"
    and "cache_wf p c" "set (block_table c) \<subseteq> set_mset R"
  shows "grown p c p2 c' w M"
proof -
  have "k_rows p1 c n l = k_rows p c n l \<and> v_rows p1 c n l = v_rows p c n l"
    if "l < num_hidden_layers (cfg p)" for n l
    using assms that by (intro rows_same_blocks [OF assms(2), where M = "N + R"]) (auto simp: cache_wf_def)
  then show ?thesis using assms(1,3) by (auto simp: grown_def pool_frame_def)
qed

lemma grow_one_grown:
  assumes wf: "pool_wf p (mset (block_table c) + R)" and cw: "cache_wf p c"
    and fr: "need_of p (mset (block_table c) + R) c \<le> num_free (alloc p)"
  shows "\<exists>p' c' w. grow_one (p, c) = (Ret w, (p', c')) \<and>
    pool_wf p' (mset (block_table c') + R) \<and> grown p c p' c' w (mset (block_table c') + R) \<and>
    w div block_size p' \<in> set (block_table c') \<and> w div block_size p' \<notin># R \<and>
    set (block_table c') \<inter> set_mset R \<subseteq> set (block_table c) \<and>
    same_blocks (\<lambda>b. b \<in># R) p p' \<and> pool_frame p p' \<and>
    num_free (alloc p') = num_free (alloc p) - need_of p (mset (block_table c) + R) c"
proof -
  have bs: "0 < block_size p" using wf by (rule pool_wf_bs)
  note need = need_of_pass [OF bs cw, of R]
  obtain p1 c1 w where g: "grow_one (p, c) = (Ret w, (p1, c1))" "pool_wf p1 (mset (block_table c1) + R)" "cache_wf p1 c1"
    "num_tokens c1 = Suc (num_tokens c)" "num_tokens c < length (slots c1)" "w = slots c1 ! num_tokens c"
    "w div block_size p1 \<notin># R" "set (block_table c1) \<inter> set_mset R \<subseteq> set (block_table c)"
    "same_blocks (\<lambda>b. b \<in># R) p p1" "pool_frame p p1"
    "\<forall>l < num_hidden_layers (cfg p). k_rows p1 c1 (num_tokens c) l = k_rows p c (num_tokens c) l \<and>
       v_rows p1 c1 (num_tokens c) l = v_rows p c (num_tokens c) l"
    "num_free (alloc p1) = num_free (alloc p) - pass_need p c R 1"
    using grow_one_ok [OF wf cw] fr need by auto
  have tw: "slots c1 = table_slots (block_size p1) (block_table c1)" "distinct (block_table c1)"
    using g(3) by (simp_all add: cache_wf_def table_wf_def)
  have own: "w div block_size p1 \<in> set (block_table c1)"
    using nth_mem [OF g(5)] g(6) tw(1) set_table_slots [OF pool_wf_bs [OF g(2)]] by auto
  have "count (mset (block_table c1) + R) (w div block_size p1) = 1"
    using count_own [OF tw(2) own, of R] g(7) by (simp add: not_in_iff)
  then have "grown p c p1 c1 w (mset (block_table c1) + R)" using g by (simp add: grown_def)
  then show ?thesis using g own need by auto
qed

lemma grow_all_ok:
  assumes "pool_wf p (tables cs + R)" and "\<forall>c \<in> set cs. cache_wf p c"
    and "sum_list (map (need_of p (tables cs + R)) cs) \<le> num_free (alloc p)"
  shows "\<exists>p' cs' ws. grow_all p cs = (Ret ws, (p', cs')) \<and> length cs' = length cs \<and> length ws = length cs \<and>
    pool_wf p' (tables cs' + R) \<and> same_blocks (\<lambda>b. b \<in># R) p p' \<and> pool_frame p p' \<and>
    set_mset (tables cs') \<inter> set_mset R \<subseteq> set_mset (tables cs) \<and>
    (\<forall>i < length cs. grown p (cs ! i) p' (cs' ! i) (ws ! i) (tables cs' + R))"
  using assms
proof (induction cs arbitrary: p R)
  case Nil
  then show ?case by simp
next
  case (Cons c cs)
  let ?R = "tables cs + R" and ?M = "mset (block_table c) + (tables cs + R)"
  have wf: "pool_wf p ?M" using Cons.prems(1) by (simp add: add.assoc)
  have cw: "cache_wf p c" using Cons.prems(2) by simp
  have tot: "need_of p ?M c + sum_list (map (need_of p ?M) cs) \<le> num_free (alloc p)"
    using Cons.prems(3) by (simp add: add.assoc)
  obtain p1 c1 w where g: "grow_one (p, c) = (Ret w, (p1, c1))" "pool_wf p1 (mset (block_table c1) + ?R)"
    "grown p c p1 c1 w (mset (block_table c1) + ?R)" "w div block_size p1 \<in> set (block_table c1)"
    "w div block_size p1 \<notin># ?R" "set (block_table c1) \<inter> set_mset ?R \<subseteq> set (block_table c)"
    "same_blocks (\<lambda>b. b \<in># ?R) p p1" "pool_frame p p1" "num_free (alloc p1) = num_free (alloc p) - need_of p ?M c"
    using grow_one_grown [OF wf cw] tot by auto
  have dist: "distinct (block_table c1)" using g(3) by (simp add: grown_def cache_wf_def table_wf_def)
  let ?R1 = "mset (block_table c1) + R"
  have eqM: "tables xs + ?R1 = mset (block_table c1) + (tables xs + R)" for xs
    by (simp add: add.left_commute)
  have wf1: "pool_wf p1 (tables cs + ?R1)" using g(2) by (simp only: eqM)
  have cnt: "count (tables cs + ?R1) b \<le> count ?M b" if "b \<in># tables cs" for b
    using g(6) that cw dist by (auto simp: cache_wf_def table_wf_def distinct_count_atmost_1)
  have "need_of p1 (tables cs + ?R1) x \<le> need_of p ?M x" if "x \<in> set cs" for x
    using cnt tables_member [OF that] g(8) by (intro need_of_mono) (auto simp: pool_frame_def)
  then have fr1: "sum_list (map (need_of p1 (tables cs + ?R1)) cs) \<le> num_free (alloc p1)"
    using sum_list_mono [of cs "need_of p1 (tables cs + ?R1)" "need_of p ?M"] tot g(9) by simp
  obtain p2 cs2 ws where t: "grow_all p1 cs = (Ret ws, (p2, cs2))" "length cs2 = length cs" "length ws = length cs"
    "pool_wf p2 (tables cs2 + ?R1)" "same_blocks (\<lambda>b. b \<in># ?R1) p1 p2" "pool_frame p1 p2"
    "set_mset (tables cs2) \<inter> set_mset ?R1 \<subseteq> set_mset (tables cs)"
    "\<forall>i < length cs. grown p1 (cs ! i) p2 (cs2 ! i) (ws ! i) (tables cs2 + ?R1)"
    using Cons.IH [OF wf1 _ fr1] Cons.prems(2) cache_wf_frame [OF g(8)] by auto
  have "w div block_size p1 \<notin># tables cs2 + R" using t(7) g(4,5) by auto
  then have "count (mset (block_table c1) + (tables cs2 + R)) (w div block_size p1) = 1"
    using count_own [OF dist g(4)] by (simp add: not_in_iff)
  then have head: "grown p c p2 c1 w (tables cs2 + ?R1)"
    unfolding eqM by (intro grown_frame [OF g(3) _ g(8) t(6) g(2)] same_blocks_mono [OF t(5)]) auto
  have "grown p (cs ! i) p2 (cs2 ! i) (ws ! i) (tables cs2 + ?R1)" if "i < length cs" for i
  proof (rule grown_before [OF _ g(7,8) wf])
    show "grown p1 (cs ! i) p2 (cs2 ! i) (ws ! i) (tables cs2 + ?R1)" using t(8) that by blast
    show "cache_wf p (cs ! i)" using Cons.prems(2) that by simp
    show "set (block_table (cs ! i)) \<subseteq> set_mset ?R" using tables_member [OF nth_mem [OF that]] by auto
  qed
  then show ?case
    using g(1) t head g(6) same_blocks_trans [OF same_blocks_mono [OF g(7)] same_blocks_mono [OF t(5)] g(8), of "\<lambda>b. b \<in># R"]
      pool_frame_trans [OF g(8) t(6)]
    by (intro exI [of _ p2] exI [of _ "c1 # cs2"] exI [of _ "w # ws"]) (auto simp: nth_Cons eqM add.assoc split: nat.splits)
qed

section \<open>Preparation succeeds exactly when the blocks are there\<close>

definition hist_of :: "kv_row pool \<Rightarrow> pcache \<Rightarrow> hist" where
  "hist_of p c = map (\<lambda>l. (k_rows p c (num_tokens c) l, v_rows p c (num_tokens c) l)) [0..<num_hidden_layers (cfg p)]"

definition batch_ok :: "'r pool \<Rightarrow> pcache list \<Rightarrow> nat multiset \<Rightarrow> bool" where
  "batch_ok p cs R \<longleftrightarrow> pool_wf p (tables cs + R) \<and> (\<forall>c \<in> set cs. cache_wf p c)"

text \<open>Between preparation and the last layer's write: in the layers below \<open>l\<close> the new row is stored.\<close>

definition seq_mid :: "kv_row pool \<Rightarrow> pcache \<Rightarrow> nat \<Rightarrow> nat multiset \<Rightarrow> nat \<Rightarrow> hist \<Rightarrow> bool" where
  "seq_mid p c w M l h \<longleftrightarrow>
     cache_wf p c \<and> 0 < num_tokens c \<and> num_tokens c \<le> length (slots c) \<and> w = slots c ! (num_tokens c - 1) \<and>
     count M (w div block_size p) = 1 \<and>
     h = map (\<lambda>j. let m = (if j < l then num_tokens c else num_tokens c - 1) in (k_rows p c m j, v_rows p c m j))
           [0..<num_hidden_layers (cfg p)]"

definition batch_mid :: "nat multiset \<Rightarrow> nat \<Rightarrow> kv_row pool \<Rightarrow> pcache list \<Rightarrow> nat list \<Rightarrow> hist list \<Rightarrow> bool" where
  "batch_mid R l p cs ws hs \<longleftrightarrow>
     cs \<noteq> [] \<and> length ws = length cs \<and> length hs = length cs \<and> pool_wf p (tables cs + R) \<and>
     (\<forall>i < length cs. seq_mid p (cs ! i) (ws ! i) (tables cs + R) l (hs ! i))"

lemma prepare_ok:
  assumes ok: "batch_ok p cs R" and ne: "cs \<noteq> []" and need: "batch_need p cs = Ret n" "n \<le> num_free (alloc p)"
  shows "\<exists>p' cs' ws. prepare (p, cs, bp) = (Ret (), (p', cs', Some (build_index ws cs'))) \<and>
    batch_mid R 0 p' cs' ws (map (hist_of p) cs) \<and> same_blocks (\<lambda>b. b \<in># R) p p' \<and> pool_frame p p' \<and>
    map num_tokens cs' = map (Suc \<circ> num_tokens) cs"
proof -
  have wf: "pool_wf p (tables cs + R)" and cw: "\<forall>c \<in> set cs. cache_wf p c" using ok by (simp_all add: batch_ok_def)
  have "n = sum_list (map (need_of p (tables cs + R)) cs)" using batch_need_sum [OF wf, of cs] need(1) by simp
  then obtain p' cs' ws where g: "grow_all p cs = (Ret ws, (p', cs'))" "length cs' = length cs" "length ws = length cs"
    "pool_wf p' (tables cs' + R)" "same_blocks (\<lambda>b. b \<in># R) p p'" "pool_frame p p'"
    "\<forall>i < length cs. grown p (cs ! i) p' (cs' ! i) (ws ! i) (tables cs' + R)"
    using grow_all_ok [OF wf cw] need(2) by auto
  have "seq_mid p' (cs' ! i) (ws ! i) (tables cs' + R) 0 (map (hist_of p) cs ! i)" if "i < length cs" for i
    using g(6,7) that by (auto simp: seq_mid_def grown_def hist_of_def pool_frame_def Let_def)
  then have "batch_mid R 0 p' cs' ws (map (hist_of p) cs)"
    using g ne by (auto simp: batch_mid_def)
  moreover have "map num_tokens cs' = map (Suc \<circ> num_tokens) cs"
    using g(2,7) by (intro nth_equalityI) (auto simp: grown_def)
  ultimately show ?thesis
    using g need ne by (intro exI [of _ p'] exI [of _ cs'] exI [of _ ws]) (auto simp: prepare_def)
qed

section \<open>One write for the whole batch\<close>

lemma tables_two:
  assumes "i < length cs" "j < length cs" "i \<noteq> j" and "b \<in> set (block_table (cs ! i))" "b \<in> set (block_table (cs ! j))"
  shows "2 \<le> count (tables cs) b"
proof -
  let ?f = "\<lambda>k. count (mset (block_table (cs ! k))) b"
  have "count (tables cs) b = sum_list (map (\<lambda>c. count (mset (block_table c)) b) cs)"
    by (induction cs) simp_all
  also have "\<dots> = (\<Sum>k<length cs. ?f k)"
    by (simp add: sum_list_sum_nth atLeast0LessThan)
  also have "\<dots> \<ge> (\<Sum>k\<in>{i, j}. ?f k)"
    using assms by (intro sum_mono2) auto
  also have "(\<Sum>k\<in>{i, j}. ?f k) = ?f i + ?f j" using assms(3) by simp
  finally have "?f i + ?f j \<le> count (tables cs) b" .
  moreover have "0 < ?f i" "0 < ?f j" using assms(4,5) by (simp_all add: count_greater_zero_iff del: count_mset_0_iff)
  ultimately show ?thesis by linarith
qed

lemma batch_slots:
  assumes mid: "batch_mid R l p cs ws hs" and i: "i < length cs"
  shows "ws ! i \<in> set (slots (cs ! i))" and "ws ! i < num_blocks (alloc p) * block_size p"
    and "j < length cs \<Longrightarrow> j \<noteq> i \<Longrightarrow> ws ! i \<notin> set (slots (cs ! j))"
proof -
  have sm: "\<forall>j < length cs. seq_mid p (cs ! j) (ws ! j) (tables cs + R) l (hs ! j)" and wf: "pool_wf p (tables cs + R)"
    using mid by (auto simp: batch_mid_def)
  have bs: "0 < block_size p" using wf by (rule pool_wf_bs)
  have blk: "s div block_size p \<in> set (block_table (cs ! j))" if "j < length cs" "s \<in> set (slots (cs ! j))" for s j
    using sm that set_table_slots [OF bs] by (auto simp: seq_mid_def cache_wf_def table_wf_def)
  show mem: "ws ! i \<in> set (slots (cs ! i))"
    using sm i by (auto simp: seq_mid_def intro!: nth_mem)
  have "ws ! i div block_size p \<in># tables cs + R"
    using blk [OF i mem] tables_member [OF nth_mem [OF i]] by auto
  then show "ws ! i < num_blocks (alloc p) * block_size p"
    using pool_wf_bounded [OF wf, of "ws ! i div block_size p"] bs by (auto simp: div_less_iff_less_mult)
  have "count (tables cs) (ws ! i div block_size p) < 2"
    using sm i by (auto simp: seq_mid_def)
  then show "ws ! i \<notin> set (slots (cs ! j))" if "j < length cs" "j \<noteq> i"
    using tables_two [OF i that(1) _ blk [OF i mem] blk [OF that(1)]] that(2) by fastforce
qed

lemma batch_slots_private:
  assumes mid: "batch_mid R l p cs ws hs" and i: "i < length cs"
  shows "distinct ws" and "\<forall>s \<in> set ws. s < num_blocks (alloc p) * block_size p"
    and "take (num_tokens (cs ! i)) (slots (cs ! i)) = take (num_tokens (cs ! i) - 1) (slots (cs ! i)) @ [ws ! i]"
    and "set ws \<inter> set (take (num_tokens (cs ! i) - 1) (slots (cs ! i))) = {}"
proof -
  note sl = batch_slots [OF mid]
  have lw: "length ws = length cs" using mid by (simp add: batch_mid_def)
  show "distinct ws" using sl(1,3) lw by (metis distinct_conv_nth)
  show "\<forall>s \<in> set ws. s < num_blocks (alloc p) * block_size p" using sl(2) lw by (auto simp: in_set_conv_nth)
  let ?c = "cs ! i" and ?n = "num_tokens (cs ! i)"
  have c: "0 < ?n" "?n \<le> length (slots ?c)" "ws ! i = slots ?c ! (?n - 1)" "distinct (slots ?c)"
    using mid i by (auto simp: batch_mid_def seq_mid_def cache_wf_def table_wf_def intro!: distinct_table_slots dest: pool_wf_bs)
  show split: "take ?n (slots ?c) = take (?n - 1) (slots ?c) @ [ws ! i]"
    using c take_Suc_conv_app_nth [of "?n - 1" "slots ?c"] by simp
  have "distinct (take (?n - 1) (slots ?c) @ [ws ! i])" using c(4) split distinct_take by metis
  then have "ws ! j \<notin> set (take (?n - 1) (slots ?c))" if "j < length cs" for j
    using sl(3) [OF that i] by (cases "j = i") (auto dest: in_set_takeD)
  then show "set ws \<inter> set (take (?n - 1) (slots ?c)) = {}"
    using lw by (metis disjoint_iff in_set_conv_nth)
qed

lemma batch_scatter:
  assumes mid: "batch_mid R l p cs ws hs" and i: "i < length cs" and ks: "length ks = length cs"
    and m: "length m = num_blocks (alloc p) * block_size p"
  shows "gather (scatter ws ks m) (take (num_tokens (cs ! i)) (slots (cs ! i))) =
      gather m (take (num_tokens (cs ! i) - 1) (slots (cs ! i))) @ [ks ! i]"
    and "gather (scatter ws ks m) (take (num_tokens (cs ! i) - 1) (slots (cs ! i))) =
      gather m (take (num_tokens (cs ! i) - 1) (slots (cs ! i)))"
proof -
  note sl = batch_slots_private [OF mid i]
  have lw: "length ws = length cs" using mid by (simp add: batch_mid_def)
  show old: "gather (scatter ws ks m) (take (num_tokens (cs ! i) - 1) (slots (cs ! i))) =
      gather m (take (num_tokens (cs ! i) - 1) (slots (cs ! i)))"
    by (rule gather_scatter_disjoint [OF sl(4)])
  have "scatter ws ks m ! (ws ! i) = ks ! i"
    using sl(1,2) lw i ks m by (intro scatter_inside) auto
  then show "gather (scatter ws ks m) (take (num_tokens (cs ! i)) (slots (cs ! i))) =
      gather m (take (num_tokens (cs ! i) - 1) (slots (cs ! i))) @ [ks ! i]"
    unfolding sl(3) using old by (simp add: gather_def)
qed

text \<open>What a layer's update adds to the history of sequence \<open>i\<close>.\<close>

definition hist_add :: "nat \<Rightarrow> kv_row \<Rightarrow> kv_row \<Rightarrow> hist \<Rightarrow> hist" where
  "hist_add l k v h = h[l := (fst (h ! l) @ [k], snd (h ! l) @ [v])]"

definition write_batch :: "nat \<Rightarrow> nat list \<Rightarrow> kv_row list \<Rightarrow> kv_row list \<Rightarrow> kv_row pool \<Rightarrow> kv_row pool" where
  "write_batch l ws ks vs p = p\<lparr>kmem := (kmem p)[l := scatter ws ks (kmem p ! l)], vmem := (vmem p)[l := scatter ws vs (vmem p ! l)]\<rparr>"

lemma write_batch_wf: "pool_wf p M \<Longrightarrow> l < num_hidden_layers (cfg p) \<Longrightarrow> pool_wf (write_batch l ws ks vs p) M"
  by (auto simp: pool_wf_def write_batch_def dest!: set_update_subset_insert [THEN subsetD])

lemma write_batch_mid:
  assumes mid: "batch_mid R l p cs ws hs" and l: "l < num_hidden_layers (cfg p)" and ks: "length ks = length cs" "length vs = length cs"
  shows "batch_mid R (Suc l) (write_batch l ws ks vs p) cs ws (map (\<lambda>i. hist_add l (ks ! i) (vs ! i) (hs ! i)) [0..<length cs])"
proof -
  let ?q = "write_batch l ws ks vs p"
  have wf: "pool_wf p (tables cs + R)" using mid by (simp add: batch_mid_def)
  have m: "length (kmem p ! l) = num_blocks (alloc p) * block_size p" "length (vmem p ! l) = num_blocks (alloc p) * block_size p"
    "l < length (kmem p)" "l < length (vmem p)"
    using wf l by (auto simp: pool_wf_def)
  have fr: "pool_frame p ?q" by (simp add: pool_frame_def write_batch_def)
  have "seq_mid ?q (cs ! i) (ws ! i) (tables cs + R) (Suc l) (hist_add l (ks ! i) (vs ! i) (hs ! i))" if i: "i < length cs" for i
  proof -
    let ?n = "num_tokens (cs ! i)"
    have sm: "seq_mid p (cs ! i) (ws ! i) (tables cs + R) l (hs ! i)" using mid i by (simp add: batch_mid_def)
    have new: "k_rows ?q (cs ! i) ?n l = k_rows p (cs ! i) (?n - 1) l @ [ks ! i]"
      "v_rows ?q (cs ! i) ?n l = v_rows p (cs ! i) (?n - 1) l @ [vs ! i]"
      using batch_scatter(1) [OF mid i ks(1) m(1)] batch_scatter(1) [OF mid i ks(2) m(2)] m(3,4)
      by (simp_all add: k_rows_def v_rows_def write_batch_def)
    have other: "k_rows ?q (cs ! i) k j = k_rows p (cs ! i) k j" "v_rows ?q (cs ! i) k j = v_rows p (cs ! i) k j"
      if "j \<noteq> l" for j k
      using that by (simp_all add: k_rows_def v_rows_def write_batch_def)
    have "hist_add l (ks ! i) (vs ! i) (hs ! i) =
        map (\<lambda>j. let m = (if j < Suc l then ?n else ?n - 1) in (k_rows ?q (cs ! i) m j, v_rows ?q (cs ! i) m j))
          [0..<num_hidden_layers (cfg ?q)]"
      using sm l new other fr
      by (intro nth_equalityI) (auto simp: seq_mid_def hist_add_def nth_list_update pool_frame_def less_Suc_eq Let_def)
    then show ?thesis
      using sm fr cache_wf_frame [OF fr] by (auto simp: seq_mid_def pool_frame_def)
  qed
  then show ?thesis
    using mid write_batch_wf [OF wf l] by (simp add: batch_mid_def)
qed

lemma build_index_row:
  assumes mid: "batch_mid R l p cs ws hs" and i: "i < length cs"
  shows "take (num_tokens (cs ! i)) (read_index (build_index ws cs) ! i) = take (num_tokens (cs ! i)) (slots (cs ! i))"
    and "length (read_index (build_index ws cs) ! i) = Max (set (map num_tokens cs))"
    and "num_tokens (cs ! i) \<le> Max (set (map num_tokens cs))"
    and "bmask (build_index ws cs) ! i = [map (\<lambda>j. j < num_tokens (cs ! i)) [0..<Max (set (map num_tokens cs))]]"
proof -
  let ?rows = "map (\<lambda>c. take (num_tokens c) (slots c)) cs"
  have len: "length (take (num_tokens c) (slots c)) = num_tokens c" if "c \<in> set cs" for c
    using mid that by (auto simp: batch_mid_def seq_mid_def in_set_conv_nth)
  then have mr: "map length ?rows = map num_tokens cs" by (simp add: comp_def)
  have ri: "read_index (build_index ws cs) ! i = pad_to (Max (set (map num_tokens cs))) (take (num_tokens (cs ! i)) (slots (cs ! i)))"
    unfolding build_index_def Let_def batch_prep.select_convs mr using i by simp
  show le: "num_tokens (cs ! i) \<le> Max (set (map num_tokens cs))" using i by (intro Max_ge) auto
  show "take (num_tokens (cs ! i)) (read_index (build_index ws cs) ! i) = take (num_tokens (cs ! i)) (slots (cs ! i))"
    using len [OF nth_mem [OF i]] by (simp add: ri pad_to_def)
  show "length (read_index (build_index ws cs) ! i) = Max (set (map num_tokens cs))"
    using len [OF nth_mem [OF i]] le by (simp add: ri pad_to_def)
  show "bmask (build_index ws cs) ! i = [map (\<lambda>j. j < num_tokens (cs ! i)) [0..<Max (set (map num_tokens cs))]]"
    using i by (simp add: build_index_def Let_def)
qed

lemma batched_write_ok:
  assumes mid: "batch_mid R l p cs ws hs" and l: "l < num_hidden_layers (cfg p)" and ks: "length ks = length cs" "length vs = length cs"
  shows "\<exists>K V. batched_write l (map (\<lambda>k. [k]) ks) (map (\<lambda>v. [v]) vs) (p, cs, Some (build_index ws cs)) =
      (Ret (K, V), (write_batch l ws ks vs p, cs, Some (build_index ws cs))) \<and>
    length K = length cs \<and> length V = length cs \<and>
    (\<forall>i < length cs. length (K ! i) = Max (set (map num_tokens cs)) \<and> length (V ! i) = Max (set (map num_tokens cs)) \<and>
       take (num_tokens (cs ! i)) (K ! i) = fst (hist_add l (ks ! i) (vs ! i) (hs ! i) ! l) \<and>
       take (num_tokens (cs ! i)) (V ! i) = snd (hist_add l (ks ! i) (vs ! i) (hs ! i) ! l))"
proof -
  let ?q = "write_batch l ws ks vs p" and ?b = "build_index ws cs"
  let ?K = "map (gather (kmem ?q ! l)) (read_index ?b)" and ?V = "map (gather (vmem ?q ! l)) (read_index ?b)"
  have wf: "pool_wf p (tables cs + R)" "length ws = length cs" using mid by (simp_all add: batch_mid_def)
  have lk: "l < length (kmem p)" using wf(1) l by (simp add: pool_wf_def)
  have ws: "write_slots ?b = ws" "length (read_index ?b) = length cs" by (simp_all add: build_index_def Let_def)
  have run: "batched_write l (map (\<lambda>k. [k]) ks) (map (\<lambda>v. [v]) vs) (p, cs, Some ?b) = (Ret (?K, ?V), (?q, cs, Some ?b))"
    using lk ks wf(2) ws by (simp add: batched_write_def Let_def write_batch_def comp_def)
  note mid' = write_batch_mid [OF mid l ks]
  have rows: "take (num_tokens (cs ! i)) (?K ! i) = k_rows ?q (cs ! i) (num_tokens (cs ! i)) l"
    "take (num_tokens (cs ! i)) (?V ! i) = v_rows ?q (cs ! i) (num_tokens (cs ! i)) l" if "i < length cs" for i
    using that ws(2) build_index_row(1) [OF mid that] by (simp_all add: k_rows_def v_rows_def gather_take [symmetric])
  have "fst (hist_add l (ks ! i) (vs ! i) (hs ! i) ! l) = k_rows ?q (cs ! i) (num_tokens (cs ! i)) l"
    "snd (hist_add l (ks ! i) (vs ! i) (hs ! i) ! l) = v_rows ?q (cs ! i) (num_tokens (cs ! i)) l" if "i < length cs" for i
    using mid' that l by (simp_all add: batch_mid_def seq_mid_def write_batch_def Let_def)
  then show ?thesis
    using run rows build_index_row(2) [OF mid] ws(2) by (intro exI [of _ ?K] exI [of _ ?V]) simp
qed

section \<open>A masked, padded attention is each sequence's own\<close>

lemma attend_masked:
  assumes doc: "sdpa_doc (sdpa M) att" and i: "i < length qs" and q: "qs ! i = [q]"
    and m: "mk ! i = [map (\<lambda>j. j < n) [0..<mx]]" "0 < n"
    and len: "length K = length qs" "length V = length qs" "length (K ! i) = mx" "length (V ! i) = mx"
  shows "attend M lw qs K V (Some mk) ! i = [o_proj lw (row_att M att q (take n (zip (K ! i) (V ! i))))]"
proof -
  let ?f = "repeat_kv (n_rep (mcfg M))" and ?s = "1 / sqrt (real (head_dim (mcfg M)))"
  have one: "sdpa M (head_of h [q]) (head_of h (map ?f (K ! i))) (head_of h (map ?f (V ! i))) (Some (mk ! i)) False ?s ! 0 =
      att ?s (q ! h) (map (\<lambda>(k, v). (?f k ! h, ?f v ! h)) (take n (zip (K ! i) (V ! i))))" for h
  proof -
    let ?z = "zip (head_of h (map ?f (K ! i))) (head_of h (map ?f (V ! i)))"
    have "visible (Some (mk ! i)) False 0 ?z = take (Suc (n - 1)) ?z"
      using m len by (intro visible_prefix) (auto simp: allowed_def head_of_def)
    then have vis: "visible (Some (mk ! i)) False 0 ?z = map (\<lambda>(k, v). (?f k ! h, ?f v ! h)) (take n (zip (K ! i) (V ! i)))"
      using m(2) by (simp add: zip_heads take_map)
    have "length (head_of h (map ?f (V ! i))) = length (head_of h (map ?f (K ! i)))" using len by (simp add: head_of_def)
    then show ?thesis using doc vis by (simp add: sdpa_doc_def head_of_def)
  qed
  have "sdpa_heads M (num_attention_heads (mcfg M)) [q] (map ?f (K ! i)) (map ?f (V ! i)) (Some (mk ! i)) False ?s =
      [row_att M att q (take n (zip (K ! i) (V ! i)))]"
    by (simp add: sdpa_heads_def Let_def row_att_def comp_def one)
  then show ?thesis
    using i q len by (simp add: attend_def Let_def mask_regime_def)
qed

section \<open>The layers\<close>

lemma zip_map_upt: "zip (map f [0..<n]) (map g [0..<n]) = map (\<lambda>i. (f i, g i)) [0..<n]"
  by (rule nth_equalityI) simp_all

lemma hadd_self: "hadd x (map (map f) x) = map (map (\<lambda>r. vadd r (f r))) x"
  by (simp add: hadd_def map2_map_self)

lemma decoder_layer_batch:
  "decoder_layer M lw l (map X [0..<b]) (map C [0..<b]) (map S [0..<b]) (Some upd) m s =
     bindS (upd l (map (\<lambda>i. layer_k M lw (X i) (C i) (S i)) [0..<b]) (map (\<lambda>i. layer_v M lw (X i)) [0..<b]) s)
       (\<lambda>KV s. (Ret (map (\<lambda>i. map (layer_mlp M lw) (map2 vadd (X i)
          (attend M lw (map (\<lambda>i. layer_q M lw (X i) (C i) (S i)) [0..<b]) (fst KV) (snd KV) m ! i))) [0..<b]), s))"
proof -
  let ?k = "map (\<lambda>i. layer_k M lw (X i) (C i) (S i)) [0..<b]" and ?v = "map (\<lambda>i. layer_v M lw (X i)) [0..<b]"
    and ?q = "map (\<lambda>i. layer_q M lw (X i) (C i) (S i)) [0..<b]"
  obtain r t where u: "upd l ?k ?v s = (r, t)" by (cases "upd l ?k ?v s")
  have "attention M lw l (map (\<lambda>i. pre_norm M lw (X i)) [0..<b]) (map C [0..<b]) (map S [0..<b]) (Some upd) m s =
    bindS (upd l ?k ?v s) (\<lambda>KV s. (Ret (attend M lw ?q (fst KV) (snd KV) m), s))"
    by (simp add: attention_def Let_def apply_rotary_def zip_map_upt layer_q_def layer_k_def layer_v_def rot_rows_def
        case_prod_unfold comp_def)
  note att = this
  show ?thesis
  proof (cases r)
    case (Ret KV)
    have "length (attend M lw ?q (fst KV) (snd KV) m) = b" by (simp add: attend_def Let_def split_beta)
    then have "attend M lw ?q (fst KV) (snd KV) m = map (\<lambda>i. attend M lw ?q (fst KV) (snd KV) m ! i) [0..<b]"
      by (metis map_nth)
    note a = this
    have "hadd (map X [0..<b]) (attend M lw ?q (fst KV) (snd KV) m) =
        map (\<lambda>i. map2 vadd (X i) (attend M lw ?q (fst KV) (snd KV) m ! i)) [0..<b]"
      by (subst a) (simp add: hadd_def zip_map_upt)
    then show ?thesis
      using u att Ret by (simp add: decoder_layer_def Let_def pre_norm_def comp_def hadd_self layer_mlp_def [abs_def])
  qed (use u att in \<open>simp add: decoder_layer_def Let_def pre_norm_def comp_def\<close>)
qed

lemma write_batch_frame:
  assumes mid: "batch_mid R l p cs ws hs" and l: "l < num_hidden_layers (cfg p)"
  shows "same_blocks (\<lambda>b. b \<in># R) p (write_batch l ws ks vs p)" and "pool_frame p (write_batch l ws ks vs p)"
proof -
  have wf: "pool_wf p (tables cs + R)" and lw: "length ws = length cs" using mid by (simp_all add: batch_mid_def)
  have bs: "0 < block_size p" using wf by (rule pool_wf_bs)
  have "ws ! i div block_size p \<notin># R" if i: "i < length cs" for i
  proof -
    have "ws ! i div block_size p \<in> set (block_table (cs ! i))"
      using mid i batch_slots(1) [OF mid i] set_table_slots [OF bs]
      by (auto simp: batch_mid_def seq_mid_def cache_wf_def table_wf_def)
    then have "ws ! i div block_size p \<in># tables cs" using tables_member [OF nth_mem [OF i]] by auto
    then have "0 < count (tables cs) (ws ! i div block_size p)" by simp
    moreover have "count (tables cs) (ws ! i div block_size p) + count R (ws ! i div block_size p) = 1"
      using mid i by (auto simp: batch_mid_def seq_mid_def)
    ultimately have "count R (ws ! i div block_size p) = 0" by linarith
    then show ?thesis by (simp add: not_in_iff)
  qed
  then have "j \<notin> set ws" if "j div block_size p \<in># R" for j
    using that lw by (auto simp: in_set_conv_nth)
  moreover have "l < length (kmem p)" "l < length (vmem p)" using wf l by (simp_all add: pool_wf_def)
  ultimately show "same_blocks (\<lambda>b. b \<in># R) p (write_batch l ws ks vs p)"
    by (auto simp: same_blocks_def write_batch_def nth_list_update scatter_outside)
  show "pool_frame p (write_batch l ws ks vs p)" by (simp add: pool_frame_def write_batch_def)
qed

lemma single_rows:
  assumes "length x = 1" "length c = 1" "length s = 1"
  shows "layer_q M lw x c s = [layer_q M lw x c s ! 0]" "layer_k M lw x c s = [layer_k M lw x c s ! 0]"
    "layer_v M lw x = [layer_v M lw x ! 0]" "x = [x ! 0]"
  using assms length_layer(1,2) [of c x s M lw] length_layer(3) [of c x s M lw]
  by (simp_all add: list_eq_iff_nth_eq)

lemma batch_row_out:
  assumes doc: "sdpa_doc (sdpa M) att" and i: "i < b" and one: "\<And>i. length (X i) = 1" "\<And>i. length (C i) = 1" "\<And>i. length (S i) = 1"
    and m: "mk ! i = [map (\<lambda>j. j < n) [0..<mx]]" "0 < n"
    and len: "length K = b" "length V = b" "length (K ! i) = mx" "length (V ! i) = mx" "length (snd kv) = length (fst kv)"
    and rows: "take n (K ! i) = fst kv @ layer_k M lw (X i) (C i) (S i)" "take n (V ! i) = snd kv @ layer_v M lw (X i)"
  shows "map (layer_mlp M lw) (map2 vadd (X i) (attend M lw (map (\<lambda>i. layer_q M lw (X i) (C i) (S i)) [0..<b]) K V (Some mk) ! i)) =
      fst (hist_layer M lw (X i) (C i) (S i) kv)"
proof -
  let ?q = "map (\<lambda>i. layer_q M lw (X i) (C i) (S i)) [0..<b]"
  have sr: "layer_q M lw (X i) (C i) (S i) = [layer_q M lw (X i) (C i) (S i) ! 0]"
    "layer_k M lw (X i) (C i) (S i) = [layer_k M lw (X i) (C i) (S i) ! 0]"
    "layer_v M lw (X i) = [layer_v M lw (X i) ! 0]" "X i = [X i ! 0]" for i
    by (rule single_rows [OF one])+
  have "?q ! i = [layer_q M lw (X i) (C i) (S i) ! 0]" using i sr(1) [of i] by simp
  from attend_masked [OF doc _ this m, of K V lw]
  have "attend M lw ?q K V (Some mk) ! i =
      [o_proj lw (row_att M att (layer_q M lw (X i) (C i) (S i) ! 0) (take n (zip (K ! i) (V ! i))))]"
    using i len by simp
  then have "map (layer_mlp M lw) (map2 vadd (X i) (attend M lw ?q K V (Some mk) ! i)) =
      [out_row M lw att (X i ! 0) (layer_q M lw (X i) (C i) (S i) ! 0) (take n (zip (K ! i) (V ! i)))]"
    by (subst sr(4) [of i]) (simp add: out_row_def)
  moreover have "take n (zip (K ! i) (V ! i)) =
      take (Suc (length (fst kv))) (zip (fst kv @ layer_k M lw (X i) (C i) (S i)) (snd kv @ layer_v M lw (X i)))"
    using arg_cong [OF sr(2) [of i], of length] arg_cong [OF sr(3) [of i], of length] len(5) by (simp add: take_zip rows)
  ultimately show ?thesis
    using one len(5) by (simp add: hist_layer_out [OF doc])
qed

lemma batch_layer_step:
  assumes doc: "sdpa_doc (sdpa M) att" and mid: "batch_mid R l p cs ws hs" and l: "l < num_hidden_layers (cfg p)"
    and one: "\<And>i. length (X i) = 1" "\<And>i. length (C i) = 1" "\<And>i. length (S i) = 1"
  shows "\<exists>p'. decoder_layer M lw l (map X [0..<length cs]) (map C [0..<length cs]) (map S [0..<length cs])
      (Some batched_update) (Some (bmask (build_index ws cs))) (p, cs, Some (build_index ws cs)) =
      (Ret (map (\<lambda>i. fst (hist_layer M lw (X i) (C i) (S i) (hs ! i ! l))) [0..<length cs]), (p', cs, Some (build_index ws cs))) \<and>
    batch_mid R (Suc l) p' cs ws
      (map (\<lambda>i. (hs ! i)[l := snd (hist_layer M lw (X i) (C i) (S i) (hs ! i ! l))]) [0..<length cs]) \<and>
    same_blocks (\<lambda>b. b \<in># R) p p' \<and> pool_frame p p'"
proof -
  let ?B = "[0..<length cs]" and ?b = "build_index ws cs" and ?mx = "Max (set (map num_tokens cs))"
  define ks vs where "ks = map (\<lambda>i. layer_k M lw (X i) (C i) (S i) ! 0) ?B" and "vs = map (\<lambda>i. layer_v M lw (X i) ! 0) ?B"
  have sr: "layer_q M lw (X i) (C i) (S i) = [layer_q M lw (X i) (C i) (S i) ! 0]"
    "layer_k M lw (X i) (C i) (S i) = [layer_k M lw (X i) (C i) (S i) ! 0]"
    "layer_v M lw (X i) = [layer_v M lw (X i) ! 0]" "X i = [X i ! 0]" for i
    by (rule single_rows [OF one])+
  have kv: "map (\<lambda>i. layer_k M lw (X i) (C i) (S i)) ?B = map (\<lambda>k. [k]) ks"
    "map (\<lambda>i. layer_v M lw (X i)) ?B = map (\<lambda>v. [v]) vs"
    using sr(2,3) by (simp_all add: ks_def vs_def comp_def)
  have len: "length ks = length cs" "length vs = length cs" by (simp_all add: ks_def vs_def)
  obtain K V where w: "batched_write l (map (\<lambda>k. [k]) ks) (map (\<lambda>v. [v]) vs) (p, cs, Some ?b) =
      (Ret (K, V), (write_batch l ws ks vs p, cs, Some ?b))" "length K = length cs" "length V = length cs"
    "\<forall>i < length cs. length (K ! i) = ?mx \<and> length (V ! i) = ?mx \<and>
       take (num_tokens (cs ! i)) (K ! i) = fst (hist_add l (ks ! i) (vs ! i) (hs ! i) ! l) \<and>
       take (num_tokens (cs ! i)) (V ! i) = snd (hist_add l (ks ! i) (vs ! i) (hs ! i) ! l)"
    using batched_write_ok [OF mid l len] by blast
  have hl: "snd (hist_layer M lw (X i) (C i) (S i) (hs ! i ! l)) = (fst (hs ! i ! l) @ [ks ! i], snd (hs ! i ! l) @ [vs ! i])"
    if "i < length cs" for i
    using that sr(2,3) by (simp add: hist_layer_def Let_def ks_def vs_def)
  have "map (layer_mlp M lw) (map2 vadd (X i) (attend M lw (map (\<lambda>i. layer_q M lw (X i) (C i) (S i)) ?B) K V (Some (bmask ?b)) ! i)) =
      fst (hist_layer M lw (X i) (C i) (S i) (hs ! i ! l))" if i: "i < length cs" for i
  proof (rule batch_row_out [OF doc i one build_index_row(4) [OF mid i]])
    have sm: "seq_mid p (cs ! i) (ws ! i) (tables cs + R) l (hs ! i)" using mid i by (simp add: batch_mid_def)
    then show "0 < num_tokens (cs ! i)" by (simp add: seq_mid_def)
    have "l < length (hs ! i)" using sm l by (simp add: seq_mid_def)
    then show "take (num_tokens (cs ! i)) (K ! i) = fst (hs ! i ! l) @ layer_k M lw (X i) (C i) (S i)"
      "take (num_tokens (cs ! i)) (V ! i) = snd (hs ! i ! l) @ layer_v M lw (X i)"
      using w(4) i sr(2,3) [of i] by (simp_all add: hist_add_def ks_def vs_def)
    show "length (snd (hs ! i ! l)) = length (fst (hs ! i ! l))"
      using sm l by (simp add: seq_mid_def Let_def k_rows_def v_rows_def)
  qed (use w i in simp_all)
  moreover have hs': "map (\<lambda>i. (hs ! i)[l := snd (hist_layer M lw (X i) (C i) (S i) (hs ! i ! l))]) ?B =
      map (\<lambda>i. hist_add l (ks ! i) (vs ! i) (hs ! i)) ?B"
    by (rule map_cong) (simp_all add: hl hist_add_def)
  ultimately show ?thesis
    using w(1) write_batch_mid [OF mid l len] write_batch_frame [OF mid l]
    unfolding hs' by (intro exI [of _ "write_batch l ws ks vs p"]) (simp add: decoder_layer_batch kv batched_update_def)
qed

lemma batch_layers:
  assumes doc: "sdpa_doc (sdpa M) att" and mid: "batch_mid R l p cs ws hs" and L: "l + length lws = num_hidden_layers (cfg p)"
    and one: "\<And>i. length (X i) = 1" "\<And>i. length (C i) = 1" "\<And>i. length (S i) = 1"
  shows "\<exists>p'. run_layers M lws l (map X [0..<length cs]) (map C [0..<length cs]) (map S [0..<length cs])
      (Some batched_update) (Some (bmask (build_index ws cs))) (p, cs, Some (build_index ws cs)) =
      (Ret (map (\<lambda>i. fst (hist_layers M lws l (X i) (C i) (S i) (hs ! i))) [0..<length cs]), (p', cs, Some (build_index ws cs))) \<and>
    batch_mid R (l + length lws) p' cs ws (map (\<lambda>i. snd (hist_layers M lws l (X i) (C i) (S i) (hs ! i))) [0..<length cs]) \<and>
    same_blocks (\<lambda>b. b \<in># R) p p' \<and> pool_frame p p'"
  using mid L one(1)
proof (induction lws arbitrary: l p X hs)
  case Nil
  have "map (\<lambda>i. hs ! i) [0..<length cs] = hs" using Nil.prems(1) map_nth [of hs] by (simp add: batch_mid_def)
  then show ?case using Nil.prems(1) by (intro exI [of _ p]) simp
next
  case (Cons lw lws)
  let ?B = "[0..<length cs]" and ?b = "build_index ws cs"
  let ?X = "\<lambda>i. fst (hist_layer M lw (X i) (C i) (S i) (hs ! i ! l))"
  let ?hs = "map (\<lambda>i. (hs ! i)[l := snd (hist_layer M lw (X i) (C i) (S i) (hs ! i ! l))]) ?B"
  have l: "l < num_hidden_layers (cfg p)" using Cons.prems(2) by simp
  obtain p1 where s: "decoder_layer M lw l (map X ?B) (map C ?B) (map S ?B) (Some batched_update) (Some (bmask ?b)) (p, cs, Some ?b) =
      (Ret (map ?X ?B), (p1, cs, Some ?b))" "batch_mid R (Suc l) p1 cs ws ?hs"
    "same_blocks (\<lambda>b. b \<in># R) p p1" "pool_frame p p1"
    using batch_layer_step [OF doc Cons.prems(1) l, of X C S lw] Cons.prems(3) one(2,3) by blast
  have len: "length (?X i) = 1" for i using Cons.prems(3) one(2,3) by simp
  have "Suc l + length lws = num_hidden_layers (cfg p1)" using Cons.prems(2) s(4) by (simp add: pool_frame_def)
  from Cons.IH [OF s(2) this, of ?X] len obtain p2 where
    t: "run_layers M lws (Suc l) (map ?X ?B) (map C ?B) (map S ?B) (Some batched_update) (Some (bmask ?b)) (p1, cs, Some ?b) =
      (Ret (map (\<lambda>i. fst (hist_layers M lws (Suc l) (?X i) (C i) (S i) (?hs ! i))) ?B), (p2, cs, Some ?b))"
    "batch_mid R (Suc l + length lws) p2 cs ws (map (\<lambda>i. snd (hist_layers M lws (Suc l) (?X i) (C i) (S i) (?hs ! i))) ?B)"
    "same_blocks (\<lambda>b. b \<in># R) p1 p2" "pool_frame p1 p2" by blast
  have eq: "map (\<lambda>i. f (hist_layers M lws (Suc l) (?X i) (C i) (S i) (?hs ! i))) ?B =
      map (\<lambda>i. f (hist_layers M (lw # lws) l (X i) (C i) (S i) (hs ! i))) ?B" for f :: "_ \<Rightarrow> 'z"
    by (rule map_cong) (simp_all add: case_prod_unfold Let_def)
  show ?case
    using s t same_blocks_trans [OF s(3) t(3) s(4)] pool_frame_trans [OF s(4) t(4)] eq [of fst] eq [of snd]
    by (intro exI [of _ p2]) (simp del: hist_layers.simps)
qed

section \<open>The decode step\<close>

lemma rope_lookup_rows:
  assumes "rope_wf r" and "\<forall>row \<in> set pos. \<forall>t \<in> set row. t < max_positions r"
  shows "rope_lookup r pos = Ret (map (map (cos_row r)) pos, map (map (sin_row r)) pos)"
  using assms by (simp add: rope_lookup_def rope_wf_tables)

lemma lookup_positions:
  assumes "rope_wf r"
  shows "rope_lookup (rope_ensure_capacity (Max (set (map num_tokens cs)) + 1) r) (map (\<lambda>c. [num_tokens c]) cs) =
    Ret (map (\<lambda>c. [cos_row r (num_tokens c)]) cs, map (\<lambda>c. [sin_row r (num_tokens c)]) cs)"
proof -
  let ?m = "Max (set (map num_tokens cs)) + 1"
  have "num_tokens c < max_positions (rope_ensure_capacity ?m r)" if "c \<in> set cs" for c
  proof -
    have "num_tokens c < ?m" using that by (simp add: less_Suc_eq_le)
    then show ?thesis using ensure_fields(3) [of ?m r] by linarith
  qed
  then show ?thesis using rope_lookup_rows [OF ensure_wf [OF assms]] by (simp add: comp_def)
qed

lemma batch_done:
  assumes "batch_mid R l p cs ws hs" and "l = num_hidden_layers (cfg p)"
  shows "batch_ok p cs R \<and> map (hist_of p) cs = hs"
proof -
  have "hist_of p (cs ! i) = hs ! i" if "i < length cs" for i
    using assms that by (auto simp: batch_mid_def seq_mid_def hist_of_def Let_def)
  then have "map (hist_of p) cs = hs" using assms by (intro nth_equalityI) (auto simp: batch_mid_def)
  then show ?thesis using assms by (auto simp: batch_ok_def batch_mid_def seq_mid_def in_set_conv_nth)
qed

lemma decode_forward_ok:
  assumes doc: "sdpa_doc (sdpa M) att" and r: "rope_wf r" and ok: "batch_ok p cs R" and ne: "cs \<noteq> []"
    and need: "batch_need p cs = Ret n" "n \<le> num_free (alloc p)"
    and toks: "length toks = length cs" "\<forall>t \<in> set toks. t < vocab_size (mcfg M)"
    and L: "length (mlayers M) = num_hidden_layers (cfg p)"
  defines "pass \<equiv> \<lambda>i. hist_pass M r (num_tokens (cs ! i)) [toks ! i] (hist_of p (cs ! i))"
  shows "\<exists>r' p' cs' b. decode_forward M toks (r, (p, cs, None)) =
      (Ret (map (\<lambda>i. map (lm_out M) (fst (pass i))) [0..<length cs]), (r', (p', cs', Some b))) \<and>
    rope_wf r' \<and> cos_row r' = cos_row r \<and> sin_row r' = sin_row r \<and> batch_ok p' cs' R \<and>
    map (hist_of p') cs' = map (\<lambda>i. snd (pass i)) [0..<length cs] \<and>
    map num_tokens cs' = map (Suc \<circ> num_tokens) cs \<and> same_blocks (\<lambda>b. b \<in># R) p p' \<and> pool_frame p p'"
proof -
  let ?B = "[0..<length cs]" and ?r = "rope_ensure_capacity (Max (set (map num_tokens cs)) + 1) r"
  let ?X = "\<lambda>i. [embed_tokens M (toks ! i)]" and ?C = "\<lambda>i. [cos_row r (num_tokens (cs ! i))]"
    and ?S = "\<lambda>i. [sin_row r (num_tokens (cs ! i))]"
  obtain p1 cs1 ws where pr: "prepare (p, cs, None) = (Ret (), (p1, cs1, Some (build_index ws cs1)))"
    "batch_mid R 0 p1 cs1 ws (map (hist_of p) cs)" "same_blocks (\<lambda>b. b \<in># R) p p1" "pool_frame p p1"
    "map num_tokens cs1 = map (Suc \<circ> num_tokens) cs"
    using prepare_ok [OF ok ne need] by blast
  have lc: "length cs1 = length cs" using pr(5) by (metis length_map)
  let ?b = "build_index ws cs1"
  have L1: "0 + length (mlayers M) = num_hidden_layers (cfg p1)" using L pr(4) by (simp add: pool_frame_def)
  obtain p2 where ly: "run_layers M (mlayers M) 0 (map ?X ?B) (map ?C ?B) (map ?S ?B) (Some batched_update) (Some (bmask ?b))
      (p1, cs1, Some ?b) =
      (Ret (map (\<lambda>i. fst (hist_layers M (mlayers M) 0 (?X i) (?C i) (?S i) (map (hist_of p) cs ! i))) ?B), (p2, cs1, Some ?b))"
    "batch_mid R (0 + length (mlayers M)) p2 cs1 ws
      (map (\<lambda>i. snd (hist_layers M (mlayers M) 0 (?X i) (?C i) (?S i) (map (hist_of p) cs ! i))) ?B)"
    "same_blocks (\<lambda>b. b \<in># R) p1 p2" "pool_frame p1 p2"
    using batch_layers [OF doc pr(2) L1, of ?X ?C ?S] unfolding lc by auto
  have hp: "map (\<lambda>i. f (hist_layers M (mlayers M) 0 (?X i) (?C i) (?S i) (map (hist_of p) cs ! i))) ?B = map (\<lambda>i. f (pass i)) ?B"
    for f :: "_ \<Rightarrow> 'z" by (rule map_cong) (simp_all add: pass_def hist_pass_def)
  have idx: "map g cs = map (\<lambda>i. g (cs ! i)) ?B" for g :: "_ \<Rightarrow> 'z" by (rule nth_equalityI) simp_all
  have tk: "map (\<lambda>t. [embed_tokens M t]) toks = map ?X ?B" using toks(1) by (intro nth_equalityI) simp_all
  have run: "decode_forward M toks (r, (p, cs, None)) =
      (Ret (map (\<lambda>i. map (lm_out M) (fst (pass i))) ?B), (?r, (p2, cs1, Some ?b)))"
    using pr(1) ly(1) hp [of fst] toks(2) lookup_positions [OF r, of cs] tk
      idx [of "\<lambda>c. [cos_row r (num_tokens c)]"] idx [of "\<lambda>c. [sin_row r (num_tokens c)]"]
    by (simp add: decode_forward_def Let_def cache_mask_def nano_causal_lm_def nano_model_def embed_def comp_def lm_out_def)
  have "batch_ok p2 cs1 R \<and> map (hist_of p2) cs1 = map (\<lambda>i. snd (pass i)) ?B"
    using batch_done [OF ly(2)] L pr(4) ly(4) hp [of snd] by (simp add: pool_frame_def)
  then show ?thesis
    using run pr(3-5) ly(3,4) ensure_wf [OF r] same_blocks_trans [OF pr(3) ly(3) pr(4)] pool_frame_trans [OF pr(4) ly(4)]
    by (intro exI [of _ ?r] exI [of _ p2] exI [of _ cs1] exI [of _ ?b]) simp
qed

lemma tables_split: "c \<in> set cs \<Longrightarrow> tables cs + R = mset (block_table c) + (tables (remove1 c cs) + R)"
  by (induction cs) (auto simp: add.assoc add.left_commute)

lemma need_member: "c \<in> set cs \<Longrightarrow> need_of p M c \<le> sum_list (map (need_of p M) cs)"
  by (rule member_le_sum_list) auto

lemma solo_decode:
  assumes ok: "batch_ok p cs R" and c: "c \<in> set cs" and need: "batch_need p cs = Ret n" "n \<le> num_free (alloc p)"
    and r: "rope_wf r" and t: "t < vocab_size (mcfg M)"
    and L: "length (mlayers M) = num_hidden_layers (cfg p)" "mlayers M \<noteq> []"
  shows "fst (nano_causal_lm M [[t]] None (Some (solo update, paged_len)) None (r, (p, c))) =
    Ret [map (lm_out M) (fst (hist_pass M r (num_tokens c) [t] (hist_of p c)))]"
proof -
  let ?R = "tables (remove1 c cs) + R"
  have wf: "pool_wf p (tables cs + R)" and cw: "cache_wf p c" using ok c by (auto simp: batch_ok_def)
  note M = tables_split [OF c, of R]
  have wf': "pool_wf p (mset (block_table c) + ?R)" using wf unfolding M .
  have bs: "0 < block_size p" using wf by (rule pool_wf_bs)
  have "n = sum_list (map (need_of p (tables cs + R)) cs)" using batch_need_sum [OF wf, of cs] need(1) by simp
  then have "pass_need p c ?R 1 \<le> num_free (alloc p)"
    using need_member [OF c, of p "tables cs + R"] need(2) need_of_pass [OF bs cw, of ?R] unfolding M by linarith
  then have ft: "paged_fits ?R (p, c) (length [t])" using cw bs by (simp add: paged_fits_def cache_wf_def)
  have rd: "paged_ready ?R (p, c) (hist_of p c)" using wf' cw by (simp add: paged_ready_def hist_of_def)
  have h: "hist_of p c \<noteq> []" "length (hist_of p c) = length (mlayers M)" using L by (simp_all add: hist_of_def flip: L(1))
  have hl: "hist_len (hist_of p c) = num_tokens c" using paged.length_law [OF rd h(1)] by (simp add: paged_len_def)
  show ?thesis
    using paged.pass_sim [OF rd ft h, of None r] lm_hist [OF r, of "[t]" M "hist_of p c"] t hl by auto
qed

text \<open>C5: batching is invisible. One decode step over a batch of sequences of different lengths, sharing blocks or not,
  padded to the longest and masked, succeeds when the blocks it counted are free, and gives each sequence exactly the
  logits that sequence gets from a decode step of its own on its own paged cache.\<close>

theorem batched_decode_equals_solo:
  assumes "sdpa_doc (sdpa M) att" and "rope_wf r" and "batch_ok p cs R" and "cs \<noteq> []"
    and "batch_need p cs = Ret n" "n \<le> num_free (alloc p)"
    and "length toks = length cs" "\<forall>t \<in> set toks. t < vocab_size (mcfg M)"
    and "length (mlayers M) = num_hidden_layers (cfg p)" "mlayers M \<noteq> []"
  shows "\<exists>logits r' p' cs' b. decode_forward M toks (r, (p, cs, None)) = (Ret logits, (r', (p', cs', b))) \<and>
    batch_ok p' cs' R \<and> length logits = length cs \<and>
    (\<forall>i < length cs. fst (nano_causal_lm M [[toks ! i]] None (Some (solo update, paged_len)) None (r, (p, cs ! i))) =
      Ret [logits ! i])"
proof -
  have "fst (nano_causal_lm M [[toks ! i]] None (Some (solo update, paged_len)) None (r, (p, cs ! i))) =
      Ret [map (lm_out M) (fst (hist_pass M r (num_tokens (cs ! i)) [toks ! i] (hist_of p (cs ! i))))]" if "i < length cs" for i
    using that assms solo_decode [OF assms(3) nth_mem [OF that] assms(5,6,2), of "toks ! i" M] by simp
  then show ?thesis
    using decode_forward_ok [OF assms(1-9)] by fastforce
qed

theorem batched_decode_equals_solo_witness:
  "\<exists>p c logits r' p' cs' b.
    update 0 [[[1]], [[2]], [[3]]] [[[4]], [[5]], [[6]]] (new_pool [] TINY 4 2 2, new_pcache) =
      (Ret ([[[1]], [[2]], [[3]]], [[[4]], [[5]], [[6]]]), (p, c)) \<and>
    decode_forward demo_model [7, 8] (new_rope 16 128 10000, (p, [c, new_pcache], None)) = (Ret logits, (r', (p', cs', b))) \<and>
    fst (nano_causal_lm demo_model [[8]] None (Some (solo update, paged_len)) None (new_rope 16 128 10000, (p, new_pcache))) =
      Ret [logits ! 1]"
proof -
  let ?k = "[[[1]], [[2]], [[3]]] :: kv_row list" and ?v = "[[[4]], [[5]], [[6]]] :: kv_row list"
  have c: "ceil_div (length ?k) 2 = 2" by (rule ceil_div_unique) simp_all
  have "\<exists>p d. update 0 ?k ?v (new_pool [] TINY 4 2 2, new_pcache) = (Ret (?k, ?v), (p, d)) \<and>
      pool_wf p (mset (block_table d)) \<and> cache_wf p d \<and> num_tokens d = length ?k \<and> block_size p = 2 \<and>
      cfg p = TINY \<and> num_free (alloc p) = 4 - ceil_div (length ?k) 2"
    by (rule first_write) (simp_all add: TINY_def)
  then obtain p d where w: "update 0 ?k ?v (new_pool [] TINY 4 2 2, new_pcache) = (Ret (?k, ?v), (p, d))"
    "pool_wf p (mset (block_table d))" "cache_wf p d" "cfg p = TINY" "num_free (alloc p) = 2"
    using c by auto
  have t: "tables [d, new_pcache] = mset (block_table d)" by (simp add: new_pcache_def)
  have ok: "batch_ok p [d, new_pcache] {#}" using w(2,3) t new_pcache_wf by (simp add: batch_ok_def)
  have bn: "batch_need p [d, new_pcache] = Ret (need_of p (mset (block_table d)) d + need_of p (mset (block_table d)) new_pcache)"
    using batch_need_sum [OF w(2), of "[d, new_pcache]"] t by (simp del: batch_need.simps)
  have le: "need_of p (mset (block_table d)) d + need_of p (mset (block_table d)) new_pcache \<le> num_free (alloc p)"
    using w(5) by (simp add: need_of_def)
  show ?thesis
    using w(1) batched_decode_equals_solo [OF demo_sdpa_doc new_rope_wf ok _ bn le, of "[7, 8]" 16 128 10000] w(4)
    by (fastforce simp: demo_model_def TINY_def)
qed

end
