(* ===== verification/Prefix_Cache.thy ===== *)
theory Prefix_Cache
  imports Paged_Cache "HOL-Library.AList" "HOL-Library.Product_Lexorder"
begin

text \<open>
  The content-addressed store of full blocks of \<^verbatim>\<open>engine/prefix_cache.py\<close>. Python's dictionaries are
  association lists in insertion order, and \<open>hash2\<close> stands for the built-in \<^verbatim>\<open>hash\<close> of a pair
  \<^verbatim>\<open>(parent, tokens)\<close>, whose values the language leaves open. Operations work on the pair of the pool and the cache;
  a block size of 0 is outside the model (\<^verbatim>\<open>range\<close> would raise).

  \<open>pc_wf p pc R\<close> is the invariant: the references in existence are one per cached block, plus \<open>R\<close>, those of
  the running sequences; the two dictionaries are inverse to each other. Every operation keeps it, so the cache
  never releases a block somebody else reads, and the locale laws of the allocator apply throughout.
\<close>

type_synonym hash_fn = "int \<Rightarrow> nat list \<Rightarrow> int"

definition ROOT_HASH :: int where
  "ROOT_HASH = 11400714819323198485"

definition block_hash :: "hash_fn \<Rightarrow> int \<Rightarrow> nat list \<Rightarrow> int" where
  "block_hash hash2 parent tokens = hash2 parent tokens"

record cache_entry =
  block_id :: nat
  parent_hash :: int
  last_used :: nat
  depth :: nat

record prefix_stats =
  queries :: nat
  hit_blocks :: nat
  query_blocks :: nat
  evictions :: nat
  entries :: nat

definition block_hit_rate :: "prefix_stats \<Rightarrow> real" where
  "block_hit_rate s = (if query_blocks s \<noteq> 0 then real (hit_blocks s) / real (query_blocks s) else 0)"

definition tokens_saved :: "prefix_stats \<Rightarrow> nat" where
  "tokens_saved s = hit_blocks s"

record prefix_cache =
  pc_enabled :: bool
  pc_entries :: "(int \<times> cache_entry) list"
  pc_by_block :: "(nat \<times> int) list"
  pc_clock :: nat
  pc_stats :: prefix_stats

type_synonym 'r pc_state = "'r pool \<times> prefix_cache"

definition new_prefix_cache :: "bool \<Rightarrow> prefix_cache" where
  "new_prefix_cache en =
     \<lparr>pc_enabled = en, pc_entries = [], pc_by_block = [], pc_clock = 0,
      pc_stats = \<lparr>queries = 0, hit_blocks = 0, query_blocks = 0, evictions = 0, entries = 0\<rparr>\<rparr>"

section \<open>Keys\<close>

function chain_from :: "hash_fn \<Rightarrow> nat \<Rightarrow> int \<Rightarrow> nat list \<Rightarrow> int list" where
  "chain_from hash2 bs parent ids =
     (if bs = 0 \<or> length ids < bs then []
      else let h = block_hash hash2 parent (take bs ids) in h # chain_from hash2 bs h (drop bs ids))"
  by pat_completeness auto

termination
  by (relation "measure (\<lambda>(_, _, _, ids). length ids)") auto

definition hash_chain :: "hash_fn \<Rightarrow> 'r pool \<Rightarrow> nat list \<Rightarrow> int list" where
  "hash_chain hash2 p ids = chain_from hash2 (block_size p) ROOT_HASH ids"

section \<open>Lookup\<close>

definition tick :: "prefix_cache \<Rightarrow> prefix_cache" where
  "tick pc = pc\<lparr>pc_clock := pc_clock pc + 1\<rparr>"

definition touch :: "int \<Rightarrow> cache_entry \<Rightarrow> prefix_cache \<Rightarrow> prefix_cache" where
  "touch h e pc =
     (let pc = tick pc in pc\<lparr>pc_entries := AList.update h (e\<lparr>last_used := pc_clock pc\<rparr>) (pc_entries pc)\<rparr>)"

fun match_loop :: "int list \<Rightarrow> nat list \<Rightarrow> 'r pc_state \<Rightarrow> nat list outcome \<times> 'r pc_state" where
  "match_loop [] matched st = (Ret matched, st)"
| "match_loop (h # hs) matched (p, pc) =
     (case map_of (pc_entries pc) h of
        None \<Rightarrow> (Ret matched, (p, pc))
      | Some e \<Rightarrow>
          (case on_alloc (incref (block_id e)) p of
             (Raise x, p') \<Rightarrow> (Raise x, (p', touch h e pc))
           | (Ret _, p') \<Rightarrow> match_loop hs (matched @ [block_id e]) (p', touch h e pc)))"

definition match_prefix :: "hash_fn \<Rightarrow> nat list \<Rightarrow> 'r pc_state \<Rightarrow> nat list outcome \<times> 'r pc_state" where
  "match_prefix hash2 ids st =
     (case st of (p, pc) \<Rightarrow>
        if \<not> pc_enabled pc then (Ret [], (p, pc))
        else let hashes = hash_chain hash2 p ids; s = pc_stats pc;
                 pc = pc\<lparr>pc_stats := s\<lparr>queries := queries s + 1, query_blocks := query_blocks s + length hashes\<rparr>\<rparr>
             in bindS (match_loop hashes [] (p, pc))
                  (\<lambda>matched (p, pc). let s = pc_stats pc in
                     (Ret matched, (p, pc\<lparr>pc_stats := s\<lparr>hit_blocks := hit_blocks s + length matched\<rparr>\<rparr>))))"

section \<open>Insertion\<close>

fun insert_loop :: "nat \<Rightarrow> int \<Rightarrow> int list \<Rightarrow> nat list \<Rightarrow> 'r pc_state \<Rightarrow> unit outcome \<times> 'r pc_state" where
  "insert_loop d parent (h # hs) (block # bt) (p, pc) =
     (case map_of (pc_entries pc) h of
        Some e \<Rightarrow> insert_loop (Suc d) h hs bt (p, touch h e pc)
      | None \<Rightarrow>
          if map_of (pc_by_block pc) block \<noteq> None then insert_loop (Suc d) h hs bt (p, pc)
          else (case on_alloc (incref block) p of
                  (Raise x, p') \<Rightarrow> (Raise x, (p', pc))
                | (Ret _, p') \<Rightarrow>
                    let pc1 = tick pc; e = \<lparr>block_id = block, parent_hash = parent, last_used = pc_clock pc1, depth = d\<rparr>
                    in insert_loop (Suc d) h hs bt
                         (p', pc1\<lparr>pc_entries := AList.update h e (pc_entries pc1),
                                  pc_by_block := AList.update block h (pc_by_block pc1)\<rparr>)))"
| "insert_loop d parent _ _ st = (Ret (), st)"

definition count_entries :: "prefix_cache \<Rightarrow> prefix_cache" where
  "count_entries pc = pc\<lparr>pc_stats := (pc_stats pc)\<lparr>entries := length (pc_entries pc)\<rparr>\<rparr>"

definition insert_prefix :: "hash_fn \<Rightarrow> nat list \<Rightarrow> nat list \<Rightarrow> 'r pc_state \<Rightarrow> unit outcome \<times> 'r pc_state" where
  "insert_prefix hash2 ids bt st =
     (case st of (p, pc) \<Rightarrow>
        if \<not> pc_enabled pc then (Ret (), (p, pc))
        else bindS (insert_loop 0 ROOT_HASH (hash_chain hash2 p ids) bt (p, pc))
               (\<lambda>_ (p, pc). (Ret (), (p, count_entries pc))))"

section \<open>Eviction\<close>

text \<open>The list comprehension asks for the reference count of every entry's block; an id outside the pool raises.\<close>

fun evictable :: "allocator \<Rightarrow> (int \<times> cache_entry) list \<Rightarrow> (nat \<times> int \<times> int) list outcome" where
  "evictable a [] = Ret []"
| "evictable a ((h, e) # es) =
     (case ref_count a (block_id e) of
        Raise x \<Rightarrow> Raise x
      | Ret n \<Rightarrow>
          (case evictable a es of
             Raise x \<Rightarrow> Raise x
           | Ret ks \<Rightarrow> Ret (if n = 1 then (last_used e, - int (depth e), h) # ks else ks)))"

fun evict_loop :: "(nat \<times> int \<times> int) list \<Rightarrow> nat \<Rightarrow> 'r pc_state \<Rightarrow> nat outcome \<times> 'r pc_state" where
  "evict_loop [] freed st = (Ret freed, st)"
| "evict_loop ((_, _, h) # ks) freed (p, pc) =
     (case map_of (pc_entries pc) h of
        None \<Rightarrow> (Raise KeyError, (p, pc))
      | Some e \<Rightarrow>
          let pc = pc\<lparr>pc_entries := AList.delete h (pc_entries pc), pc_by_block := AList.delete (block_id e) (pc_by_block pc)\<rparr>
          in (case on_alloc (decref (block_id e)) p of
                (Raise x, p') \<Rightarrow> (Raise x, (p', pc))
              | (Ret _, p') \<Rightarrow> evict_loop ks (freed + 1) (p', pc)))"

definition evict :: "nat \<Rightarrow> 'r pc_state \<Rightarrow> nat outcome \<times> 'r pc_state" where
  "evict n_blocks st =
     (case st of (p, pc) \<Rightarrow>
        (case evictable (alloc p) (pc_entries pc) of
           Raise x \<Rightarrow> (Raise x, (p, pc))
         | Ret ks \<Rightarrow>
             if ks = [] then (Ret 0, (p, pc))
             else bindS (evict_loop (take n_blocks (sort ks)) 0 (p, pc))
                    (\<lambda>freed (p, pc). let s = pc_stats pc in
                       (Ret freed, (p, count_entries (pc\<lparr>pc_stats := s\<lparr>evictions := evictions s + freed\<rparr>\<rparr>))))))"

lemma length_delete_present: "map_of al k = Some v \<Longrightarrow> length (AList.delete k al) < length al"
proof (induction al)
  case (Cons x al)
  then show ?case
    using length_delete_le [of k al] by (cases x) (auto split: if_splits)
qed simp

lemma evict_loop_shrinks:
  "evict_loop ks freed (p, pc) = (Ret f, (p', pc')) \<Longrightarrow>
    length (pc_entries pc') + f \<le> length (pc_entries pc) + freed"
proof (induction ks arbitrary: freed p pc)
  case Nil
  then show ?case by simp
next
  case (Cons k ks)
  obtain a b h where k: "k = (a, b, h)" by (cases k)
  obtain e where e: "map_of (pc_entries pc) h = Some e"
    using Cons.prems k by (auto split: option.splits)
  then show ?case
    using Cons.prems k Cons.IH length_delete_present [OF e]
    by (fastforce simp: Let_def split: prod.splits outcome.splits)
qed

lemma evict_shrinks:
  assumes "evict n (p, pc) = (Ret f, (p', pc'))" and "f \<noteq> 0"
  shows "length (pc_entries pc') < length (pc_entries pc)"
proof -
  obtain ks where "evictable (alloc p) (pc_entries pc) = Ret ks" "ks \<noteq> []"
    using assms by (auto simp: evict_def split: outcome.splits if_splits)
  then show ?thesis
    using assms evict_loop_shrinks
    by (fastforce simp: evict_def bindS_eq_Ret Let_def count_entries_def)
qed

function ensure_free :: "nat \<Rightarrow> 'r pc_state \<Rightarrow> bool outcome \<times> 'r pc_state" where
  "ensure_free n_blocks (p, pc) =
     (if num_free (alloc p) < n_blocks
      then (case evict (n_blocks - num_free (alloc p)) (p, pc) of
              (Raise x, st) \<Rightarrow> (Raise x, st)
            | (Ret freed, (p', pc')) \<Rightarrow>
                if freed = 0 then (Ret False, (p', pc')) else ensure_free n_blocks (p', pc'))
      else (Ret True, (p, pc)))"
  by pat_completeness auto

termination
  by (relation "measure (\<lambda>(_, (_, pc)). length (pc_entries pc))") (auto dest: evict_shrinks [OF sym])

declare ensure_free.simps [simp del] chain_from.simps [simp del]

fun clear_loop :: "(int \<times> cache_entry) list \<Rightarrow> 'r pc_state \<Rightarrow> unit outcome \<times> 'r pc_state" where
  "clear_loop [] st = (Ret (), st)"
| "clear_loop ((h, e) # es) (p, pc) =
     (case on_alloc (decref (block_id e)) p of
        (Raise x, p') \<Rightarrow> (Raise x, (p', pc))
      | (Ret _, p') \<Rightarrow> clear_loop es (p', pc\<lparr>pc_entries := AList.delete h (pc_entries pc)\<rparr>))"

definition clear :: "'r pc_state \<Rightarrow> unit outcome \<times> 'r pc_state" where
  "clear st =
     (case st of (p, pc) \<Rightarrow>
        bindS (clear_loop (pc_entries pc) (p, pc))
          (\<lambda>_ (p, pc). (Ret (), (p, pc\<lparr>pc_by_block := [], pc_stats := (pc_stats pc)\<lparr>entries := 0\<rparr>\<rparr>))))"

section \<open>Integration\<close>

definition attach :: "'r pool \<Rightarrow> pcache \<Rightarrow> nat list \<Rightarrow> nat \<times> pcache" where
  "attach p c blocks =
     (if blocks = [] then (0, c)
      else let c = fold (append_block p) blocks c; c = c\<lparr>num_tokens := length blocks * block_size p\<rparr>
           in (num_tokens c, c))"

section \<open>Invariant\<close>

definition cached_blocks :: "prefix_cache \<Rightarrow> nat list" where
  "cached_blocks pc = map (block_id \<circ> snd) (pc_entries pc)"

definition pc_wf :: "'r pool \<Rightarrow> prefix_cache \<Rightarrow> nat multiset \<Rightarrow> bool" where
  "pc_wf p pc R \<longleftrightarrow>
     pool_wf p (mset (cached_blocks pc) + R) \<and>
     distinct (map fst (pc_entries pc)) \<and> distinct (cached_blocks pc) \<and>
     map_of (pc_by_block pc) = map_of (map (\<lambda>(h, e). (block_id e, h)) (pc_entries pc)) \<and>
     (\<forall>(h, e) \<in> set (pc_entries pc). last_used e \<le> pc_clock pc)"

text \<open>What a client sees of the cache: which block, if any, a key names.\<close>

definition pc_view :: "prefix_cache \<Rightarrow> int \<Rightarrow> nat option" where
  "pc_view pc h = map_option block_id (map_of (pc_entries pc) h)"

definition swap_entry :: "int \<times> cache_entry \<Rightarrow> nat \<times> int" where
  "swap_entry x = (block_id (snd x), fst x)"

section \<open>Reference counts through the pool\<close>

lemma pool_incref:
  assumes "pool_wf p M" and "b \<in># M"
  shows "\<exists>a. on_alloc (incref b) p = (Ret (), p\<lparr>alloc := a\<rparr>) \<and> pool_wf (p\<lparr>alloc := a\<rparr>) (add_mset b M) \<and>
    num_free a = num_free (alloc p) \<and> num_blocks a = num_blocks (alloc p)"
  using ba.inc_held [OF pool_wf_allocD [OF assms(1)] assms(2)] pool_wf_alloc [OF assms(1)]
  by (auto simp: on_alloc_eq)

lemma pool_decref:
  assumes "pool_wf p M" and "b \<in># M"
  shows "\<exists>a r. on_alloc (decref b) p = (Ret r, p\<lparr>alloc := a\<rparr>) \<and> pool_wf (p\<lparr>alloc := a\<rparr>) (M - {#b#}) \<and>
    num_free a = num_free (alloc p) + (if b \<in># M - {#b#} then 0 else 1) \<and> num_blocks a = num_blocks (alloc p)"
  using ba.dec_held [OF pool_wf_allocD [OF assms(1)] assms(2)] pool_wf_alloc [OF assms(1)]
  by (fastforce simp: on_alloc_eq)

section \<open>Dictionary updates\<close>

lemma map_update_same:
  "map_of al h = Some e \<Longrightarrow> g (h, e') = g (h, e) \<Longrightarrow> map g (AList.update h e' al) = map g al"
  by (induction al) auto

lemma set_update_subset: "set (AList.update h e al) \<subseteq> insert (h, e) (set al)"
  by (induction al) auto

lemma update_new: "map_of al h = None \<Longrightarrow> AList.update h e al = al @ [(h, e)]"
  by (induction al) (auto split: if_splits)

lemma delete_distinct_value:
  assumes "distinct (map fst al)" and "distinct (map f al)" and "(h, e) \<in> set al"
  shows "AList.delete h al = filter (\<lambda>x. f x \<noteq> f (h, e)) al"
  unfolding AList.delete_eq
proof (rule filter_cong [OF refl])
  fix x assume x: "x \<in> set al"
  have "fst x = h \<longleftrightarrow> x = (h, e)"
    using inj_onD [of fst "set al" x "(h, e)"] assms(1,3) x by (auto simp: distinct_map)
  moreover have "f x = f (h, e) \<longleftrightarrow> x = (h, e)"
    using inj_onD [of f "set al" x "(h, e)"] assms(2,3) x by (auto simp: distinct_map)
  ultimately show "(case x of (k', uu) \<Rightarrow> h \<noteq> k') = (f x \<noteq> f (h, e))"
    by (cases x) auto
qed

lemma mset_filter_neq: "distinct xs \<Longrightarrow> b \<in> set xs \<Longrightarrow> mset (filter (\<lambda>x. x \<noteq> b) xs) = mset xs - {#b#}"
  by (metis (mono_tags, lifting) distinct_remove1_removeAll filter_cong mset_remove1 removeAll_filter_not_eq)

section \<open>The invariant under each operation\<close>

lemma pc_wf_swap: "map (\<lambda>(h, e). (block_id e, h)) al = map swap_entry al"
  by (auto simp: swap_entry_def)

lemma new_prefix_cache_wf: "pool_wf p R \<Longrightarrow> pc_wf p (new_prefix_cache en) R"
  by (simp add: pc_wf_def new_prefix_cache_def cached_blocks_def)

lemma pc_wf_stats [simp]:
  "pc_wf p (pc\<lparr>pc_stats := s\<rparr>) R = pc_wf p pc R" "pc_wf p (count_entries pc) R = pc_wf p pc R"
  "pc_view (pc\<lparr>pc_stats := s\<rparr>) = pc_view pc" "pc_view (count_entries pc) = pc_view pc"
  "cached_blocks (pc\<lparr>pc_stats := s\<rparr>) = cached_blocks pc" "cached_blocks (count_entries pc) = cached_blocks pc"
  by (simp_all add: pc_wf_def cached_blocks_def count_entries_def pc_view_def [abs_def])

lemma touch_same:
  assumes "map_of (pc_entries pc) h = Some e"
  shows "map fst (pc_entries (touch h e pc)) = map fst (pc_entries pc)"
    and "map swap_entry (pc_entries (touch h e pc)) = map swap_entry (pc_entries pc)"
    and "cached_blocks (touch h e pc) = cached_blocks pc"
    and "pc_by_block (touch h e pc) = pc_by_block pc"
    and "pc_view (touch h e pc) = pc_view pc"
proof -
  show "map fst (pc_entries (touch h e pc)) = map fst (pc_entries pc)"
    and "map swap_entry (pc_entries (touch h e pc)) = map swap_entry (pc_entries pc)"
    and "cached_blocks (touch h e pc) = cached_blocks pc" and "pc_by_block (touch h e pc) = pc_by_block pc"
    using assms by (simp_all add: touch_def tick_def Let_def map_update_same swap_entry_def cached_blocks_def)
  show "pc_view (touch h e pc) = pc_view pc"
    using assms by (auto simp: pc_view_def touch_def tick_def Let_def update_conv')
qed

lemma pc_wf_touch:
  assumes "pc_wf p pc R" and "map_of (pc_entries pc) h = Some e"
  shows "pc_wf p (touch h e pc) R"
proof -
  have "\<forall>(h', e') \<in> set (pc_entries (touch h e pc)). last_used e' \<le> pc_clock (touch h e pc)"
    using assms(1) set_update_subset
    by (fastforce simp: pc_wf_def touch_def tick_def Let_def)
  then show ?thesis
    using assms touch_same [OF assms(2)] by (simp add: pc_wf_def pc_wf_swap)
qed

lemma entry_held:
  assumes "pc_wf p pc R" and "map_of (pc_entries pc) h = Some e"
  shows "block_id e \<in># mset (cached_blocks pc) + R"
  using map_of_SomeD [OF assms(2)] by (force simp: cached_blocks_def)

lemma match_loop_ok:
  assumes "pc_wf p pc R"
  shows "\<exists>ms a pc'. match_loop hs acc (p, pc) = (Ret (acc @ ms), (p\<lparr>alloc := a\<rparr>, pc')) \<and>
    pc_wf (p\<lparr>alloc := a\<rparr>) pc' (mset ms + R) \<and> num_free a = num_free (alloc p) \<and> num_blocks a = num_blocks (alloc p) \<and>
    ms = map (\<lambda>h. the (pc_view pc h)) (takeWhile (\<lambda>h. pc_view pc h \<noteq> None) hs) \<and>
    pc_view pc' = pc_view pc \<and> pc_enabled pc' = pc_enabled pc \<and> cached_blocks pc' = cached_blocks pc"
  using assms
proof (induction hs arbitrary: acc p pc R)
  case Nil
  then show ?case by (intro exI [of _ "[]"] exI [of _ "alloc p"] exI [of _ pc]) simp
next
  case (Cons h hs)
  show ?case
  proof (cases "map_of (pc_entries pc) h")
    case None
    then show ?thesis
      using Cons.prems by (intro exI [of _ "[]"] exI [of _ "alloc p"] exI [of _ pc]) (simp add: pc_view_def)
  next
    case (Some e)
    have wf1: "pc_wf p (touch h e pc) R" using Cons.prems Some by (rule pc_wf_touch)
    note t = touch_same [OF Some]
    have pwf: "pool_wf p (mset (cached_blocks pc) + R)" using Cons.prems by (simp add: pc_wf_def)
    obtain a1 where a1: "on_alloc (incref (block_id e)) p = (Ret (), p\<lparr>alloc := a1\<rparr>)"
      "pool_wf (p\<lparr>alloc := a1\<rparr>) (add_mset (block_id e) (mset (cached_blocks pc) + R))"
      "num_free a1 = num_free (alloc p)" "num_blocks a1 = num_blocks (alloc p)"
      using pool_incref [OF pwf entry_held [OF Cons.prems Some]] by blast
    have "pc_wf (p\<lparr>alloc := a1\<rparr>) (touch h e pc) (add_mset (block_id e) R)"
      using wf1 a1(2) t(3) by (simp add: pc_wf_def)
    from Cons.IH [OF this, of "acc @ [block_id e]"] obtain ms a pc' where m:
      "match_loop hs (acc @ [block_id e]) (p\<lparr>alloc := a1\<rparr>, touch h e pc) = (Ret ((acc @ [block_id e]) @ ms), (p\<lparr>alloc := a\<rparr>, pc'))"
      "pc_wf (p\<lparr>alloc := a\<rparr>) pc' (mset ms + add_mset (block_id e) R)" "num_free a = num_free a1" "num_blocks a = num_blocks a1"
      "ms = map (\<lambda>h. the (pc_view pc h)) (takeWhile (\<lambda>h. pc_view pc h \<noteq> None) hs)"
      "pc_view pc' = pc_view pc" "pc_enabled pc' = pc_enabled pc" "cached_blocks pc' = cached_blocks pc"
      using t(3,5) by (auto simp: touch_def tick_def Let_def)
    then show ?thesis
      using Some a1 by (intro exI [of _ "block_id e # ms"] exI [of _ a] exI [of _ pc'])
        (simp add: pc_view_def)
  qed
qed

lemma match_prefix_ok:
  assumes "pc_wf p pc R"
  shows "\<exists>ms a pc'. match_prefix hash2 ids (p, pc) = (Ret ms, (p\<lparr>alloc := a\<rparr>, pc')) \<and>
    pc_wf (p\<lparr>alloc := a\<rparr>) pc' (mset ms + R) \<and> num_free a = num_free (alloc p) \<and> num_blocks a = num_blocks (alloc p) \<and>
    ms = (if pc_enabled pc
          then map (\<lambda>h. the (pc_view pc h)) (takeWhile (\<lambda>h. pc_view pc h \<noteq> None) (hash_chain hash2 p ids)) else []) \<and>
    pc_view pc' = pc_view pc \<and> pc_enabled pc' = pc_enabled pc \<and> cached_blocks pc' = cached_blocks pc"
proof (cases "pc_enabled pc")
  case False
  then show ?thesis
    using assms by (intro exI [of _ "[]"] exI [of _ "alloc p"] exI [of _ pc]) (simp add: match_prefix_def)
next
  case True
  let ?s = "pc_stats pc"
  let ?pc = "pc\<lparr>pc_stats := ?s\<lparr>queries := queries ?s + 1,
      query_blocks := query_blocks ?s + length (hash_chain hash2 p ids)\<rparr>\<rparr>"
  have "pc_wf p ?pc R" using assms by simp
  from match_loop_ok [OF this, of "hash_chain hash2 p ids" "[]"] True show ?thesis
    by (fastforce simp: match_prefix_def Let_def)
qed

lemma pc_wf_insert:
  assumes wf: "pc_wf p pc R" and h: "map_of (pc_entries pc) h = None" and b: "map_of (pc_by_block pc) b = None"
    and inc: "pool_wf (p\<lparr>alloc := a\<rparr>) (add_mset b (mset (cached_blocks pc) + R))"
    and e: "block_id e = b" "last_used e = pc_clock pc + 1"
  shows "pc_wf (p\<lparr>alloc := a\<rparr>) ((tick pc)\<lparr>pc_entries := AList.update h e (pc_entries pc),
    pc_by_block := AList.update b h (pc_by_block pc)\<rparr>) R"
proof -
  have byb: "map_of (pc_by_block pc) = map_of (map swap_entry (pc_entries pc))"
    using wf by (simp add: pc_wf_def pc_wf_swap)
  have nb: "b \<notin> set (cached_blocks pc)"
  proof
    assume "b \<in> set (cached_blocks pc)"
    then have "b \<in> fst ` set (map swap_entry (pc_entries pc))"
      by (force simp: cached_blocks_def swap_entry_def)
    then show False using b by (simp add: byb map_of_eq_None_iff)
  qed
  have nh: "h \<notin> fst ` set (pc_entries pc)" using h by (simp add: map_of_eq_None_iff)
  have "map_of (pc_by_block pc @ [(b, h)]) = map_of (map swap_entry (pc_entries pc @ [(h, e)]))"
    using byb e(1) by (auto simp: swap_entry_def map_add_def fun_eq_iff split: option.splits)
  then show ?thesis
    using wf nb nh inc e unfolding pc_wf_def pc_wf_swap update_new [OF h] update_new [OF b]
    by (auto simp: cached_blocks_def tick_def)
qed

lemma insert_loop_ok:
  assumes "pc_wf p pc R" and "set bt \<subseteq> set_mset R"
  shows "\<exists>a pc'. insert_loop d par hs bt (p, pc) = (Ret (), (p\<lparr>alloc := a\<rparr>, pc')) \<and>
    pc_wf (p\<lparr>alloc := a\<rparr>) pc' R \<and> num_free a = num_free (alloc p) \<and> num_blocks a = num_blocks (alloc p) \<and>
    pc_enabled pc' = pc_enabled pc \<and>
    (\<forall>k b. pc_view pc k = Some b \<longrightarrow> pc_view pc' k = Some b) \<and>
    (\<forall>k b. pc_view pc' k = Some b \<longrightarrow> pc_view pc k = Some b \<or> (k, b) \<in> set (zip hs bt))"
  using assms
proof (induction hs arbitrary: d par bt p pc)
  case Nil
  then show ?case by (intro exI [of _ "alloc p"] exI [of _ pc]) simp
next
  case (Cons h hs d par bt0 p pc)
  note IH = Cons.IH and wf = Cons.prems(1)
  show ?case
  proof (cases bt0)
    case Nil
    then show ?thesis using wf by (intro exI [of _ "alloc p"] exI [of _ pc]) simp
  next
    case bt: (Cons b bt)
    then have sub: "set bt \<subseteq> set_mset R" "b \<in># R" using Cons.prems(2) by auto
    consider (hit) e where "map_of (pc_entries pc) h = Some e"
      | (tracked) "map_of (pc_entries pc) h = None" "map_of (pc_by_block pc) b \<noteq> None"
      | (new) "map_of (pc_entries pc) h = None" "map_of (pc_by_block pc) b = None"
      by (cases "map_of (pc_entries pc) h") auto
    then show ?thesis
    proof cases
      case hit
      have "pc_enabled (touch h e pc) = pc_enabled pc" by (simp add: touch_def tick_def Let_def)
      moreover obtain a pc' where "insert_loop (Suc d) h hs bt (p, touch h e pc) = (Ret (), (p\<lparr>alloc := a\<rparr>, pc'))"
        "pc_wf (p\<lparr>alloc := a\<rparr>) pc' R" "num_free a = num_free (alloc p)" "num_blocks a = num_blocks (alloc p)"
        "pc_enabled pc' = pc_enabled (touch h e pc)" "\<forall>k b. pc_view pc k = Some b \<longrightarrow> pc_view pc' k = Some b"
        "\<forall>k b. pc_view pc' k = Some b \<longrightarrow> pc_view pc k = Some b \<or> (k, b) \<in> set (zip hs bt)"
        using IH [OF pc_wf_touch [OF wf hit] sub(1), of "Suc d" h] touch_same(5) [OF hit] by auto
      ultimately show ?thesis
        using hit bt by (intro exI [of _ a] exI [of _ pc']) auto
    next
      case tracked
      moreover obtain a pc' where "insert_loop (Suc d) h hs bt (p, pc) = (Ret (), (p\<lparr>alloc := a\<rparr>, pc'))"
        "pc_wf (p\<lparr>alloc := a\<rparr>) pc' R" "num_free a = num_free (alloc p)" "num_blocks a = num_blocks (alloc p)"
        "pc_enabled pc' = pc_enabled pc" "\<forall>k b. pc_view pc k = Some b \<longrightarrow> pc_view pc' k = Some b"
        "\<forall>k b. pc_view pc' k = Some b \<longrightarrow> pc_view pc k = Some b \<or> (k, b) \<in> set (zip hs bt)"
        using IH [OF wf sub(1), of "Suc d" h] by auto
      ultimately show ?thesis
        using bt by (intro exI [of _ a] exI [of _ pc']) auto
    next
      case new
      have pwf: "pool_wf p (mset (cached_blocks pc) + R)" using wf by (simp add: pc_wf_def)
      obtain a1 where a1: "on_alloc (incref b) p = (Ret (), p\<lparr>alloc := a1\<rparr>)"
        "pool_wf (p\<lparr>alloc := a1\<rparr>) (add_mset b (mset (cached_blocks pc) + R))"
        "num_free a1 = num_free (alloc p)" "num_blocks a1 = num_blocks (alloc p)"
        using pool_incref [OF pwf, of b] sub(2) by auto
      let ?e = "\<lparr>block_id = b, parent_hash = par, last_used = pc_clock (tick pc), depth = d\<rparr>"
      let ?pc = "(tick pc)\<lparr>pc_entries := AList.update h ?e (pc_entries pc), pc_by_block := AList.update b h (pc_by_block pc)\<rparr>"
      have tk: "pc_entries (tick pc) = pc_entries pc" "pc_by_block (tick pc) = pc_by_block pc" "pc_enabled ?pc = pc_enabled pc"
        by (simp_all add: tick_def)
      have wf1: "pc_wf (p\<lparr>alloc := a1\<rparr>) ?pc R"
        by (rule pc_wf_insert [OF wf new a1(2)]) (simp_all add: tick_def)
      have v: "pc_view ?pc = (pc_view pc)(h \<mapsto> b)"
        by (auto simp: pc_view_def fun_eq_iff update_conv')
      have h0: "pc_view pc h = None" using new by (simp add: pc_view_def)
      obtain a pc' where ih: "insert_loop (Suc d) h hs bt (p\<lparr>alloc := a1\<rparr>, ?pc) = (Ret (), (p\<lparr>alloc := a\<rparr>, pc'))"
        "pc_wf (p\<lparr>alloc := a\<rparr>) pc' R" "num_free a = num_free a1" "num_blocks a = num_blocks a1" "pc_enabled pc' = pc_enabled pc"
        "\<forall>k b'. ((pc_view pc)(h \<mapsto> b)) k = Some b' \<longrightarrow> pc_view pc' k = Some b'"
        "\<forall>k b'. pc_view pc' k = Some b' \<longrightarrow> ((pc_view pc)(h \<mapsto> b)) k = Some b' \<or> (k, b') \<in> set (zip hs bt)"
        using IH [OF wf1 sub(1), of "Suc d" h] tk(3) unfolding v by auto
      have "insert_loop d par (h # hs) bt0 (p, pc) = (Ret (), (p\<lparr>alloc := a\<rparr>, pc'))"
        using new a1(1) ih(1) bt tk by (simp add: Let_def)
      moreover have "\<forall>k b'. pc_view pc' k = Some b' \<longrightarrow> pc_view pc k = Some b' \<or> (k, b') \<in> set (zip (h # hs) bt0)"
        using ih(7) bt by (auto split: if_splits)
      moreover have "\<forall>k b'. pc_view pc k = Some b' \<longrightarrow> pc_view pc' k = Some b'"
        using ih(6) h0 by (metis fun_upd_other option.distinct(1))
      ultimately show ?thesis
        using ih(2-5) a1 by (intro exI [of _ a] exI [of _ pc']) simp
    qed
  qed
qed

lemma insert_prefix_ok:
  assumes "pc_wf p pc R" and "set bt \<subseteq> set_mset R"
  shows "\<exists>a pc'. insert_prefix hash2 ids bt (p, pc) = (Ret (), (p\<lparr>alloc := a\<rparr>, pc')) \<and>
    pc_wf (p\<lparr>alloc := a\<rparr>) pc' R \<and> num_free a = num_free (alloc p) \<and> num_blocks a = num_blocks (alloc p) \<and>
    pc_enabled pc' = pc_enabled pc \<and>
    (\<forall>k b. pc_view pc' k = Some b \<longrightarrow> pc_view pc k = Some b \<or> (k, b) \<in> set (zip (hash_chain hash2 p ids) bt))"
proof (cases "pc_enabled pc")
  case False
  then show ?thesis
    using assms by (intro exI [of _ "alloc p"] exI [of _ pc]) (simp add: insert_prefix_def)
next
  case True
  obtain a pc' where "insert_loop 0 ROOT_HASH (hash_chain hash2 p ids) bt (p, pc) = (Ret (), (p\<lparr>alloc := a\<rparr>, pc'))"
    "pc_wf (p\<lparr>alloc := a\<rparr>) pc' R" "num_free a = num_free (alloc p)" "num_blocks a = num_blocks (alloc p)"
    "pc_enabled pc' = pc_enabled pc"
    "\<forall>k b. pc_view pc' k = Some b \<longrightarrow> pc_view pc k = Some b \<or> (k, b) \<in> set (zip (hash_chain hash2 p ids) bt)"
    using insert_loop_ok [OF assms, of 0 ROOT_HASH "hash_chain hash2 p ids"] by auto
  then show ?thesis
    using True by (intro exI [of _ a] exI [of _ "count_entries pc'"]) (simp add: insert_prefix_def, simp add: count_entries_def)
qed

section \<open>Eviction\<close>

lemma evictable_ok:
  assumes "alloc_ok a M" and "\<forall>(h, e) \<in> set es. block_id e \<in># M"
  shows "evictable a es =
    Ret (map (\<lambda>(h, e). (last_used e, - int (depth e), h)) (filter (\<lambda>(h, e). count M (block_id e) = 1) es))"
  using assms(2)
proof (induction es)
  case Nil
  then show ?case by simp
next
  case (Cons x es)
  obtain h e where x: "x = (h, e)" by (cases x)
  have "ref_count a (block_id e) = Ret (count M (block_id e))"
    using ba.count_positive [OF assms(1), of "block_id e"] Cons.prems x by auto
  then show ?case
    using Cons x by simp
qed

lemma count_cached:
  assumes "distinct (cached_blocks pc)" and "b \<in> set (cached_blocks pc)"
  shows "count (mset (cached_blocks pc) + R) b = 1 \<longleftrightarrow> b \<notin># R"
  using assms by (simp add: count_mset_distinct not_in_iff)

lemma delete_swapped: "AList.delete b (map swap_entry al) = map swap_entry (filter (\<lambda>x. block_id (snd x) \<noteq> b) al)"
  by (induction al) (auto simp: swap_entry_def)

lemma pc_wf_remove:
  assumes wf: "pc_wf p pc R" and e: "map_of (pc_entries pc) h = Some e"
    and dec: "pool_wf (p\<lparr>alloc := a\<rparr>) (mset (cached_blocks pc) + R - {#block_id e#})"
  shows "pc_wf (p\<lparr>alloc := a\<rparr>) (pc\<lparr>pc_entries := AList.delete h (pc_entries pc),
      pc_by_block := AList.delete (block_id e) (pc_by_block pc)\<rparr>) R"
    and "cached_blocks (pc\<lparr>pc_entries := AList.delete h (pc_entries pc),
      pc_by_block := AList.delete (block_id e) (pc_by_block pc)\<rparr>) = filter (\<lambda>b. b \<noteq> block_id e) (cached_blocks pc)"
proof -
  let ?al = "pc_entries pc" and ?b = "block_id e"
  let ?pc = "pc\<lparr>pc_entries := AList.delete h ?al, pc_by_block := AList.delete ?b (pc_by_block pc)\<rparr>"
  have d: "distinct (map fst ?al)" "distinct (map (block_id \<circ> snd) ?al)" "(h, e) \<in> set ?al"
    using wf e by (auto simp: pc_wf_def cached_blocks_def dest: map_of_SomeD)
  have del: "AList.delete h ?al = filter (\<lambda>x. block_id (snd x) \<noteq> ?b) ?al"
    using delete_distinct_value [OF d] by simp
  show cb: "cached_blocks ?pc = filter (\<lambda>b. b \<noteq> ?b) (cached_blocks pc)"
    by (simp add: cached_blocks_def del filter_map comp_def)
  have "?b \<in> set (cached_blocks pc)" using d(3) by (force simp: cached_blocks_def)
  then have m: "mset (cached_blocks ?pc) = mset (cached_blocks pc) - {#?b#}"
    using wf unfolding cb by (intro mset_filter_neq) (simp_all add: pc_wf_def)
  have "map_of (AList.delete ?b (pc_by_block pc)) = (map_of (pc_by_block pc))(?b := None)"
    by (rule delete_conv')
  also have "\<dots> = map_of (AList.delete ?b (map swap_entry ?al))"
    using wf by (simp add: pc_wf_def pc_wf_swap delete_conv')
  also have "AList.delete ?b (map swap_entry ?al) = map swap_entry (AList.delete h ?al)"
    unfolding del by (rule delete_swapped)
  finally have "map_of (pc_by_block ?pc) = map_of (map swap_entry (pc_entries ?pc))" by simp
  moreover have "pool_wf (p\<lparr>alloc := a\<rparr>) (mset (cached_blocks ?pc) + R)"
    using dec \<open>?b \<in> set (cached_blocks pc)\<close> by (simp add: m)
  moreover have "\<forall>(h, e) \<in> set (pc_entries ?pc). last_used e \<le> pc_clock ?pc"
    using wf by (auto simp: pc_wf_def del)
  ultimately show "pc_wf (p\<lparr>alloc := a\<rparr>) ?pc R"
    using wf cb d(1) by (simp add: pc_wf_def pc_wf_swap distinct_map_filter del)
qed

lemma evict_loop_ok:
  assumes "pc_wf p pc R" and "distinct (map (snd \<circ> snd) ks)"
    and "\<forall>(u, d, h) \<in> set ks. \<exists>e. map_of (pc_entries pc) h = Some e \<and> block_id e \<notin># R"
  shows "\<exists>a pc'. evict_loop ks freed (p, pc) = (Ret (freed + length ks), (p\<lparr>alloc := a\<rparr>, pc')) \<and>
    pc_wf (p\<lparr>alloc := a\<rparr>) pc' R \<and> num_free a = num_free (alloc p) + length ks \<and>
    num_blocks a = num_blocks (alloc p) \<and> pc_enabled pc' = pc_enabled pc \<and>
    map_of (pc_entries pc') = (\<lambda>k. if k \<in> (snd \<circ> snd) ` set ks then None else map_of (pc_entries pc) k)"
  using assms
proof (induction ks arbitrary: freed p pc)
  case Nil
  then show ?case by (intro exI [of _ "alloc p"] exI [of _ pc]) simp
next
  case (Cons x ks)
  obtain u d h where x: "x = (u, d, h)" by (cases x)
  obtain e where e: "map_of (pc_entries pc) h = Some e" "block_id e \<notin># R"
    using Cons.prems(3) x by auto
  let ?pc = "pc\<lparr>pc_entries := AList.delete h (pc_entries pc), pc_by_block := AList.delete (block_id e) (pc_by_block pc)\<rparr>"
  have pwf: "pool_wf p (mset (cached_blocks pc) + R)" and dc: "distinct (cached_blocks pc)"
    using Cons.prems(1) by (simp_all add: pc_wf_def)
  have held: "block_id e \<in># mset (cached_blocks pc) + R" using entry_held [OF Cons.prems(1) e(1)] .
  then have last: "block_id e \<notin># mset (cached_blocks pc) + R - {#block_id e#}"
    using count_cached [OF dc, of "block_id e" R] e(2) by (simp add: not_in_iff)
  obtain a1 r where a1: "on_alloc (decref (block_id e)) p = (Ret r, p\<lparr>alloc := a1\<rparr>)"
    "pool_wf (p\<lparr>alloc := a1\<rparr>) (mset (cached_blocks pc) + R - {#block_id e#})"
    "num_free a1 = num_free (alloc p) + 1" "num_blocks a1 = num_blocks (alloc p)"
    using pool_decref [OF pwf held] last by auto
  have wf1: "pc_wf (p\<lparr>alloc := a1\<rparr>) ?pc R" by (rule pc_wf_remove(1) [OF Cons.prems(1) e(1) a1(2)])
  have mo: "map_of (pc_entries ?pc) = (map_of (pc_entries pc))(h := None)" by (simp add: delete_conv')
  have nin: "h \<notin> (snd \<circ> snd) ` set ks" using Cons.prems(2) x by (simp add: image_comp)
  have ks: "\<forall>(u, d, h') \<in> set ks. \<exists>e'. map_of (pc_entries ?pc) h' = Some e' \<and> block_id e' \<notin># R"
  proof (clarify, goal_cases)
    case (1 u' d' h')
    then have "h' \<noteq> h" using nin by force
    then show ?case using Cons.prems(3) 1 by (auto simp: delete_conv')
  qed
  have dks: "distinct (map (snd \<circ> snd) ks)" using Cons.prems(2) by (simp add: comp_def)
  from Cons.IH [OF wf1 dks ks, of "freed + 1", unfolded mo] obtain a pc' where "evict_loop ks (freed + 1) (p\<lparr>alloc := a1\<rparr>, ?pc) = (Ret (freed + 1 + length ks), (p\<lparr>alloc := a\<rparr>, pc'))"
      "pc_wf (p\<lparr>alloc := a\<rparr>) pc' R" "num_free a = num_free a1 + length ks" "num_blocks a = num_blocks a1"
      "pc_enabled pc' = pc_enabled pc"
      "map_of (pc_entries pc') = (\<lambda>k. if k \<in> (snd \<circ> snd) ` set ks then None else ((map_of (pc_entries pc))(h := None)) k)"
    by auto
  then show ?case
    using x e a1 by (intro exI [of _ a] exI [of _ pc']) (auto simp: Let_def)
qed

text \<open>The cached blocks that no running sequence reads.\<close>

definition idle_entries :: "prefix_cache \<Rightarrow> nat multiset \<Rightarrow> (int \<times> cache_entry) list" where
  "idle_entries pc R = filter (\<lambda>(h, e). block_id e \<notin># R) (pc_entries pc)"

definition evict_key :: "int \<times> cache_entry \<Rightarrow> nat \<times> int \<times> int" where
  "evict_key = (\<lambda>(h, e). (last_used e, - int (depth e), h))"

lemma evictable_idle:
  assumes "pc_wf p pc R"
  shows "evictable (alloc p) (pc_entries pc) = Ret (map evict_key (idle_entries pc R))"
proof -
  have ok: "alloc_ok (alloc p) (mset (cached_blocks pc) + R)" and dc: "distinct (cached_blocks pc)"
    using assms by (simp_all add: pc_wf_def pool_wf_def)
  have in_c: "block_id e \<in> set (cached_blocks pc)" if "(h, e) \<in> set (pc_entries pc)" for h e
    using that by (force simp: cached_blocks_def)
  have "evictable (alloc p) (pc_entries pc) = Ret (map (\<lambda>(h, e). (last_used e, - int (depth e), h))
      (filter (\<lambda>(h, e). count (mset (cached_blocks pc) + R) (block_id e) = 1) (pc_entries pc)))"
    by (rule evictable_ok [OF ok]) (auto dest: in_c)
  also have "filter (\<lambda>(h, e). count (mset (cached_blocks pc) + R) (block_id e) = 1) (pc_entries pc) = idle_entries pc R"
    unfolding idle_entries_def using count_cached [OF dc] by (intro filter_cong) (auto dest: in_c)
  finally show ?thesis by (simp add: evict_key_def)
qed

lemma idle_map_of:
  assumes "pc_wf p pc R" and "(h, e) \<in> set (idle_entries pc R)"
  shows "map_of (pc_entries pc) h = Some e \<and> block_id e \<notin># R"
  using assms by (auto simp: idle_entries_def pc_wf_def)

lemma evict_ok:
  assumes wf: "pc_wf p pc R"
  shows "\<exists>a pc'. evict n (p, pc) = (Ret (min n (length (idle_entries pc R))), (p\<lparr>alloc := a\<rparr>, pc')) \<and>
    pc_wf (p\<lparr>alloc := a\<rparr>) pc' R \<and> num_free a = num_free (alloc p) + min n (length (idle_entries pc R)) \<and>
    num_blocks a = num_blocks (alloc p) \<and> pc_enabled pc' = pc_enabled pc \<and>
    map_of (pc_entries pc') = (\<lambda>k. if k \<in> (snd \<circ> snd) ` set (take n (sort (map evict_key (idle_entries pc R))))
      then None else map_of (pc_entries pc) k)"
proof (cases "idle_entries pc R = []")
  case True
  then show ?thesis
    using wf by (intro exI [of _ "alloc p"] exI [of _ pc]) (simp add: evict_def evictable_idle [OF wf])
next
  case False
  let ?ks = "take n (sort (map evict_key (idle_entries pc R)))"
  have sub: "set ?ks \<subseteq> evict_key ` set (idle_entries pc R)"
    by (auto dest: in_set_takeD)
  have "distinct (map fst (idle_entries pc R))"
    using wf by (simp add: pc_wf_def idle_entries_def distinct_map_filter)
  then have "distinct (map (snd \<circ> snd) (map evict_key (idle_entries pc R)))"
    by (simp add: evict_key_def comp_def case_prod_unfold)
  then have "distinct (map (snd \<circ> snd) (sort (map evict_key (idle_entries pc R))))"
    by (metis mset_eq_imp_distinct_iff mset_map mset_sort)
  then have d: "distinct (map (snd \<circ> snd) ?ks)" by (metis distinct_take take_map)
  have "\<forall>(u, d, h) \<in> set ?ks. \<exists>e. map_of (pc_entries pc) h = Some e \<and> block_id e \<notin># R"
    using sub idle_map_of [OF wf] by (fastforce simp: evict_key_def)
  from evict_loop_ok [OF wf d this, of 0] obtain a pc' where
    "evict_loop ?ks 0 (p, pc) = (Ret (length ?ks), (p\<lparr>alloc := a\<rparr>, pc'))"
    "pc_wf (p\<lparr>alloc := a\<rparr>) pc' R" "num_free a = num_free (alloc p) + length ?ks"
    "num_blocks a = num_blocks (alloc p)" "pc_enabled pc' = pc_enabled pc"
    "map_of (pc_entries pc') = (\<lambda>k. if k \<in> (snd \<circ> snd) ` set ?ks then None else map_of (pc_entries pc) k)"
    by auto
  then show ?thesis
    using False evictable_idle [OF wf]
    by (intro exI [of _ a] exI [of _ "count_entries (pc'\<lparr>pc_stats := (pc_stats pc')\<lparr>evictions := evictions (pc_stats pc') + length ?ks\<rparr>\<rparr>)"])
      (simp add: evict_def Let_def min.commute, simp add: count_entries_def)
qed

text \<open>Free blocks and idle cached blocks together are the blocks no running sequence holds.\<close>

lemma idle_accounting:
  assumes "pc_wf p pc R"
  shows "num_free (alloc p) + length (idle_entries pc R) + card (set_mset R) = num_blocks (alloc p)"
proof -
  have ok: "alloc_ok (alloc p) (mset (cached_blocks pc) + R)" and dc: "distinct (cached_blocks pc)"
    using assms by (simp_all add: pc_wf_def pool_wf_def)
  have eq: "map (block_id \<circ> snd) (idle_entries pc R) = filter (\<lambda>b. b \<notin># R) (cached_blocks pc)"
    by (simp add: idle_entries_def cached_blocks_def filter_map comp_def case_prod_unfold)
  have "length (idle_entries pc R) = card (set (filter (\<lambda>b. b \<notin># R) (cached_blocks pc)))"
    using arg_cong [OF eq, of length] distinct_card [OF distinct_filter [OF dc, of "\<lambda>b. b \<notin># R"]] by simp
  moreover have "set_mset (mset (cached_blocks pc) + R) = set (filter (\<lambda>b. b \<notin># R) (cached_blocks pc)) \<union> set_mset R"
    by auto
  moreover have "card (set (filter (\<lambda>b. b \<notin># R) (cached_blocks pc)) \<union> set_mset R) =
      card (set (filter (\<lambda>b. b \<notin># R) (cached_blocks pc))) + card (set_mset R)"
    by (rule card_Un_disjoint) auto
  ultimately show ?thesis
    using ba.accounting [OF ok] by simp
qed

lemma ensure_free_ok:
  assumes "pc_wf p pc R"
  shows "\<exists>a pc'. ensure_free n (p, pc) =
      (Ret (n + card (set_mset R) \<le> num_blocks (alloc p)), (p\<lparr>alloc := a\<rparr>, pc')) \<and>
    pc_wf (p\<lparr>alloc := a\<rparr>) pc' R \<and> num_blocks a = num_blocks (alloc p) \<and> num_free (alloc p) \<le> num_free a \<and>
    pc_enabled pc' = pc_enabled pc \<and>
    (n + card (set_mset R) \<le> num_blocks (alloc p) \<longrightarrow> n \<le> num_free a) \<and>
    (\<forall>k b. pc_view pc' k = Some b \<longrightarrow> pc_view pc k = Some b)"
  using assms
proof (induction n "(p, pc)" arbitrary: p pc rule: ensure_free.induct)
  case (1 n p pc)
  note acc = idle_accounting [OF "1.prems"]
  show ?case
  proof (cases "num_free (alloc p) < n")
    case False
    then show ?thesis
      using "1.prems" acc ensure_free.simps [of n p pc] by (intro exI [of _ "alloc p"] exI [of _ pc]) auto
  next
    case True
    define f where "f = min (n - num_free (alloc p)) (length (idle_entries pc R))"
    obtain a1 pc1 where e: "evict (n - num_free (alloc p)) (p, pc) = (Ret f, (p\<lparr>alloc := a1\<rparr>, pc1))"
      "pc_wf (p\<lparr>alloc := a1\<rparr>) pc1 R" "num_free a1 = num_free (alloc p) + f" "num_blocks a1 = num_blocks (alloc p)"
      "pc_enabled pc1 = pc_enabled pc"
      "map_of (pc_entries pc1) = (\<lambda>k. if k \<in> (snd \<circ> snd) ` set (take (n - num_free (alloc p)) (sort (map evict_key (idle_entries pc R))))
        then None else map_of (pc_entries pc) k)"
      using evict_ok [OF "1.prems"] unfolding f_def by blast
    have v: "\<forall>k b. pc_view pc1 k = Some b \<longrightarrow> pc_view pc k = Some b"
      using e(6) by (simp add: pc_view_def)
    show ?thesis
    proof (cases "f = 0")
      case f0: True
      then have "idle_entries pc R = []" using True by (auto simp: f_def min_def split: if_splits)
      then show ?thesis
        using True f0 e v acc f_def ensure_free.simps [of n p pc] by (intro exI [of _ a1] exI [of _ pc1]) auto
    next
      case False
      obtain a pc' where "ensure_free n (p\<lparr>alloc := a1\<rparr>, pc1) =
          (Ret (n + card (set_mset R) \<le> num_blocks a1), (p\<lparr>alloc := a\<rparr>, pc'))"
        "pc_wf (p\<lparr>alloc := a\<rparr>) pc' R" "num_blocks a = num_blocks a1" "num_free a1 \<le> num_free a" "pc_enabled pc' = pc_enabled pc1"
        "n + card (set_mset R) \<le> num_blocks a1 \<longrightarrow> n \<le> num_free a"
        "\<forall>k b. pc_view pc' k = Some b \<longrightarrow> pc_view pc1 k = Some b"
        using "1.hyps" [OF True e(1) [symmetric] refl refl False e(2)] by auto
      moreover have "ensure_free n (p, pc) = ensure_free n (p\<lparr>alloc := a1\<rparr>, pc1)"
        using True e(1) False ensure_free.simps [of n p pc] by simp
      ultimately show ?thesis
        using e v by (intro exI [of _ a] exI [of _ pc']) auto
    qed
  qed
qed

section \<open>Clearing and attaching\<close>

lemma clear_loop_ok:
  assumes "pool_wf p (mset (map (block_id \<circ> snd) es) + R)" and "pc_entries pc = es" and "distinct (map fst es)"
  shows "\<exists>a. clear_loop es (p, pc) = (Ret (), (p\<lparr>alloc := a\<rparr>, pc\<lparr>pc_entries := []\<rparr>)) \<and>
    pool_wf (p\<lparr>alloc := a\<rparr>) R \<and> num_blocks a = num_blocks (alloc p)"
  using assms
proof (induction es arbitrary: p pc)
  case Nil
  then show ?case by (intro exI [of _ "alloc p"]) simp
next
  case (Cons x es)
  obtain h e where x: "x = (h, e)" by (cases x)
  let ?M = "mset (map (block_id \<circ> snd) (x # es)) + R"
  obtain a1 r where a1: "on_alloc (decref (block_id e)) p = (Ret r, p\<lparr>alloc := a1\<rparr>)"
    "pool_wf (p\<lparr>alloc := a1\<rparr>) (mset (map (block_id \<circ> snd) es) + R)" "num_blocks a1 = num_blocks (alloc p)"
    using pool_decref [OF Cons.prems(1), of "block_id e"] x by (auto simp: comp_def)
  have "AList.delete h (pc_entries pc) = es"
    using Cons.prems(2,3) x by (force simp: AList.delete_eq filter_id_conv)
  then show ?case
    using Cons.IH [OF a1(2), of "pc\<lparr>pc_entries := es\<rparr>"] Cons.prems(3) a1 x by auto
qed

lemma clear_ok:
  assumes "pc_wf p pc R"
  shows "\<exists>a pc'. clear (p, pc) = (Ret (), (p\<lparr>alloc := a\<rparr>, pc')) \<and> pc_wf (p\<lparr>alloc := a\<rparr>) pc' R \<and>
    pc_entries pc' = [] \<and> num_blocks a = num_blocks (alloc p)"
proof -
  have "pool_wf p (mset (map (block_id \<circ> snd) (pc_entries pc)) + R)" "distinct (map fst (pc_entries pc))"
    using assms by (simp_all add: pc_wf_def cached_blocks_def)
  from clear_loop_ok [OF this(1) refl this(2)] show ?thesis
    by (auto simp: clear_def pc_wf_def cached_blocks_def)
qed

lemma fold_append_block:
  "fold (append_block p) bs c =
    c\<lparr>block_table := block_table c @ bs, slots := slots c @ table_slots (block_size p) bs\<rparr>"
  by (induction bs arbitrary: c) (simp_all add: append_block_def)

lemma attach_fresh:
  assumes "0 < block_size p" and "distinct bs"
  shows "\<exists>c. attach p new_pcache bs = (length bs * block_size p, c) \<and> block_table c = bs \<and>
    num_tokens c = length bs * block_size p \<and> cache_wf p c"
  using assms
  by (auto simp: attach_def fold_append_block Let_def new_pcache_def cache_wf_def table_wf_def)

section \<open>Properties\<close>

definition demo_hash :: hash_fn where
  "demo_hash parent ts = 31 * parent + int (sum_list ts)"

text \<open>A cache that holds the two blocks of a four-token prompt, for the concrete instances.\<close>

lemma demo_cached:
  "\<exists>p c p1 pc1.
     update 0 [1, 2, 3, 4] [5, 6, 7, 8] (new_pool (0::nat) TINY 4 2 2, new_pcache) = (Ret ([1, 2, 3, 4], [5, 6, 7, 8]), (p, c)) \<and>
     insert_prefix demo_hash [1, 2, 3, 4] (block_table c) (p, new_prefix_cache True) = (Ret (), (p1, pc1)) \<and>
     pc_wf p1 pc1 (mset (block_table c)) \<and> pc_enabled pc1"
proof -
  have "\<exists>p c. update 0 [1, 2, 3, 4] [5, 6, 7, 8] (new_pool (0::nat) TINY 4 2 2, new_pcache) =
      (Ret ([1, 2, 3, 4], [5, 6, 7, 8]), (p, c)) \<and>
      pool_wf p (mset (block_table c)) \<and> cache_wf p c \<and> num_tokens c = length [1, 2, 3, 4::nat] \<and> block_size p = 2 \<and>
      cfg p = TINY \<and> num_free (alloc p) = 4 - ceil_div (length [1, 2, 3, 4::nat]) 2"
    by (rule first_write) (simp_all add: TINY_def NANO_27M_def)
  then obtain p c where u: "update 0 [1, 2, 3, 4] [5, 6, 7, 8] (new_pool (0::nat) TINY 4 2 2, new_pcache) =
      (Ret ([1, 2, 3, 4], [5, 6, 7, 8]), (p, c))" "pool_wf p (mset (block_table c))" by blast
  have "pc_enabled (new_prefix_cache True)" by (simp add: new_prefix_cache_def)
  then show ?thesis
    using u insert_prefix_ok [OF new_prefix_cache_wf [OF u(2), of True], of "block_table c" demo_hash "[1, 2, 3, 4]"] by fastforce
qed

text \<open>C19: lookup returns the longest cached prefix. It answers with the blocks of the keys up to the first miss, takes
  exactly one reference on each for the caller, uses no free block and leaves what the cache knows unchanged.\<close>

theorem match_longest_prefix:
  assumes "pc_wf p pc R" and "pc_enabled pc"
  shows "\<exists>ms p' pc'. match_prefix hash2 ids (p, pc) = (Ret ms, (p', pc')) \<and>
    ms = map (\<lambda>h. the (pc_view pc h)) (takeWhile (\<lambda>h. pc_view pc h \<noteq> None) (hash_chain hash2 p ids)) \<and>
    pc_wf p' pc' (mset ms + R) \<and> num_free (alloc p') = num_free (alloc p) \<and> pc_view pc' = pc_view pc"
  using match_prefix_ok [OF assms(1), of hash2 ids] assms(2) by auto

theorem match_longest_prefix_witness:
  "\<exists>p c p1 pc1 ms p' pc'.
     update 0 [1, 2, 3, 4] [5, 6, 7, 8] (new_pool (0::nat) TINY 4 2 2, new_pcache) = (Ret ([1, 2, 3, 4], [5, 6, 7, 8]), (p, c)) \<and>
     insert_prefix demo_hash [1, 2, 3, 4] (block_table c) (p, new_prefix_cache True) = (Ret (), (p1, pc1)) \<and>
     match_prefix demo_hash [1, 2, 3, 4, 9] (p1, pc1) = (Ret ms, (p', pc')) \<and> pc_wf p' pc' (mset ms + mset (block_table c))"
  using demo_cached match_longest_prefix by meson

text \<open>C20: reclaiming is exact and safe. \<^verbatim>\<open>ensure_free\<close> terminates, succeeds precisely when enough blocks are not held
  by running sequences, and keeps every reference of the running sequences in place.\<close>

theorem ensure_free_exact:
  assumes "pc_wf p pc R"
  shows "\<exists>p' pc'. ensure_free n (p, pc) = (Ret (n + card (set_mset R) \<le> num_blocks (alloc p)), (p', pc')) \<and>
    pc_wf p' pc' R \<and> (n + card (set_mset R) \<le> num_blocks (alloc p) \<longrightarrow> n \<le> num_free (alloc p')) \<and>
    kmem p' = kmem p \<and> vmem p' = vmem p"
  using ensure_free_ok [OF assms, of n] by auto

theorem ensure_free_exact_witness:
  "\<exists>p c p1 pc1 b p' pc'.
     update 0 [1, 2, 3, 4] [5, 6, 7, 8] (new_pool (0::nat) TINY 4 2 2, new_pcache) = (Ret ([1, 2, 3, 4], [5, 6, 7, 8]), (p, c)) \<and>
     insert_prefix demo_hash [1, 2, 3, 4] (block_table c) (p, new_prefix_cache True) = (Ret (), (p1, pc1)) \<and>
     ensure_free 3 (p1, pc1) = (Ret b, (p', pc')) \<and> pc_wf p' pc' (mset (block_table c))"
  using demo_cached ensure_free_exact by meson

text \<open>C33: eviction takes the coldest blocks nobody reads. Exactly the requested number of entries (or all the idle ones)
  go, each to the free list; an entry a running sequence shares is never taken, and no idle entry that stays was used less
  recently than one that went.\<close>

theorem evict_coldest_idle:
  assumes "pc_wf p pc R"
  shows "\<exists>f p' pc'. evict n (p, pc) = (Ret f, (p', pc')) \<and> f = min n (length (idle_entries pc R)) \<and>
    pc_wf p' pc' R \<and> num_free (alloc p') = num_free (alloc p) + f \<and>
    (\<forall>h e. map_of (pc_entries pc) h = Some e \<and> block_id e \<in># R \<longrightarrow> map_of (pc_entries pc') h = Some e) \<and>
    (\<forall>h e h' e'. map_of (pc_entries pc) h = Some e \<and> map_of (pc_entries pc') h = None \<and>
       map_of (pc_entries pc') h' = Some e' \<and> block_id e' \<notin># R \<longrightarrow> last_used e \<le> last_used e')"
proof -
  let ?ks = "sort (map evict_key (idle_entries pc R))"
  obtain a pc' where e: "evict n (p, pc) = (Ret (min n (length (idle_entries pc R))), (p\<lparr>alloc := a\<rparr>, pc'))"
    "pc_wf (p\<lparr>alloc := a\<rparr>) pc' R" "num_free a = num_free (alloc p) + min n (length (idle_entries pc R))"
    "map_of (pc_entries pc') = (\<lambda>k. if k \<in> (snd \<circ> snd) ` set (take n ?ks) then None else map_of (pc_entries pc) k)"
    using evict_ok [OF assms] by blast
  have idle: "map_of (pc_entries pc) (snd (snd k)) = Some x \<Longrightarrow> block_id x \<notin># R \<and> k = evict_key (snd (snd k), x)"
    if "k \<in> set ?ks" for k x
    using that idle_map_of [OF assms] by (auto simp: evict_key_def)
  have keep: "map_of (pc_entries pc') h = Some x" if "map_of (pc_entries pc) h = Some x" "block_id x \<in># R" for h x
    using that idle e(4) by (auto dest: in_set_takeD)
  have order: "last_used x \<le> last_used x'"
    if A: "map_of (pc_entries pc) h = Some x" "map_of (pc_entries pc') h = None" "map_of (pc_entries pc') h' = Some x'" "block_id x' \<notin># R" for h x h' x'
  proof -
    obtain k where k: "k \<in> set (take n ?ks)" "h = snd (snd k)" using A(1,2) e(4) by (auto split: if_splits)
    have h': "map_of (pc_entries pc) h' = Some x'" "h' \<notin> (snd \<circ> snd) ` set (take n ?ks)" using A(3) e(4) by (auto split: if_splits)
    then have "(h', x') \<in> set (idle_entries pc R)" using A(4) by (auto simp: idle_entries_def dest: map_of_SomeD)
    then have "evict_key (h', x') \<in> set ?ks" "evict_key (h', x') \<notin> set (take n ?ks)"
      using h'(2) by (force simp: evict_key_def)+
    then have "evict_key (h', x') \<in> set (drop n ?ks)" by (metis Un_iff append_take_drop_id set_append)
    moreover have "sorted (take n ?ks @ drop n ?ks)" by simp
    ultimately have "k \<le> evict_key (h', x')" using k(1) by (simp only: sorted_append)
    moreover have "k = evict_key (h, x)" using idle [OF in_set_takeD [OF k(1)]] k(2) A(1) by blast
    ultimately show ?thesis by (auto simp: evict_key_def less_eq_prod_def)
  qed
  show ?thesis
    using e(1-3) keep order by (intro exI [of _ "min n (length (idle_entries pc R))"] exI [of _ "p\<lparr>alloc := a\<rparr>"] exI [of _ pc']) auto
qed

theorem evict_coldest_idle_witness:
  "\<exists>p c p1 pc1 f p' pc'.
     update 0 [1, 2, 3, 4] [5, 6, 7, 8] (new_pool (0::nat) TINY 4 2 2, new_pcache) = (Ret ([1, 2, 3, 4], [5, 6, 7, 8]), (p, c)) \<and>
     insert_prefix demo_hash [1, 2, 3, 4] (block_table c) (p, new_prefix_cache True) = (Ret (), (p1, pc1)) \<and>
     evict 1 (p1, pc1) = (Ret f, (p', pc')) \<and> num_free (alloc p') = num_free (alloc p1) + f"
  using demo_cached evict_coldest_idle by meson

text \<open>Clearing returns everything. After \<^verbatim>\<open>clear\<close> the only references left are those of the running sequences; with none
  running, the whole pool is free.\<close>

theorem clear_releases_all:
  assumes "pc_wf p pc R"
  shows "\<exists>p' pc'. clear (p, pc) = (Ret (), (p', pc')) \<and> pool_wf p' R \<and> pc_entries pc' = [] \<and>
    (R = {#} \<longrightarrow> num_free (alloc p') = num_blocks (alloc p'))"
proof -
  obtain a pc' where c: "clear (p, pc) = (Ret (), (p\<lparr>alloc := a\<rparr>, pc'))" "pc_wf (p\<lparr>alloc := a\<rparr>) pc' R" "pc_entries pc' = []"
    using clear_ok [OF assms] by blast
  then have "pool_wf (p\<lparr>alloc := a\<rparr>) R" by (simp add: pc_wf_def cached_blocks_def)
  moreover from this have "R = {#} \<longrightarrow> num_free a = num_blocks a"
    using ba.empty_is_all_free by (auto simp: pool_wf_def)
  ultimately show ?thesis using c by auto
qed

theorem clear_releases_all_witness:
  "\<exists>p' pc'. clear (new_pool (0::nat) TINY 4 2 2, new_prefix_cache True) = (Ret (), (p', pc')) \<and>
     num_free (alloc p') = num_blocks (alloc p')"
  using clear_releases_all [OF new_prefix_cache_wf [OF new_pool_wf [of 2 "0::nat" TINY 4 2], of True]] by auto

end
