(* ===== verification/Types.thy ===== *)
theory Types
  imports Prelude
begin

text \<open>
  The vocabulary of \<^verbatim>\<open>engine/types.py\<close>: sampling parameters, the request record with its per-event
  timestamps, and the derived latencies. A timestamp is a \<open>real\<close>; a call of \<^verbatim>\<open>time.perf_counter()\<close> is an
  argument \<open>now\<close> of the operation that makes it.
\<close>

datatype finish_reason = EOS | LENGTH | CANCELLED | REJECTED | PREEMPTED

record sampling_params =
  max_tokens :: int
  temperature :: real
  top_k :: "int option"
  top_p :: "real option"
  ignore_eos :: bool

definition default_params :: sampling_params where
  "default_params = \<lparr>max_tokens = 128, temperature = 0, top_k = None, top_p = None, ignore_eos = False\<rparr>"

definition greedy :: "sampling_params \<Rightarrow> bool" where
  "greedy p \<longleftrightarrow> temperature p = 0"

record request =
  prompt_token_ids :: "nat list"
  params :: sampling_params
  request_id :: string
  arrival_time :: real
  deadline :: "real option"
  scheduled_time :: "real option"
  first_token_time :: "real option"
  finish_time :: "real option"
  token_times :: "real list"
  output_token_ids :: "nat list"
  finished_as :: "finish_reason option"
  rejection_reason :: string

definition new_request :: "nat list \<Rightarrow> sampling_params \<Rightarrow> string \<Rightarrow> real \<Rightarrow> real option \<Rightarrow> request" where
  "new_request prompt ps rid arrival dl =
     \<lparr>prompt_token_ids = prompt, params = ps, request_id = rid, arrival_time = arrival, deadline = dl,
      scheduled_time = None, first_token_time = None, finish_time = None, token_times = [],
      output_token_ids = [], finished_as = None, rejection_reason = []\<rparr>"

definition prompt_len :: "request \<Rightarrow> nat" where
  "prompt_len r = length (prompt_token_ids r)"

definition output_len :: "request \<Rightarrow> nat" where
  "output_len r = length (output_token_ids r)"

definition total_len :: "request \<Rightarrow> nat" where
  "total_len r = prompt_len r + output_len r"

definition total_len_estimate :: "request \<Rightarrow> int" where
  "total_len_estimate r = int (prompt_len r) + max_tokens (params r)"

definition record_token :: "nat \<Rightarrow> real \<Rightarrow> request \<Rightarrow> request" where
  "record_token tok now r =
     (let r = (if output_token_ids r = [] then r\<lparr>first_token_time := Some now\<rparr> else r)
      in r\<lparr>output_token_ids := output_token_ids r @ [tok], token_times := token_times r @ [now]\<rparr>)"

definition finish :: "finish_reason \<Rightarrow> real \<Rightarrow> request \<Rightarrow> request" where
  "finish reason now r = r\<lparr>finish_time := Some now, finished_as := Some reason\<rparr>"

definition ttft :: "request \<Rightarrow> real option" where
  "ttft r = map_option (\<lambda>t. t - arrival_time r) (first_token_time r)"

definition queue_time :: "request \<Rightarrow> real option" where
  "queue_time r = map_option (\<lambda>t. t - arrival_time r) (scheduled_time r)"

definition e2e_latency :: "request \<Rightarrow> real option" where
  "e2e_latency r = map_option (\<lambda>t. t - arrival_time r) (finish_time r)"

definition inter_token_latencies :: "request \<Rightarrow> real list" where
  "inter_token_latencies r = map2 (\<lambda>a b. b - a) (token_times r) (tl (token_times r))"

definition met_deadline :: "request \<Rightarrow> bool" where
  "met_deadline r =
     (if finished_as r \<noteq> Some EOS \<and> finished_as r \<noteq> Some LENGTH then False
      else case deadline r of None \<Rightarrow> True
           | Some d \<Rightarrow> (case finish_time r of None \<Rightarrow> False | Some t \<Rightarrow> t \<le> d))"

record engine_stats =
  es_timestamp :: real
  num_running :: nat
  num_waiting :: nat
  es_num_finished :: nat
  kv_blocks_used :: nat
  kv_blocks_total :: nat
  prefix_cache_hits :: nat
  prefix_cache_queries :: nat

definition kv_utilization :: "engine_stats \<Rightarrow> real" where
  "kv_utilization s =
     (if kv_blocks_total s \<noteq> 0 then real (kv_blocks_used s) / real (kv_blocks_total s) else 0)"

definition prefix_hit_rate :: "engine_stats \<Rightarrow> real" where
  "prefix_hit_rate s =
     (if prefix_cache_queries s \<noteq> 0 then real (prefix_cache_hits s) / real (prefix_cache_queries s) else 0)"

text \<open>One timestamp per token, and the first of them is the recorded time to first token.\<close>

definition timing_ok :: "request \<Rightarrow> bool" where
  "timing_ok r \<longleftrightarrow> length (token_times r) = length (output_token_ids r) \<and>
     (token_times r \<noteq> [] \<longrightarrow> first_token_time r = Some (hd (token_times r)))"

lemma timing_ok_new: "timing_ok (new_request a b c d e)"
  by (simp add: timing_ok_def new_request_def)

lemma timing_ok_record: "timing_ok r \<Longrightarrow> timing_ok (record_token tok now r)"
  by (cases "output_token_ids r"; cases "token_times r") (auto simp: timing_ok_def record_token_def Let_def)

lemma output_len_record [simp]: "output_len (record_token tok now r) = Suc (output_len r)"
  by (simp add: record_token_def output_len_def Let_def)

lemma record_token_id [simp]:
  "request_id (record_token tok now r) = request_id r" "params (record_token tok now r) = params r"
  "prompt_token_ids (record_token tok now r) = prompt_token_ids r"
  "output_token_ids (record_token tok now r) = output_token_ids r @ [tok]"
  by (simp_all add: record_token_def Let_def)

lemma finish_id [simp]:
  "request_id (finish q now r) = request_id r" "params (finish q now r) = params r"
  "prompt_token_ids (finish q now r) = prompt_token_ids r" "finished_as (finish q now r) = Some q"
  "output_token_ids (finish q now r) = output_token_ids r"
  by (simp_all add: finish_def)

lemma sum_gaps: "ts \<noteq> [] \<Longrightarrow> sum_list (map2 (\<lambda>a b. b - a) ts (tl ts)) = last ts - (hd ts :: real)"
proof (induction ts)
  case Nil
  then show ?case by simp
next
  case (Cons t ts)
  then show ?case by (cases ts) simp_all
qed

text \<open>The latency figures add up. For a request with consistent timestamps, end-to-end latency is time to
  first token, plus the gaps between tokens, plus the time from the last token to completion: nothing is counted
  twice and nothing is lost.\<close>

theorem latency_decomposes:
  assumes "timing_ok r" and "output_token_ids r \<noteq> []" and "finish_time r = Some t"
  shows "\<exists>e f. e2e_latency r = Some e \<and> ttft r = Some f \<and>
    e = f + sum_list (inter_token_latencies r) + (t - last (token_times r))"
proof -
  have ne: "token_times r \<noteq> []" using assms(1,2) by (auto simp: timing_ok_def)
  then show ?thesis
    using assms sum_gaps [OF ne] by (simp add: timing_ok_def e2e_latency_def ttft_def inter_token_latencies_def)
qed

theorem latency_decomposes_witness:
  "\<exists>e f. e2e_latency (finish LENGTH 9 (record_token 5 7 (record_token 4 3 (new_request [1] default_params [] 1 None)))) = Some e \<and>
     ttft (finish LENGTH 9 (record_token 5 7 (record_token 4 3 (new_request [1] default_params [] 1 None)))) = Some f \<and>
     e = f + sum_list (inter_token_latencies
        (finish LENGTH 9 (record_token 5 7 (record_token 4 3 (new_request [1] default_params [] 1 None))))) +
       (9 - last (token_times (finish LENGTH 9 (record_token 5 7 (record_token 4 3 (new_request [1] default_params [] 1 None))))))"
  by (rule latency_decomposes) (simp_all add: timing_ok_def finish_def record_token_def new_request_def)

end
