(* ===== verification/Admission.thy ===== *)
theory Admission
  imports Types
begin

text \<open>
  \<^verbatim>\<open>engine/admission.py\<close>: the two gates in front of the queue. The sliding windows are bounded queues
  (\<open>deque_append\<close>), times are reals, and \<^verbatim>\<open>1.0 / initial_step_seconds\<close> raises when that setting is 0.
  The lemmas account for every offered request and show that the decision is monotone in the load.
\<close>

record admission_config =
  max_queue_depth :: "nat option"
  enforce_deadlines :: bool
  slack :: real
  window :: nat
  initial_step_seconds :: real
  min_observations :: nat

definition default_admission_config :: admission_config where
  "default_admission_config =
     \<lparr>max_queue_depth = Some 64, enforce_deadlines = True, slack = 125 / 100, window = 50,
      initial_step_seconds = 2 / 100, min_observations = 10\<rparr>"

record admission_stats =
  offered :: nat
  admitted :: nat
  rejected_queue_full :: nat
  rejected_deadline :: nat

definition rejected :: "admission_stats \<Rightarrow> nat" where
  "rejected s = rejected_queue_full s + rejected_deadline s"

definition rejection_rate :: "admission_stats \<Rightarrow> real" where
  "rejection_rate s = (if offered s \<noteq> 0 then real (rejected s) / real (offered s) else 0)"

record admission =
  adm_cfg :: admission_config
  adm_stats :: admission_stats
  step_times :: "real list"
  batch_sizes :: "nat list"

definition new_admission :: "admission_config \<Rightarrow> admission" where
  "new_admission c =
     \<lparr>adm_cfg = c, adm_stats = \<lparr>offered = 0, admitted = 0, rejected_queue_full = 0, rejected_deadline = 0\<rparr>,
      step_times = [], batch_sizes = []\<rparr>"

definition record_step :: "real \<Rightarrow> nat \<Rightarrow> admission \<Rightarrow> admission" where
  "record_step seconds batch_size a =
     (if seconds > 0
      then a\<lparr>step_times := deque_append (window (adm_cfg a)) (step_times a) seconds,
             batch_sizes := deque_append (window (adm_cfg a)) (batch_sizes a) (max 1 batch_size)\<rparr>
      else a)"

definition seconds_per_step :: "admission \<Rightarrow> real" where
  "seconds_per_step a =
     (if step_times a = [] then initial_step_seconds (adm_cfg a)
      else sum_list (step_times a) / real (length (step_times a)))"

definition is_warm :: "admission \<Rightarrow> bool" where
  "is_warm a \<longleftrightarrow> length (step_times a) \<ge> min_observations (adm_cfg a)"

definition tokens_per_second :: "admission \<Rightarrow> real outcome" where
  "tokens_per_second a =
     (if step_times a = []
      then (if initial_step_seconds (adm_cfg a) = 0 then Raise ZeroDivisionError
            else Ret (1 / initial_step_seconds (adm_cfg a)))
      else let mean_batch = real (sum_list (batch_sizes a)) / real (length (batch_sizes a))
           in Ret (mean_batch / seconds_per_step a))"

definition project_finish :: "admission \<Rightarrow> request \<Rightarrow> int \<Rightarrow> int \<Rightarrow> real \<Rightarrow> real outcome" where
  "project_finish a req queued_tokens running_tokens now =
     (let ahead = queued_tokens + running_tokens; own = max_tokens (params req)
      in case tokens_per_second a of
           Raise e \<Rightarrow> Raise e
         | Ret tps \<Rightarrow> let rate = max tps (1 / 1000000) in Ret (now + real_of_int (ahead + own) / rate))"

definition on_stats :: "(admission_stats \<Rightarrow> admission_stats) \<Rightarrow> admission \<Rightarrow> admission" where
  "on_stats f a = a\<lparr>adm_stats := f (adm_stats a)\<rparr>"

definition admit ::
  "request \<Rightarrow> nat \<Rightarrow> int \<Rightarrow> int \<Rightarrow> real \<Rightarrow> admission \<Rightarrow> (bool \<times> string) outcome \<times> admission" where
  "admit req queue_depth queued_tokens running_tokens now a =
     (let a = on_stats (\<lambda>s. s\<lparr>offered := offered s + 1\<rparr>) a;
          accept = (Ret (True, []), on_stats (\<lambda>s. s\<lparr>admitted := admitted s + 1\<rparr>) a)
      in if (case max_queue_depth (adm_cfg a) of None \<Rightarrow> False | Some m \<Rightarrow> queue_depth \<ge> m)
         then (Ret (False, ''queue_full''), on_stats (\<lambda>s. s\<lparr>rejected_queue_full := rejected_queue_full s + 1\<rparr>) a)
         else if enforce_deadlines (adm_cfg a) \<and> is_warm a
         then (case deadline req of
                 None \<Rightarrow> accept
               | Some d \<Rightarrow>
                   (case project_finish a req queued_tokens running_tokens now of
                      Raise e \<Rightarrow> (Raise e, a)
                    | Ret fin \<Rightarrow>
                        if (fin - now) > (d - now) * slack (adm_cfg a)
                        then (Ret (False, ''deadline_exceeded''),
                              on_stats (\<lambda>s. s\<lparr>rejected_deadline := rejected_deadline s + 1\<rparr>) a)
                        else accept))
         else accept)"

section \<open>Accounting\<close>

definition adm_wf :: "admission \<Rightarrow> bool" where
  "adm_wf a \<longleftrightarrow>
     offered (adm_stats a) = admitted (adm_stats a) + rejected (adm_stats a) \<and>
     length (batch_sizes a) = length (step_times a) \<and> length (step_times a) \<le> window (adm_cfg a) \<and>
     (\<forall>t \<in> set (step_times a). 0 < t) \<and> (\<forall>b \<in> set (batch_sizes a). 1 \<le> b) \<and> 0 < initial_step_seconds (adm_cfg a)"

lemma new_admission_wf: "0 < initial_step_seconds c \<Longrightarrow> adm_wf (new_admission c)"
  by (simp add: adm_wf_def new_admission_def rejected_def)

lemma set_deque_append: "set (deque_append n q x) \<subseteq> insert x (set q)"
  by (auto simp: deque_append_def dest: in_set_dropD)

lemma length_deque_append_eq: "length (deque_append n q x) = min n (length q + 1)"
  by (cases n) (auto simp: deque_append_def)

lemma record_step_wf: "adm_wf a \<Longrightarrow> adm_wf (record_step secs b a)"
  using set_deque_append [of "window (adm_cfg a)" "step_times a" secs]
    set_deque_append [of "window (adm_cfg a)" "batch_sizes a" "max 1 b"]
  by (auto simp: adm_wf_def record_step_def length_deque_append_eq)

lemma on_stats_fields [simp]:
  "adm_cfg (on_stats f a) = adm_cfg a" "step_times (on_stats f a) = step_times a"
  "batch_sizes (on_stats f a) = batch_sizes a" "adm_stats (on_stats f a) = f (adm_stats a)"
  "is_warm (on_stats f a) = is_warm a" "tokens_per_second (on_stats f a) = tokens_per_second a"
  "project_finish (on_stats f a) = project_finish a"
  by (simp_all add: on_stats_def is_warm_def tokens_per_second_def seconds_per_step_def project_finish_def [abs_def])

text \<open>In a well-formed controller the rate exists and is positive, so the projection always returns.\<close>

lemma rate_positive:
  assumes "adm_wf a"
  shows "\<exists>tps. tokens_per_second a = Ret tps \<and> 0 < tps"
proof (cases "step_times a = []")
  case True
  then show ?thesis using assms by (simp add: tokens_per_second_def adm_wf_def)
next
  case False
  have bs: "batch_sizes a \<noteq> []" using False assms by (auto simp: adm_wf_def)
  have "0 < sum_list (step_times a)" using False assms by (intro sum_list_positive) (auto simp: adm_wf_def)
  moreover have "0 < sum_list (batch_sizes a)"
    using bs assms by (cases "batch_sizes a") (auto simp: adm_wf_def)
  ultimately show ?thesis
    using False bs by (simp add: tokens_per_second_def seconds_per_step_def Let_def)
qed

text \<open>The decision as a predicate.\<close>

definition turns_away :: "admission \<Rightarrow> request \<Rightarrow> nat \<Rightarrow> int \<Rightarrow> int \<Rightarrow> real \<Rightarrow> bool" where
  "turns_away a req depth_q queued running now \<longleftrightarrow>
     (\<exists>m. max_queue_depth (adm_cfg a) = Some m \<and> m \<le> depth_q) \<or>
     (enforce_deadlines (adm_cfg a) \<and> is_warm a \<and>
      (\<exists>d tps. deadline req = Some d \<and> tokens_per_second a = Ret tps \<and>
         (d - now) * slack (adm_cfg a) < real_of_int (queued + running + max_tokens (params req)) / max tps (1 / 1000000)))"

lemma admit_turns_away:
  assumes "adm_wf a"
  shows "\<exists>why a'. admit req q qt rt now a = (Ret (\<not> turns_away a req q qt rt now, why), a') \<and> adm_wf a' \<and>
    adm_cfg a' = adm_cfg a \<and> step_times a' = step_times a \<and>
    admitted (adm_stats a') = admitted (adm_stats a) + (if turns_away a req q qt rt now then 0 else 1) \<and>
    offered (adm_stats a') = Suc (offered (adm_stats a))"
proof -
  obtain tps where "tokens_per_second a = Ret tps" using rate_positive [OF assms] by blast
  then show ?thesis
    using assms
    by (cases "max_queue_depth (adm_cfg a)"; cases "deadline req")
      (auto simp: admit_def Let_def turns_away_def project_finish_def adm_wf_def rejected_def not_le)
qed

text \<open>C34: admission is total, accounted for and monotone. The controller always answers; every offered request is counted
  as admitted or as rejected by one gate; and a request it turns away would also be turned away with a deeper queue or
  more work ahead of it.\<close>

theorem admission_monotone:
  assumes "adm_wf a" and "q \<le> q'" and "qt \<le> qt'" and "rt \<le> rt'"
  shows "\<exists>ok why a1 ok' why' a2. admit req q qt rt now a = (Ret (ok, why), a1) \<and>
    admit req q' qt' rt' now a = (Ret (ok', why'), a2) \<and> (\<not> ok \<longrightarrow> \<not> ok') \<and>
    offered (adm_stats a1) = admitted (adm_stats a1) + rejected (adm_stats a1) \<and>
    admitted (adm_stats a1) = admitted (adm_stats a) + (if ok then 1 else 0)"
proof -
  obtain tps where tps: "tokens_per_second a = Ret tps" "0 < tps" using rate_positive [OF assms(1)] by blast
  have "real_of_int (qt + rt + n) / max tps (1 / 1000000) \<le> real_of_int (qt' + rt' + n) / max tps (1 / 1000000)" for n
    using assms(3,4) tps(2) by (intro divide_right_mono) auto
  then have "turns_away a req q qt rt now \<Longrightarrow> turns_away a req q' qt' rt' now"
    using assms(2) tps(1) unfolding turns_away_def by (auto intro: order_less_le_trans)
  then show ?thesis
    using admit_turns_away [OF assms(1), of req q qt rt now] admit_turns_away [OF assms(1), of req q' qt' rt' now]
    by (fastforce simp: adm_wf_def)
qed

theorem admission_monotone_witness:
  "\<exists>ok why a1 ok' why' a2. admit (new_request [1] default_params [] 0 None) 3 10 20 0 (new_admission default_admission_config) =
      (Ret (ok, why), a1) \<and>
    admit (new_request [1] default_params [] 0 None) 64 10 20 0 (new_admission default_admission_config) = (Ret (ok', why'), a2) \<and>
    (\<not> ok \<longrightarrow> \<not> ok')"
  using admission_monotone [of "new_admission default_admission_config" 3 64 10 10 20 20 "new_request [1] default_params [] 0 None" 0]
    new_admission_wf [of default_admission_config]
  by (fastforce simp: default_admission_config_def)

end
