(* ===== verification/Sampling.thy ===== *)
theory Sampling
  imports Types "HOL-Library.Product_Lexorder"
begin

text \<open>
  Turning logits into a token: \<^verbatim>\<open>_sample_with_params\<close> of \<^verbatim>\<open>engine/scheduler.py\<close>, the same code in
  \<^verbatim>\<open>engine/baseline.py\<close>, and \<^verbatim>\<open>_filter_logits\<close> of \<^verbatim>\<open>model/generate.py\<close>. A masked logit (\<^verbatim>\<open>-inf\<close>) is \<open>None\<close>.
  What torch leaves open is a parameter, gathered in \<open>sampler\<close>: which maximum \<^verbatim>\<open>argmax\<close> returns, the order
  \<^verbatim>\<open>torch.sort\<close> gives to ties, and the random draw of \<^verbatim>\<open>multinomial\<close> (indexed by a draw counter). What it
  documents of them is \<open>sampler_doc\<close>.
\<close>

record sampler =
  argmax :: "real list \<Rightarrow> nat"
  sort_index :: "real option list \<Rightarrow> nat list"
  multinomial :: "nat \<Rightarrow> real list \<Rightarrow> nat"

definition weight :: "real option \<Rightarrow> real" where
  "weight x = (case x of None \<Rightarrow> 0 | Some r \<Rightarrow> exp r)"

definition softmax :: "real option list \<Rightarrow> real list" where
  "softmax xs = map (\<lambda>x. weight x / sum_list (map weight xs)) xs"

definition topk_threshold :: "nat \<Rightarrow> real list \<Rightarrow> real" where
  "topk_threshold k xs = rev (sort xs) ! (k - 1)"

definition mask_below :: "real \<Rightarrow> real list \<Rightarrow> real option list" where
  "mask_below t xs = map (\<lambda>x. if x < t then None else Some x) xs"

definition drop_flags :: "real \<Rightarrow> real list \<Rightarrow> bool list" where
  "drop_flags p probs = map (\<lambda>i. sum_list (take (Suc i) probs) - probs ! i > p) [0..<length probs]"

definition mask_flagged :: "nat list \<Rightarrow> bool list \<Rightarrow> real option list \<Rightarrow> real option list" where
  "mask_flagged index flg xs =
     (let flags = scatter index flg flg
      in map (\<lambda>i. if flags ! i then None else xs ! i) [0..<length xs])"

definition filter_logits ::
  "sampler \<Rightarrow> real \<Rightarrow> int option \<Rightarrow> real option \<Rightarrow> real list \<Rightarrow> real option list outcome" where
  "filter_logits S temp tk tp logits =
     (if temp = 0 then Raise ZeroDivisionError
      else let scaled = map (\<lambda>x. x / temp) logits;
               masked = (case tk of
                   Some k0 \<Rightarrow>
                     if k0 = 0 then Ret (map Some scaled)
                     else let k = min k0 (int (length scaled))
                          in if k \<le> 0 then Raise (RuntimeError ''selected index k out of range'')
                             else Ret (mask_below (topk_threshold (nat k) scaled) scaled)
                 | None \<Rightarrow> Ret (map Some scaled))
           in case masked of
                Raise e \<Rightarrow> Raise e
              | Ret scaled \<Rightarrow>
                  (case tp of
                     Some p \<Rightarrow>
                       if p < 1
                       then let index = sort_index S scaled; probs = softmax (map (\<lambda>i. scaled ! i) index)
                            in Ret (mask_flagged index (drop_flags p probs) scaled)
                       else Ret scaled
                   | None \<Rightarrow> Ret scaled))"

definition sample_with_params :: "sampler \<Rightarrow> nat \<Rightarrow> sampling_params \<Rightarrow> real list \<Rightarrow> nat outcome" where
  "sample_with_params S draw p logits =
     (case filter_logits S (temperature p) (top_k p) (top_p p) logits of
        Raise e \<Rightarrow> Raise e
      | Ret scaled \<Rightarrow> Ret (multinomial S draw (softmax scaled)))"

definition sample :: "sampler \<Rightarrow> nat \<Rightarrow> sampling_params \<Rightarrow> real list \<Rightarrow> nat outcome" where
  "sample S draw p logits =
     (if greedy p then Ret (argmax S logits) else sample_with_params S draw p logits)"

text \<open>What torch documents: a maximal index; a permutation that sorts in descending order, masked entries last; an index
  of positive probability.\<close>

definition logit_le :: "real option \<Rightarrow> real option \<Rightarrow> bool" where
  "logit_le a b = (case a of None \<Rightarrow> True | Some x \<Rightarrow> (case b of None \<Rightarrow> False | Some y \<Rightarrow> x \<le> y))"

definition sampler_doc :: "sampler \<Rightarrow> bool" where
  "sampler_doc S \<longleftrightarrow>
     (\<forall>xs. xs \<noteq> [] \<longrightarrow> argmax S xs < length xs \<and> (\<forall>j < length xs. xs ! j \<le> xs ! argmax S xs)) \<and>
     (\<forall>xs. distinct (sort_index S xs) \<and> set (sort_index S xs) = {..<length xs} \<and>
        (\<forall>i j. i \<le> j \<longrightarrow> j < length xs \<longrightarrow> logit_le (xs ! (sort_index S xs ! j)) (xs ! (sort_index S xs ! i)))) \<and>
     (\<forall>d ps. (\<exists>i < length ps. 0 < ps ! i) \<longrightarrow> multinomial S d ps < length ps \<and> 0 < ps ! multinomial S d ps)"

text \<open>A deterministic instance: smallest maximal index, stable sort, first index of positive probability.\<close>

definition sort_rank :: "real option \<Rightarrow> nat \<times> real" where
  "sort_rank x = (case x of None \<Rightarrow> (1, 0) | Some r \<Rightarrow> (0, - r))"

definition first_sampler :: sampler where
  "first_sampler =
     \<lparr>argmax = (\<lambda>xs. hd (filter (\<lambda>i. \<forall>j \<in> set [0..<length xs]. xs ! j \<le> xs ! i) [0..<length xs])),
      sort_index = (\<lambda>xs. sort_key (\<lambda>i. sort_rank (xs ! i)) [0..<length xs]),
      multinomial = (\<lambda>d ps. hd (filter (\<lambda>i. 0 < ps ! i) [0..<length ps]))\<rparr>"

section \<open>The filter never empties the candidate set\<close>

lemma softmax_positive:
  assumes "i < length xs" and "xs ! i = Some x"
  shows "0 < softmax xs ! i"
proof -
  have nn: "\<forall>w \<in> set (map weight xs). 0 \<le> w" by (auto simp: weight_def split: option.splits)
  have "weight (xs ! i) \<le> sum_list (map weight xs)"
    using assms(1) nn by (intro member_le_sum_list) auto
  moreover have "0 < weight (xs ! i)" using assms(2) by (simp add: weight_def)
  ultimately show ?thesis
    using assms by (simp add: softmax_def)
qed

lemma softmax_zero: "i < length xs \<Longrightarrow> xs ! i = None \<Longrightarrow> softmax xs ! i = 0"
  by (simp add: softmax_def weight_def)

lemma length_softmax [simp]: "length (softmax xs) = length xs"
  by (simp add: softmax_def)

text \<open>The threshold is one of the values, and no larger than the largest.\<close>

lemma topk_threshold_le_max:
  assumes "xs \<noteq> []" and "0 < k" and "k \<le> length xs" and "j < length xs" and "\<forall>i < length xs. xs ! i \<le> xs ! j"
  shows "topk_threshold k xs \<le> xs ! j"
proof -
  have "topk_threshold k xs \<in> set (rev (sort xs))"
    unfolding topk_threshold_def using assms(2,3) by (intro nth_mem) simp
  then have "topk_threshold k xs \<in> set xs" by simp
  then show ?thesis using assms(5) by (metis in_set_conv_nth)
qed

lemma mask_flagged_nth:
  assumes "distinct index" and "set index = {..<length xs}" and "length flg = length xs" and "n < length xs"
  shows "mask_flagged index flg xs ! (index ! n) = (if flg ! n then None else xs ! (index ! n))"
proof -
  have len: "length index = length xs"
    using distinct_card [OF assms(1)] assms(2) by simp
  then have "index ! n < length xs" using assms(2,4) by (metis lessThan_iff nth_mem)
  moreover have "scatter index flg flg ! (index ! n) = flg ! n"
    using assms len by (intro scatter_inside) auto
  ultimately show ?thesis by (simp add: mask_flagged_def Let_def)
qed

lemma length_mask_flagged [simp]: "length (mask_flagged index flg xs) = length xs"
  by (simp add: mask_flagged_def Let_def)

text \<open>After the top-k step the largest logit is still there.\<close>

lemma topk_keeps_max:
  assumes "j < length xs" and "\<forall>i < length xs. xs ! i \<le> xs ! j" and "0 < k" and "k \<le> length xs"
  shows "mask_below (topk_threshold k xs) xs ! j = Some (xs ! j)"
proof -
  have "xs \<noteq> []" using assms(1) by auto
  then show ?thesis using topk_threshold_le_max [of xs k j] assms by (auto simp: mask_below_def)
qed

text \<open>The first entry in sorted order is never dropped by top-p, and it is a maximal one.\<close>

lemma topp_keeps_first:
  assumes "sampler_doc S" and "xs \<noteq> []" and "0 \<le> p"
  shows "\<exists>i < length xs. mask_flagged (sort_index S xs) (drop_flags p (softmax (map (\<lambda>i. xs ! i) (sort_index S xs)))) xs ! i = xs ! i \<and>
    (\<forall>j < length xs. logit_le (xs ! j) (xs ! i))"
proof -
  let ?ix = "sort_index S xs"
  have d: "distinct ?ix" "set ?ix = {..<length xs}"
    and srt: "\<And>i j. i \<le> j \<Longrightarrow> j < length xs \<Longrightarrow> logit_le (xs ! (?ix ! j)) (xs ! (?ix ! i))"
    using assms(1) by (auto simp: sampler_doc_def)
  have len: "length ?ix = length xs" using distinct_card [OF d(1)] d(2) by simp
  let ?fl = "drop_flags p (softmax (map (\<lambda>i. xs ! i) ?ix))"
  have n: "0 < length xs" using assms(2) by simp
  have "\<not> ?fl ! 0" using n len assms(3) by (simp add: drop_flags_def take_Suc_conv_app_nth)
  moreover have "length ?fl = length xs" using len by (simp add: drop_flags_def)
  ultimately have keep: "mask_flagged ?ix ?fl xs ! (?ix ! 0) = xs ! (?ix ! 0)"
    using mask_flagged_nth [OF d, of ?fl 0] n by simp
  have "logit_le (xs ! j) (xs ! (?ix ! 0))" if j: "j < length xs" for j
  proof -
    obtain m where "m < length xs" "?ix ! m = j" using d(2) j len by (metis in_set_conv_nth lessThan_iff)
    then show ?thesis using srt [of 0 m] by auto
  qed
  then show ?thesis
    using keep n len d(2) by (intro exI [of _ "?ix ! 0"]) (metis lessThan_iff nth_mem)
qed

lemma top_k_stage:
  assumes "sc \<noteq> []" and "tk \<noteq> Some 0 \<longrightarrow> (\<forall>k. tk = Some k \<longrightarrow> 0 < k)"
  shows "\<exists>m. (case tk of
        Some k0 \<Rightarrow> if k0 = 0 then Ret (map Some sc)
          else let k = min k0 (int (length sc)) in if k \<le> 0 then Raise (RuntimeError ''selected index k out of range'')
            else Ret (mask_below (topk_threshold (nat k) sc) sc)
      | None \<Rightarrow> Ret (map Some sc)) = Ret m \<and> length m = length sc \<and>
    (\<forall>j < length sc. (\<forall>i < length sc. sc ! i \<le> sc ! j) \<longrightarrow> m ! j = Some (sc ! j)) \<and>
    (\<forall>j < length sc. m ! j = None \<or> m ! j = Some (sc ! j))"
proof (cases tk)
  case None
  then show ?thesis by simp
next
  case (Some k)
  show ?thesis
  proof (cases "k = 0")
    case True
    then show ?thesis using Some by simp
  next
    case False
    then have k: "0 < k" using Some assms(2) by auto
    let ?n = "nat (min k (int (length sc)))"
    have n: "0 < ?n" "?n \<le> length sc" "\<not> min k (int (length sc)) \<le> 0" using k assms(1) by (cases sc; auto simp: min_def)+
    have "\<forall>j < length sc. (\<forall>i < length sc. sc ! i \<le> sc ! j) \<longrightarrow> mask_below (topk_threshold ?n sc) sc ! j = Some (sc ! j)"
      using topk_keeps_max n(1,2) by blast
    then show ?thesis
      using Some False n(3) by (simp add: Let_def) (simp add: mask_below_def)
  qed
qed

lemma max_index: "xs \<noteq> [] \<Longrightarrow> \<exists>j < length xs. \<forall>i < length xs. xs ! i \<le> (xs ! j :: real)"
proof -
  assume "xs \<noteq> []"
  then have "Max (set xs) \<in> set xs" "\<forall>x \<in> set xs. x \<le> Max (set xs)" by auto
  then show ?thesis by (metis in_set_conv_nth nth_mem)
qed

lemma sampler_doc_draw:
  "sampler_doc S \<Longrightarrow> i < length ps \<Longrightarrow> 0 < ps ! i \<Longrightarrow>
    multinomial S d ps < length ps \<and> 0 < ps ! multinomial S d ps"
  unfolding sampler_doc_def by blast

lemma filter_candidates:
  assumes "sampler_doc S" and "logits \<noteq> []" and "0 < temp"
    and "\<forall>k. tk = Some k \<longrightarrow> 0 \<le> k" and "\<forall>p. tp = Some p \<longrightarrow> 0 \<le> p"
  shows "\<exists>scaled. filter_logits S temp tk tp logits = Ret scaled \<and> length scaled = length logits \<and>
    (\<exists>i < length logits. scaled ! i \<noteq> None \<and> (\<forall>j < length logits. logits ! j \<le> logits ! i)) \<and>
    (let t = multinomial S d (softmax scaled) in t < length logits \<and> scaled ! t \<noteq> None)"
proof -
  let ?sc = "map (\<lambda>x. x / temp) logits"
  have ne: "?sc \<noteq> []" using assms(2) by simp
  have "\<exists>m. (case tk of
        Some k0 \<Rightarrow> if k0 = 0 then Ret (map Some ?sc)
          else let k = min k0 (int (length ?sc)) in if k \<le> 0 then Raise (RuntimeError ''selected index k out of range'')
            else Ret (mask_below (topk_threshold (nat k) ?sc) ?sc)
      | None \<Rightarrow> Ret (map Some ?sc)) = Ret m \<and> length m = length ?sc \<and>
    (\<forall>j < length ?sc. (\<forall>i < length ?sc. ?sc ! i \<le> ?sc ! j) \<longrightarrow> m ! j = Some (?sc ! j)) \<and>
    (\<forall>j < length ?sc. m ! j = None \<or> m ! j = Some (?sc ! j))"
    by (rule top_k_stage [OF ne]) (use assms(4) in fastforce)
  then obtain m where m: "(case tk of
        Some k0 \<Rightarrow> if k0 = 0 then Ret (map Some ?sc)
          else let k = min k0 (int (length ?sc)) in if k \<le> 0 then Raise (RuntimeError ''selected index k out of range'')
            else Ret (mask_below (topk_threshold (nat k) ?sc) ?sc)
      | None \<Rightarrow> Ret (map Some ?sc)) = Ret m"
    "length m = length logits" "\<forall>j < length logits. (\<forall>i < length logits. ?sc ! i \<le> ?sc ! j) \<longrightarrow> m ! j = Some (?sc ! j)"
    "\<forall>j < length logits. m ! j = None \<or> m ! j = Some (?sc ! j)"
    by auto
  obtain j0 where j0: "j0 < length logits" "\<forall>i < length logits. ?sc ! i \<le> ?sc ! j0"
    using max_index [OF ne] by auto
  have mj: "m ! j0 = Some (?sc ! j0)" using m(3) j0 by blast
  have unscale: "\<forall>j < length logits. logits ! j \<le> logits ! i" if "i < length logits" "\<forall>j < length logits. ?sc ! j \<le> ?sc ! i" for i
    using that assms(3) by (auto simp: divide_le_cancel)
  have "\<exists>scaled. filter_logits S temp tk tp logits = Ret scaled \<and> length scaled = length logits \<and>
    (\<exists>i < length logits. scaled ! i \<noteq> None \<and> (\<forall>j < length logits. ?sc ! j \<le> ?sc ! i))"
  proof (cases "\<exists>p. tp = Some p \<and> p < 1")
    case False
    then have "filter_logits S temp tk tp logits = Ret m"
      using m(1) assms(3) by (auto simp: filter_logits_def Let_def split: option.splits)
    then show ?thesis using m(2) j0 mj by (metis option.distinct(1))
  next
    case True
    then obtain p where p: "tp = Some p" "p < 1" "0 \<le> p" using assms(5) by auto
    let ?r = "mask_flagged (sort_index S m) (drop_flags p (softmax (map (\<lambda>i. m ! i) (sort_index S m)))) m"
    have r: "filter_logits S temp tk tp logits = Ret ?r"
      using m(1) assms(3) p by (simp add: filter_logits_def Let_def)
    have mne: "m \<noteq> []" using m(2) assms(2) by auto
    obtain i where i: "i < length m" "?r ! i = m ! i" "\<forall>j < length m. logit_le (m ! j) (m ! i)"
      using topp_keeps_first [OF assms(1) mne p(3)] by auto
    then have "m ! i = Some (?sc ! i)" "\<forall>j < length logits. ?sc ! j \<le> ?sc ! i"
      using m(2,4) mj j0 by (auto simp: logit_le_def split: option.splits) (metis option.distinct(1) order_trans)+
    then show ?thesis using r i m(2) by (metis length_mask_flagged option.distinct(1))
  qed
  then obtain scaled i where s: "filter_logits S temp tk tp logits = Ret scaled" "length scaled = length logits"
    "i < length logits" "scaled ! i \<noteq> None" "\<forall>j < length logits. ?sc ! j \<le> ?sc ! i" by blast
  then have "0 < softmax scaled ! i" using softmax_positive [of i scaled] by auto
  then have t: "multinomial S d (softmax scaled) < length scaled" "0 < softmax scaled ! multinomial S d (softmax scaled)"
    using sampler_doc_draw [OF assms(1), of i "softmax scaled" d] s(2,3) by simp_all
  then have "scaled ! multinomial S d (softmax scaled) \<noteq> None"
    using softmax_zero [of "multinomial S d (softmax scaled)" scaled] by fastforce
  then show ?thesis
    using s(1-4) t(1) unscale [OF s(3,5)] by (intro exI [of _ scaled]) (auto simp: Let_def)
qed

text \<open>C35: filtered sampling is always possible and never leaves the candidate set. With a positive temperature, a top-k that
  is unset, 0 or positive and a non-negative top-p, filtering succeeds, keeps a token of maximal logit, and the token drawn
  is one that survived the filter.\<close>

theorem sampling_stays_in_candidates:
  assumes "sampler_doc S" and "logits \<noteq> []" and "0 < temp"
    and "\<forall>k. tk = Some k \<longrightarrow> 0 \<le> k" and "\<forall>p. tp = Some p \<longrightarrow> 0 \<le> p"
  shows "\<exists>scaled. filter_logits S temp tk tp logits = Ret scaled \<and> length scaled = length logits \<and>
    (\<exists>i < length logits. scaled ! i \<noteq> None \<and> (\<forall>j < length logits. logits ! j \<le> logits ! i)) \<and>
    (let t = multinomial S d (softmax scaled) in t < length logits \<and> scaled ! t \<noteq> None)"
  by (rule filter_candidates [OF assms])

lemma hd_filter: "\<exists>x \<in> set xs. P x \<Longrightarrow> P (hd (filter P xs)) \<and> hd (filter P xs) \<in> set xs"
proof (induction xs)
  case (Cons x xs)
  then show ?case by (cases "P x") auto
qed simp

lemma sort_rank_le: "sort_rank a \<le> sort_rank b \<longleftrightarrow> logit_le b a"
  by (auto simp: sort_rank_def logit_le_def less_eq_prod_def split: option.splits)

lemma first_sampler_doc: "sampler_doc first_sampler"
  unfolding sampler_doc_def
proof (intro conjI allI impI)
  fix xs :: "real list" assume "xs \<noteq> []"
  then have "\<exists>i \<in> set [0..<length xs]. \<forall>j \<in> set [0..<length xs]. xs ! j \<le> xs ! i"
    using max_index [of xs] by (auto simp: Bex_def)
  note * = hd_filter [OF this]
  from * show "argmax first_sampler xs < length xs" by (simp add: first_sampler_def)
  from * show "xs ! j \<le> xs ! argmax first_sampler xs" if "j < length xs" for j
    using that by (auto simp: first_sampler_def)
next
  fix xs i j
  let ?s = "sort_index first_sampler xs"
  show "distinct ?s" "set ?s = {..<length xs}" by (auto simp: first_sampler_def)
  assume ij: "i \<le> j" "j < length xs"
  have "sorted (map (\<lambda>i. sort_rank (xs ! i)) ?s)" by (simp add: first_sampler_def)
  moreover have "length ?s = length xs" by (simp add: first_sampler_def)
  ultimately have "sort_rank (xs ! (?s ! i)) \<le> sort_rank (xs ! (?s ! j))"
    using ij sorted_nth_mono [of "map (\<lambda>i. sort_rank (xs ! i)) ?s" i j] by simp
  then show "logit_le (xs ! (?s ! j)) (xs ! (?s ! i))" by (simp add: sort_rank_le)
next
  fix d and ps :: "real list" assume "\<exists>i < length ps. 0 < ps ! i"
  then have "\<exists>i \<in> set [0..<length ps]. 0 < ps ! i" by auto
  from hd_filter [OF this] show "multinomial first_sampler d ps < length ps" "0 < ps ! multinomial first_sampler d ps"
    by (auto simp: first_sampler_def)
qed

theorem sampling_stays_in_candidates_witness:
  "\<exists>scaled. filter_logits first_sampler 1 (Some 2) (Some (9 / 10)) [1, 3, 2] = Ret scaled \<and> length scaled = 3 \<and>
     (let t = multinomial first_sampler 0 (softmax scaled) in t < 3 \<and> scaled ! t \<noteq> None)"
  using sampling_stays_in_candidates [OF first_sampler_doc, of "[1, 3, 2]" 1 "Some 2" "Some (9 / 10)" 0]
  by (auto simp: Let_def numeral_3_eq_3)

end
