(* ===== verification/Scheduler.thy ===== *)
theory Scheduler
  imports Batched_Cache Prefix_Cache Admission Sampling
begin

text \<open>
  \<^verbatim>\<open>ContinuousBatchingEngine\<close> of \<^verbatim>\<open>engine/scheduler.py\<close>: the queue, admission by free blocks, prefill through the
  prefix cache, the batched decode step, preemption, cancellation and retirement.

  The engine's attributes are the record \<open>engine\<close>; the model's rotary tables, which it grows, are its field \<open>rotary\<close>.
  What it takes from outside is \<open>env\<close>: the clock (the \<open>n\<close>-th call of \<^verbatim>\<open>time.perf_counter()\<close>), the tuple hash and torch's
  sampling primitives. Objects are values: a \<^verbatim>\<open>Request\<close> sits in exactly one of the queues at a time, so the updated
  record replaces the old one where it sits, and \<^verbatim>\<open>_emitted\<close>, which keeps references to requests still running, keeps
  their ids. The loop of \<^verbatim>\<open>_admit\<close> is a recursion over the waiting queue, which it writes back when it stops.

  The lemmas show that every request is accounted for (\<open>step_conserves_requests\<close>) and what becomes of one the pool could
  never hold (\<open>oversized_request_never_returns\<close>).
\<close>

record env =
  clk :: "nat \<Rightarrow> real"
  hash2 :: hash_fn
  smp :: sampler

record seq =
  sq_request :: request
  sq_cache :: pcache
  next_token :: nat
  sq_finished :: bool
  sq_reason :: "finish_reason option"

record engine =
  mdl :: model_w
  rotary :: rope
  e_pool :: "kv_row pool"
  eos_token_id :: nat
  max_batch_size :: nat
  reserve_blocks :: nat
  e_prefix :: prefix_cache
  admission_ctl :: "admission option"
  waiting :: "request list"
  running :: "seq list"
  e_finished :: "request list"
  history :: nat
  num_finished :: nat
  newly_finished :: "request list"
  cancel_requested :: "string set"
  emitted :: "(string \<times> nat) list"
  preemptions :: nat
  e_clock :: nat
  e_draws :: nat

definition new_engine ::
  "model_w \<Rightarrow> rope \<Rightarrow> kv_row pool \<Rightarrow> nat \<Rightarrow> nat \<Rightarrow> nat \<Rightarrow> bool \<Rightarrow> admission_config option \<Rightarrow> nat \<Rightarrow> engine" where
  "new_engine M r p eos mbs res prefix adm hist =
     \<lparr>mdl = M, rotary = r, e_pool = p, eos_token_id = eos, max_batch_size = mbs, reserve_blocks = res,
      e_prefix = new_prefix_cache prefix, admission_ctl = map_option new_admission adm, waiting = [], running = [],
      e_finished = [], history = hist, num_finished = 0, newly_finished = [], cancel_requested = {}, emitted = [],
      preemptions = 0, e_clock = 0, e_draws = 0\<rparr>"

definition perf_counter :: "env \<Rightarrow> engine \<Rightarrow> real \<times> engine" where
  "perf_counter E e = (clk E (e_clock e), e\<lparr>e_clock := Suc (e_clock e)\<rparr>)"

section \<open>Queue\<close>

definition record_finished :: "request \<Rightarrow> engine \<Rightarrow> engine" where
  "record_finished req e =
     e\<lparr>num_finished := num_finished e + 1, e_finished := deque_append (history e) (e_finished e) req,
       newly_finished := newly_finished e @ [req]\<rparr>"

definition finish_now :: "env \<Rightarrow> finish_reason \<Rightarrow> request \<Rightarrow> engine \<Rightarrow> request \<times> engine" where
  "finish_now E reason req e = (case perf_counter E e of (now, e) \<Rightarrow> (finish reason now req, e))"

definition add_request :: "env \<Rightarrow> request \<Rightarrow> engine \<Rightarrow> unit outcome \<times> engine" where
  "add_request E req e =
     (case admission_ctl e of
        None \<Rightarrow> (Ret (), e\<lparr>waiting := waiting e @ [req]\<rparr>)
      | Some a \<Rightarrow>
          (case perf_counter E e of (now, e) \<Rightarrow>
             (case admit req (length (waiting e)) (sum_list (map (\<lambda>r. max_tokens (params r)) (waiting e)))
                     (sum_list (map (\<lambda>s. max_tokens (params (sq_request s)) - int (output_len (sq_request s))) (running e)))
                     now a of
                (Raise x, a) \<Rightarrow> (Raise x, e\<lparr>admission_ctl := Some a\<rparr>)
              | (Ret (ok, reason), a) \<Rightarrow>
                  let e = e\<lparr>admission_ctl := Some a\<rparr> in
                  if ok then (Ret (), e\<lparr>waiting := waiting e @ [req]\<rparr>)
                  else (case finish_now E REJECTED req e of (req, e) \<Rightarrow>
                          (Ret (), record_finished (req\<lparr>rejection_reason := reason\<rparr>) e)))))"

definition request_cancel :: "string \<Rightarrow> engine \<Rightarrow> engine" where
  "request_cancel rid e = e\<lparr>cancel_requested := insert rid (cancel_requested e)\<rparr>"

text \<open>\<open>free_seq\<close> is \<^verbatim>\<open>seq.cache.free()\<close> on the engine's pool.\<close>

definition free_seq :: "pcache \<Rightarrow> engine \<Rightarrow> unit outcome \<times> engine" where
  "free_seq c e = (case free_cache (e_pool e, c) of (r, (p, _)) \<Rightarrow> (r, e\<lparr>e_pool := p\<rparr>))"

fun cancel_running :: "env \<Rightarrow> string set \<Rightarrow> seq list \<Rightarrow> engine \<Rightarrow> request list outcome \<times> engine" where
  "cancel_running E wanted [] e = (Ret [], e)"
| "cancel_running E wanted (s # ss) e =
     (if request_id (sq_request s) \<in> wanted
      then bindS (free_seq (sq_cache s) e)
             (\<lambda>_ e. case finish_now E CANCELLED (sq_request s) e of (req, e) \<Rightarrow>
                let e = record_finished req e; e = e\<lparr>running := remove1 s (running e)\<rparr>
                in bindS (cancel_running E wanted ss e) (\<lambda>done e. (Ret (req # done), e)))
      else cancel_running E wanted ss e)"

fun cancel_waiting :: "env \<Rightarrow> string set \<Rightarrow> request list \<Rightarrow> engine \<Rightarrow> request list \<times> engine" where
  "cancel_waiting E wanted [] e = ([], e)"
| "cancel_waiting E wanted (r # rs) e =
     (if request_id r \<in> wanted
      then let e = e\<lparr>waiting := remove1 r (waiting e)\<rparr> in
           (case finish_now E CANCELLED r e of (req, e) \<Rightarrow>
              (case cancel_waiting E wanted rs (record_finished req e) of (done, e) \<Rightarrow> (req # done, e)))
      else cancel_waiting E wanted rs e)"

definition apply_cancellations :: "env \<Rightarrow> engine \<Rightarrow> request list outcome \<times> engine" where
  "apply_cancellations E e =
     (if cancel_requested e = {} then (Ret [], e)
      else let wanted = cancel_requested e; e = e\<lparr>cancel_requested := {}\<rparr> in
           bindS (cancel_running E wanted (running e) e)
             (\<lambda>done e. case cancel_waiting E wanted (waiting e) e of (dropped, e) \<Rightarrow> (Ret (done @ dropped), e)))"

definition cancel :: "env \<Rightarrow> string \<Rightarrow> engine \<Rightarrow> bool outcome \<times> engine" where
  "cancel E rid e = bindS (apply_cancellations E (request_cancel rid e)) (\<lambda>done e. (Ret (done \<noteq> []), e))"

definition drain_emitted :: "engine \<Rightarrow> (string \<times> nat) list \<times> engine" where
  "drain_emitted e = (emitted e, e\<lparr>emitted := []\<rparr>)"

definition drain_finished :: "engine \<Rightarrow> request list \<times> engine" where
  "drain_finished e = (newly_finished e, e\<lparr>newly_finished := []\<rparr>)"

definition has_work :: "engine \<Rightarrow> bool" where
  "has_work e \<longleftrightarrow> waiting e \<noteq> [] \<or> running e \<noteq> []"

definition engine_stats_of :: "env \<Rightarrow> engine \<Rightarrow> engine_stats \<times> engine" where
  "engine_stats_of E e =
     (case perf_counter E e of (now, e) \<Rightarrow>
        (\<lparr>es_timestamp = now, num_running = length (running e), num_waiting = length (waiting e),
          es_num_finished = num_finished e, kv_blocks_used = num_allocated (alloc (e_pool e)),
          kv_blocks_total = num_blocks (alloc (e_pool e)), prefix_cache_hits = hit_blocks (pc_stats (e_prefix e)),
          prefix_cache_queries = query_blocks (pc_stats (e_prefix e))\<rparr>, e))"

section \<open>Sampling\<close>

definition sample_one :: "env \<Rightarrow> vec \<Rightarrow> request \<Rightarrow> engine \<Rightarrow> nat outcome \<times> engine" where
  "sample_one E logits req e =
     (sample (smp E) (e_draws e) (params req) logits,
      if greedy (params req) then e else e\<lparr>e_draws := Suc (e_draws e)\<rparr>)"

fun sample_each :: "env \<Rightarrow> (vec \<times> seq) list \<Rightarrow> engine \<Rightarrow> nat list outcome \<times> engine" where
  "sample_each E [] e = (Ret [], e)"
| "sample_each E ((row, s) # rest) e =
     bindS (sample_one E row (sq_request s) e)
       (\<lambda>t e. bindS (sample_each E rest e) (\<lambda>ts e. (Ret (t # ts), e)))"

definition sample_batch :: "env \<Rightarrow> vec list \<Rightarrow> seq list \<Rightarrow> engine \<Rightarrow> nat list outcome \<times> engine" where
  "sample_batch E logits batch e =
     (if \<forall>s \<in> set batch. greedy (params (sq_request s)) then (Ret (map (argmax (smp E)) logits), e)
      else sample_each E (zip logits batch) e)"

section \<open>Prefill\<close>

definition blocks_needed :: "request \<Rightarrow> engine \<Rightarrow> nat" where
  "blocks_needed req e = ceil_div (prompt_len req) (block_size (e_pool e))"

definition prefill :: "env \<Rightarrow> request \<Rightarrow> pcache \<Rightarrow> engine \<Rightarrow> hidden outcome \<times> (pcache \<times> engine)" where
  "prefill E req c e =
     (let ids = prompt_token_ids req in
      case match_prefix (hash2 E) (butlast ids) (e_pool e, e_prefix e) of
        (Raise x, (p, pc)) \<Rightarrow> (Raise x, (c, e\<lparr>e_pool := p, e_prefix := pc\<rparr>))
      | (Ret blocks, (p, pc)) \<Rightarrow>
          (case attach p c blocks of (n_cached, c) \<Rightarrow>
             let suffix = drop n_cached ids;
                 r = rope_ensure_capacity (length ids + 1) (rotary e);
                 positions = [[n_cached..<n_cached + length suffix]];
                 e = e\<lparr>e_prefix := pc\<rparr>
             in if suffix = [] then (Raise (RuntimeError ''embedding indices must be integers''), (c, e\<lparr>e_pool := p, rotary := r\<rparr>))
                else (case nano_causal_lm (mdl e) [suffix] (Some positions) (Some (solo update, paged_len)) None (r, (p, c)) of
                        (Raise x, (r, (p, c))) \<Rightarrow> (Raise x, (c, e\<lparr>e_pool := p, rotary := r\<rparr>))
                      | (Ret logits, (r, (p, c))) \<Rightarrow>
                          (case insert_prefix (hash2 E) ids (block_table c) (p, e_prefix e) of
                             (Raise x, (p, pc)) \<Rightarrow> (Raise x, (c, e\<lparr>e_pool := p, e_prefix := pc, rotary := r\<rparr>))
                           | (Ret _, (p, pc)) \<Rightarrow> (Ret logits, (c, e\<lparr>e_pool := p, e_prefix := pc, rotary := r\<rparr>))))))"

definition accept_token :: "env \<Rightarrow> seq \<Rightarrow> nat \<Rightarrow> engine \<Rightarrow> seq \<times> engine" where
  "accept_token E s tok e =
     (if tok = eos_token_id e \<and> \<not> ignore_eos (params (sq_request s))
      then (s\<lparr>sq_finished := True, sq_reason := Some EOS\<rparr>, e)
      else (case perf_counter E e of (now, e) \<Rightarrow>
              let s = s\<lparr>sq_request := record_token tok now (sq_request s)\<rparr>
              in if int (output_len (sq_request s)) \<ge> max_tokens (params (sq_request s))
                 then (s\<lparr>sq_finished := True, sq_reason := Some LENGTH\<rparr>, e) else (s, e)))"

definition retire :: "env \<Rightarrow> seq \<Rightarrow> engine \<Rightarrow> request outcome \<times> engine" where
  "retire E s e =
     bindS (free_seq (sq_cache s) e)
       (\<lambda>_ e. case finish_now E (case sq_reason s of None \<Rightarrow> LENGTH | Some q \<Rightarrow> q) (sq_request s) e of (req, e) \<Rightarrow>
          (Ret req, record_finished req e))"

text \<open>What \<^verbatim>\<open>_admit\<close> and \<^verbatim>\<open>step\<close> both do with a sampled token: record it, apply the stop conditions, emit it, retire a
  finished sequence. The result is the finished request or the sequence that runs on.\<close>

definition take_token :: "env \<Rightarrow> seq \<Rightarrow> nat \<Rightarrow> engine \<Rightarrow> (request + seq) outcome \<times> engine" where
  "take_token E s tok e =
     (let s = s\<lparr>next_token := tok\<rparr>; before = output_len (sq_request s) in
      case accept_token E s tok e of (s, e) \<Rightarrow>
        let e = (if output_len (sq_request s) > before
                 then e\<lparr>emitted := emitted e @ [(request_id (sq_request s), tok)]\<rparr> else e)
        in if sq_finished s then bindS (retire E s e) (\<lambda>req e. (Ret (Inl req), e))
           else (Ret (Inr s), e))"

definition new_seq :: "request \<Rightarrow> pcache \<Rightarrow> nat \<Rightarrow> seq" where
  "new_seq req c tok = \<lparr>sq_request = req, sq_cache = c, next_token = tok, sq_finished = False, sq_reason = None\<rparr>"

section \<open>Admission of waiting requests\<close>

text \<open>One request that has been popped: prefill, sample, accept. \<open>OutOfBlocks\<close> frees the cache and finishes the request as
  preempted.\<close>

definition start_request :: "env \<Rightarrow> request \<Rightarrow> pcache \<Rightarrow> engine \<Rightarrow> (request + seq) outcome \<times> engine" where
  "start_request E req c e =
     (case (case prefill E req c e of
              (Raise x, (c, e)) \<Rightarrow> (Raise x, (c, e))
            | (Ret logits, (c, e)) \<Rightarrow>
                (case sample_one E (last (logits ! 0)) req e of (r, e) \<Rightarrow> (r, (c, e)))) of
        (Raise x, (c, e)) \<Rightarrow>
          if x = OutOfBlocks
          then bindS (free_seq c e)
                 (\<lambda>_ e. case finish_now E PREEMPTED req e of (req, e) \<Rightarrow> (Ret (Inl req), record_finished req e))
          else (Raise x, e)
      | (Ret token, (c, e)) \<Rightarrow> take_token E (new_seq req c token) token e)"

definition reserve_for :: "nat \<Rightarrow> engine \<Rightarrow> nat" where
  "reserve_for n_admitted e = max (reserve_blocks e) (length (running e) + n_admitted + 1)"

text \<open>The reclaim that precedes admission: \<^verbatim>\<open>True\<close> when enough blocks are free afterwards.\<close>

definition make_room :: "nat \<Rightarrow> engine \<Rightarrow> bool outcome \<times> engine" where
  "make_room n e =
     (if num_free (alloc (e_pool e)) < n
      then (case ensure_free n (e_pool e, e_prefix e) of (r, (p, pc)) \<Rightarrow> (r, e\<lparr>e_pool := p, e_prefix := pc\<rparr>))
      else (Ret True, e))"

text \<open>One turn of the loop over the head of the queue: \<open>None\<close> when it breaks, else what became of the request.\<close>

definition admit_one :: "env \<Rightarrow> request \<Rightarrow> request list \<Rightarrow> nat \<Rightarrow> engine \<Rightarrow> (request + seq) option outcome \<times> engine" where
  "admit_one E req rest n_new e =
     (let need = blocks_needed req e + 1; reserve = reserve_for n_new e in
      case make_room (need + reserve) e of
        (Raise x, e) \<Rightarrow> (Raise x, e\<lparr>waiting := req # rest\<rparr>)
      | (Ret room, e) \<Rightarrow>
          if \<not> room then (Ret None, e\<lparr>waiting := req # rest\<rparr>)
          else if running e = [] \<and> n_new = 0 \<and> need + reserve > num_blocks (alloc (e_pool e))
          then (case finish_now E REJECTED req e of (req, e) \<Rightarrow> (Ret (Some (Inl req)), record_finished req e))
          else (case perf_counter E e of (now, e) \<Rightarrow>
                  let req = req\<lparr>scheduled_time := Some now\<rparr> in
                  (case pool_allocate (e_pool e) of
                     None \<Rightarrow> (Ret None, e\<lparr>waiting := req # rest\<rparr>)
                   | Some c \<Rightarrow>
                       (case start_request E req c e of
                          (Raise x, e) \<Rightarrow> (Raise x, e\<lparr>waiting := rest\<rparr>)
                        | (Ret r, e) \<Rightarrow> (Ret (Some r), e)))))"

fun admit_loop :: "env \<Rightarrow> request list \<Rightarrow> seq list \<Rightarrow> request list \<Rightarrow> engine \<Rightarrow> (seq list \<times> request list) outcome \<times> engine" where
  "admit_loop E [] new_seqs done e = (Ret (new_seqs, done), e\<lparr>waiting := []\<rparr>)"
| "admit_loop E (req # rest) new_seqs done e =
     (if length (running e) + length new_seqs \<ge> max_batch_size e then (Ret (new_seqs, done), e\<lparr>waiting := req # rest\<rparr>)
      else bindS (admit_one E req rest (length new_seqs) e)
             (\<lambda>r e. case r of
                      None \<Rightarrow> (Ret (new_seqs, done), e)
                    | Some (Inl fin) \<Rightarrow> admit_loop E rest new_seqs (done @ [fin]) e
                    | Some (Inr s) \<Rightarrow> admit_loop E rest (new_seqs @ [s]) done e))"

definition admit_waiting :: "env \<Rightarrow> engine \<Rightarrow> (seq list \<times> request list) outcome \<times> engine" where
  "admit_waiting E e = admit_loop E (waiting e) [] [] e"

section \<open>The step\<close>

definition reset_request :: "request \<Rightarrow> request" where
  "reset_request req =
     req\<lparr>output_token_ids := [], token_times := [], first_token_time := None, scheduled_time := None\<rparr>"

definition preempt_newest :: "engine \<Rightarrow> unit outcome \<times> engine" where
  "preempt_newest e =
     (if running e = [] then (Raise OutOfBlocks, e)
      else let victim = last (running e); e = e\<lparr>running := butlast (running e)\<rparr> in
           bindS (free_seq (sq_cache victim) e)
             (\<lambda>_ e. (Ret (), e\<lparr>preemptions := preemptions e + 1,
                               waiting := reset_request (sq_request victim) # waiting e\<rparr>)))"

fun take_tokens :: "env \<Rightarrow> (seq \<times> nat) list \<Rightarrow> request list \<Rightarrow> seq list \<Rightarrow> engine \<Rightarrow> (request list \<times> seq list) outcome \<times> engine" where
  "take_tokens E [] done still e = (Ret (done, still), e)"
| "take_tokens E ((s, tok) # rest) done still e =
     bindS (take_token E s tok e)
       (\<lambda>r e. case r of Inl req \<Rightarrow> take_tokens E rest (done @ [req]) still e
                      | Inr s \<Rightarrow> take_tokens E rest done (still @ [s]) e)"

definition set_caches :: "pcache list \<Rightarrow> engine \<Rightarrow> engine" where
  "set_caches cs e = e\<lparr>running := map2 (\<lambda>s c. s\<lparr>sq_cache := c\<rparr>) (running e) cs\<rparr>"

definition step_seconds :: "env \<Rightarrow> real \<Rightarrow> nat \<Rightarrow> engine \<Rightarrow> engine" where
  "step_seconds E started n e =
     (case admission_ctl e of
        None \<Rightarrow> e
      | Some a \<Rightarrow> (case perf_counter E e of (now, e) \<Rightarrow> e\<lparr>admission_ctl := Some (record_step (now - started) n a)\<rparr>))"

definition decode_step :: "env \<Rightarrow> request list \<Rightarrow> engine \<Rightarrow> request list outcome \<times> engine" where
  "decode_step E done e =
     (case perf_counter E e of (started, e) \<Rightarrow>
        (case decode_forward (mdl e) (map next_token (running e)) (rotary e, (e_pool e, map sq_cache (running e), None)) of
           (Raise x, (r, (p, cs, _))) \<Rightarrow>
             let e = set_caches cs (e\<lparr>rotary := r, e_pool := p\<rparr>) in
             if x = OutOfBlocks then bindS (preempt_newest e) (\<lambda>_ e. (Ret done, e)) else (Raise x, e)
         | (Ret logits, (r, (p, cs, _))) \<Rightarrow>
             let e = set_caches cs (e\<lparr>rotary := r, e_pool := p\<rparr>); batch = running e in
             bindS (sample_batch E (map last logits) batch e)
               (\<lambda>ids e. let e = step_seconds E started (length batch) e in
                  bindS (take_tokens E (zip batch ids) done [] e)
                    (\<lambda>(done, still) e. (Ret done, e\<lparr>running := still\<rparr>)))))"

definition step :: "env \<Rightarrow> engine \<Rightarrow> request list outcome \<times> engine" where
  "step E e =
     bindS (apply_cancellations E e)
       (\<lambda>cancelled e. bindS (admit_waiting E e)
         (\<lambda>(new_seqs, done) e.
            let done = cancelled @ done; e = e\<lparr>running := running e @ new_seqs\<rparr> in
            if running e = [] then (Ret done, e) else decode_step E done e))"

partial_function (option) run_loop :: "env \<Rightarrow> request list \<Rightarrow> engine \<Rightarrow> (request list outcome \<times> engine) option" where
  "run_loop E out e =
     (if has_work e
      then (case step E e of
              (Raise x, e) \<Rightarrow> Some (Raise x, e)
            | (Ret _, e) \<Rightarrow>
                (case drain_finished (e\<lparr>emitted := []\<rparr>) of (fin, e) \<Rightarrow> run_loop E (out @ fin) e))
      else (case drain_finished e of (fin, e) \<Rightarrow> Some (Ret (out @ fin), e)))"

definition run_engine :: "env \<Rightarrow> request list \<Rightarrow> engine \<Rightarrow> (request list outcome \<times> engine) option" where
  "run_engine E requests e =
     (case for_each (add_request E) requests e of
        (Raise x, e) \<Rightarrow> Some (Raise x, e)
      | (Ret _, e) \<Rightarrow> run_loop E [] e)"

section \<open>What the operations leave alone\<close>

lemma perf_counter_frame [simp]: "snd (perf_counter E e) = e\<lparr>e_clock := Suc (e_clock e)\<rparr>"
  by (simp add: perf_counter_def)

lemma perf_counter_unfold: "perf_counter E e = (clk E (e_clock e), e\<lparr>e_clock := Suc (e_clock e)\<rparr>)"
  by (rule perf_counter_def)

lemma finish_now_unfold:
  "finish_now E q req e = (finish q (clk E (e_clock e)) req, e\<lparr>e_clock := Suc (e_clock e)\<rparr>)"
  by (simp add: finish_now_def perf_counter_def)

lemma free_seq_frame: "\<exists>r p. free_seq c e = (r, e\<lparr>e_pool := p\<rparr>)"
  by (auto simp: free_seq_def split: prod.splits)

lemma prefill_frame: "\<exists>r c' p pc ro. prefill E req c e = (r, (c', e\<lparr>e_pool := p, e_prefix := pc, rotary := ro\<rparr>))"
  by (cases e) (auto simp: prefill_def Let_def split: prod.splits outcome.splits)

lemma sample_one_frame: "\<exists>d. sample_one E row req e = (sample (smp E) (e_draws e) (params req) row, e\<lparr>e_draws := d\<rparr>)"
  by (auto simp: sample_one_def intro: exI [of _ "e_draws e"])

text \<open>\<open>same_queues\<close>: the queues, the outcomes and the configuration are untouched.\<close>

definition same_queues :: "engine \<Rightarrow> engine \<Rightarrow> bool" where
  "same_queues e e' \<longleftrightarrow>
     waiting e' = waiting e \<and> running e' = running e \<and> newly_finished e' = newly_finished e \<and>
     num_finished e' = num_finished e \<and> mdl e' = mdl e \<and> eos_token_id e' = eos_token_id e \<and>
     max_batch_size e' = max_batch_size e \<and> reserve_blocks e' = reserve_blocks e"

text \<open>\<open>one_outcome e req e'\<close>: additionally, \<open>req\<close> has become an outcome.\<close>

definition one_outcome :: "engine \<Rightarrow> request list \<Rightarrow> engine \<Rightarrow> bool" where
  "one_outcome e rs e' \<longleftrightarrow>
     waiting e' = waiting e \<and> running e' = running e \<and> newly_finished e' = newly_finished e @ rs \<and>
     num_finished e' = num_finished e + length rs \<and> mdl e' = mdl e \<and> eos_token_id e' = eos_token_id e \<and>
     max_batch_size e' = max_batch_size e \<and> reserve_blocks e' = reserve_blocks e"

lemma one_outcome_Nil [simp]: "one_outcome e [] e' = same_queues e e'"
  by (auto simp: one_outcome_def same_queues_def)

lemma one_outcome_trans: "one_outcome e xs f \<Longrightarrow> one_outcome f ys g \<Longrightarrow> one_outcome e (xs @ ys) g"
  by (auto simp: one_outcome_def)

lemma same_queues_refl [simp]: "same_queues e e"
  by (simp add: same_queues_def)

lemma retire_outcome:
  assumes "retire E s e = (Ret req, e')"
  shows "one_outcome e [req] e'" and "request_id req = request_id (sq_request s)"
proof -
  obtain r p where f: "free_seq (sq_cache s) e = (r, e\<lparr>e_pool := p\<rparr>)" using free_seq_frame by blast
  then show "one_outcome e [req] e'" "request_id req = request_id (sq_request s)"
    using assms by (auto simp: retire_def bindS_eq_Ret finish_now_unfold record_finished_def one_outcome_def)
qed

text \<open>Which request a token goes to, and where it ends up.\<close>

definition outcome_of :: "request + seq \<Rightarrow> request list" where
  "outcome_of r = (case r of Inl req \<Rightarrow> [req] | Inr s \<Rightarrow> [])"

definition subject_id :: "request + seq \<Rightarrow> string" where
  "subject_id r = (case r of Inl req \<Rightarrow> request_id req | Inr s \<Rightarrow> request_id (sq_request s))"

lemma accept_token_frame:
  "accept_token E s tok e = (s', e') \<Longrightarrow> same_queues e e' \<and> request_id (sq_request s') = request_id (sq_request s)"
  by (auto simp: accept_token_def perf_counter_unfold Let_def same_queues_def split: if_splits)

lemma take_token_outcome:
  assumes "take_token E s tok e = (Ret r, e')"
  shows "one_outcome e (outcome_of r) e'" and "subject_id r = request_id (sq_request s)"
proof -
  obtain s1 e1 where a: "accept_token E (s\<lparr>next_token := tok\<rparr>) tok e = (s1, e1)"
    by (cases "accept_token E (s\<lparr>next_token := tok\<rparr>) tok e")
  note fr = accept_token_frame [OF a]
  let ?e = "if output_len (sq_request s1) > output_len (sq_request s)
    then e1\<lparr>emitted := emitted e1 @ [(request_id (sq_request s1), tok)]\<rparr> else e1"
  have q: "one_outcome e [] ?e" using fr by (simp add: same_queues_def)
  have "one_outcome e (outcome_of r) e' \<and> subject_id r = request_id (sq_request s)"
  proof (cases "sq_finished s1")
    case True
    then obtain req where rt: "retire E s1 ?e = (Ret req, e')" "r = Inl req"
      using assms a by (auto simp: take_token_def Let_def bindS_eq_Ret split: if_splits)
    show ?thesis
      using one_outcome_trans [OF q retire_outcome(1) [OF rt(1)]] retire_outcome(2) [OF rt(1)] rt(2) fr
      by (simp add: outcome_of_def subject_id_def)
  next
    case False
    then have "r = Inr s1" "e' = ?e" using assms a by (auto simp: take_token_def Let_def)
    then show ?thesis using q fr by (simp add: outcome_of_def subject_id_def)
  qed
  then show "one_outcome e (outcome_of r) e'" "subject_id r = request_id (sq_request s)" by simp_all
qed

lemma start_request_outcome:
  assumes "start_request E req c e = (Ret r, e')"
  shows "one_outcome e (outcome_of r) e'" and "subject_id r = request_id req"
proof -
  obtain pr c1 p pc ro where pf: "prefill E req c e = (pr, (c1, e\<lparr>e_pool := p, e_prefix := pc, rotary := ro\<rparr>))"
    using prefill_frame by blast
  let ?e = "e\<lparr>e_pool := p, e_prefix := pc, rotary := ro\<rparr>"
  have tok: "one_outcome e (outcome_of r) e' \<and> subject_id r = request_id req"
    if "take_token E (new_seq req c1 t) t (?e\<lparr>e_draws := d\<rparr>) = (Ret r, e')" for t d
    using take_token_outcome [OF that] by (auto simp: one_outcome_def new_seq_def)
  have pre: "one_outcome e (outcome_of r) e' \<and> subject_id r = request_id req"
    if "bindS (free_seq c1 f) (\<lambda>_ e. case finish_now E PREEMPTED req e of (req, e) \<Rightarrow> (Ret (Inl req), record_finished req e)) =
      (Ret r, e')" "same_queues e f" for f
  proof -
    obtain q p' where "free_seq c1 f = (q, f\<lparr>e_pool := p'\<rparr>)" using free_seq_frame by blast
    then show ?thesis
      using that by (auto simp: bindS_eq_Ret finish_now_unfold record_finished_def one_outcome_def same_queues_def
          outcome_of_def subject_id_def)
  qed
  have "one_outcome e (outcome_of r) e' \<and> subject_id r = request_id req"
  proof (cases pr)
    case (Raise x)
    then show ?thesis
      using assms pf pre [of ?e] by (auto simp: start_request_def same_queues_def split: if_splits)
  next
    case (Ret logits)
    obtain sr d where sm: "sample_one E (last (logits ! 0)) req ?e = (sr, ?e\<lparr>e_draws := d\<rparr>)"
      using sample_one_frame by blast
    show ?thesis
    proof (cases sr)
      case (Raise x)
      then show ?thesis
        using assms pf Ret sm pre [of "?e\<lparr>e_draws := d\<rparr>"]
        by (auto simp: start_request_def same_queues_def split: if_splits)
    next
      case (Ret t)
      then show ?thesis
        using assms pf \<open>pr = Ret logits\<close> sm tok [of t d] by (auto simp: start_request_def)
    qed
  qed
  then show "one_outcome e (outcome_of r) e'" "subject_id r = request_id req" by simp_all
qed

section \<open>Every request is accounted for\<close>

definition rids :: "request list \<Rightarrow> string multiset" where
  "rids rs = mset (map request_id rs)"

definition sids :: "seq list \<Rightarrow> string multiset" where
  "sids ss = mset (map (request_id \<circ> sq_request) ss)"

definition accounted :: "engine \<Rightarrow> string multiset" where
  "accounted e = rids (waiting e) + sids (running e) + rids (newly_finished e)"

text \<open>\<open>moves e d e'\<close>: the requests \<open>d\<close> have become outcomes, in that order, and nobody else has gone missing.\<close>

definition moves :: "engine \<Rightarrow> request list \<Rightarrow> engine \<Rightarrow> bool" where
  "moves e d e' \<longleftrightarrow>
     rids (waiting e') + sids (running e') + rids d = rids (waiting e) + sids (running e) \<and>
     newly_finished e' = newly_finished e @ d \<and> num_finished e' = num_finished e + length d"

lemma ids_simps [simp]:
  "rids [] = {#}" "rids (r # rs) = add_mset (request_id r) (rids rs)" "rids (xs @ ys) = rids xs + rids ys"
  "sids [] = {#}" "sids (s # ss) = add_mset (request_id (sq_request s)) (sids ss)" "sids (us @ vs) = sids us + sids vs"
  by (simp_all add: rids_def sids_def)

lemma rids_remove1: "r \<in> set rs \<Longrightarrow> add_mset (request_id r) (rids (remove1 r rs)) = rids rs"
  by (induction rs) auto

lemma sids_remove1: "s \<in> set ss \<Longrightarrow> add_mset (request_id (sq_request s)) (sids (remove1 s ss)) = sids ss"
  by (induction ss) auto

lemma moves_trans: "moves e a f \<Longrightarrow> moves f b g \<Longrightarrow> moves e (a @ b) g"
  unfolding moves_def by (metis (no_types, lifting) add.assoc add.commute append.assoc ids_simps(3) length_append)

lemma moves_refl [simp]: "moves e [] e"
  by (simp add: moves_def)

lemma cancel_running_moves:
  assumes "cancel_running E wanted ss e = (Ret d, e')" and "mset ss \<subseteq># mset (running e)"
  shows "moves e d e' \<and> waiting e' = waiting e"
  using assms
proof (induction ss arbitrary: e d)
  case Nil
  then show ?case by simp
next
  case (Cons s ss)
  have sub: "mset ss \<subseteq># mset (running e)" using Cons.prems(2) by (metis mset.simps(2) mset_subset_eq_insertD subset_mset.less_imp_le)
  show ?case
  proof (cases "request_id (sq_request s) \<in> wanted")
    case False
    then show ?thesis using Cons.IH Cons.prems sub by simp
  next
    case True
    obtain r p where f: "free_seq (sq_cache s) e = (r, e\<lparr>e_pool := p\<rparr>)" using free_seq_frame by blast
    define req where "req = finish CANCELLED (clk E (e_clock e)) (sq_request s)"
    define e1 where "e1 = (let e1 = record_finished req (e\<lparr>e_pool := p, e_clock := Suc (e_clock e)\<rparr>)
      in e1\<lparr>running := remove1 s (running e1)\<rparr>)"
    obtain d1 where d: "cancel_running E wanted ss e1 = (Ret d1, e')" "d = req # d1"
      using Cons.prems(1) True f
      by (auto simp: bindS_eq_Ret finish_now_unfold Let_def e1_def req_def)
    have s: "s \<in> set (running e)" using Cons.prems(2) by (metis list.set_intros(1) mset_subset_eqD set_mset_mset)
    have "mset ss \<subseteq># mset (running e1)"
      using Cons.prems(2) by (simp add: e1_def Let_def record_finished_def insert_subset_eq_iff)
    then have "moves e1 d1 e' \<and> waiting e' = waiting e1" using Cons.IH d(1) by blast
    moreover have "moves e [req] e1" "waiting e1 = waiting e"
      using sids_remove1 [OF s] by (auto simp: moves_def e1_def Let_def record_finished_def req_def)
    ultimately show ?thesis using moves_trans [of e "[req]" e1 d1 e'] d(2) by simp
  qed
qed

lemma cancel_waiting_moves:
  assumes "cancel_waiting E wanted rs e = (d, e')" and "mset rs \<subseteq># mset (waiting e)"
  shows "moves e d e' \<and> running e' = running e"
  using assms
proof (induction rs arbitrary: e d)
  case Nil
  then show ?case by simp
next
  case (Cons r rs)
  have sub: "mset rs \<subseteq># mset (waiting e)" using Cons.prems(2) by (metis mset.simps(2) mset_subset_eq_insertD subset_mset.less_imp_le)
  show ?case
  proof (cases "request_id r \<in> wanted")
    case False
    then show ?thesis using Cons.IH Cons.prems sub by simp
  next
    case True
    define req where "req = finish CANCELLED (clk E (e_clock e)) r"
    define e1 where "e1 = record_finished req (e\<lparr>waiting := remove1 r (waiting e), e_clock := Suc (e_clock e)\<rparr>)"
    obtain d1 where d: "cancel_waiting E wanted rs e1 = (d1, e')" "d = req # d1"
      using Cons.prems(1) True by (auto simp: finish_now_unfold Let_def e1_def req_def split: prod.splits)
    have r: "r \<in> set (waiting e)" using Cons.prems(2) by (metis list.set_intros(1) mset_subset_eqD set_mset_mset)
    have "mset rs \<subseteq># mset (waiting e1)"
      using Cons.prems(2) by (simp add: e1_def record_finished_def insert_subset_eq_iff)
    then have "moves e1 d1 e' \<and> running e' = running e1" using Cons.IH d(1) by blast
    moreover have "moves e [req] e1" "running e1 = running e"
      using rids_remove1 [OF r] by (auto simp: moves_def e1_def record_finished_def req_def)
    ultimately show ?thesis using moves_trans [of e "[req]" e1 d1 e'] d(2) by simp
  qed
qed

lemma apply_cancellations_moves:
  assumes "apply_cancellations E e = (Ret d, e')"
  shows "moves e d e'"
proof (cases "cancel_requested e = {}")
  case True
  then show ?thesis using assms by (simp add: apply_cancellations_def)
next
  case False
  let ?e = "e\<lparr>cancel_requested := {}\<rparr>"
  obtain d1 e1 where c1: "cancel_running E (cancel_requested e) (running ?e) ?e = (Ret d1, e1)"
    "(case cancel_waiting E (cancel_requested e) (waiting e1) e1 of (ds, f) \<Rightarrow> (Ret (d1 @ ds), f)) = (Ret d, e')"
    using assms False by (auto simp: apply_cancellations_def Let_def bindS_eq_Ret)
  then obtain d2 where c: "cancel_running E (cancel_requested e) (running ?e) ?e = (Ret d1, e1)"
    "cancel_waiting E (cancel_requested e) (waiting e1) e1 = (d2, e')" "d = d1 @ d2"
    by (cases "cancel_waiting E (cancel_requested e) (waiting e1) e1") auto
  have "moves ?e d1 e1" "moves e1 d2 e'"
    using cancel_running_moves [OF c(1)] cancel_waiting_moves [OF c(2)] by simp_all
  from moves_trans [OF this] show ?thesis using c(3) by (simp add: moves_def)
qed

lemma make_room_frame:
  assumes "make_room n e = (r, e')"
  shows "same_queues e e'"
  using assms by (auto simp: make_room_def same_queues_def split: if_splits prod.splits)

lemma admit_one_moves:
  assumes "admit_one E req rest n e = (Ret r, e')"
  shows "case r of
      None \<Rightarrow> \<exists>rq. request_id rq = request_id req \<and> waiting e' = rq # rest \<and> one_outcome e [] (e'\<lparr>waiting := waiting e\<rparr>)
    | Some x \<Rightarrow> subject_id x = request_id req \<and> one_outcome e (outcome_of x) e'"
proof -
  let ?n = "blocks_needed req e + 1 + reserve_for n e"
  obtain room e1 where m: "make_room ?n e = (room, e1)" by (cases "make_room ?n e")
  note q = make_room_frame [OF m]
  let ?e = "e1\<lparr>e_clock := Suc (e_clock e1)\<rparr>" and ?rq = "req\<lparr>scheduled_time := Some (clk E (e_clock e1))\<rparr>"
  have "request_id ?rq = request_id req" by simp
  note st = start_request_outcome [of E ?rq _ ?e]
  show ?thesis
    using assms m q st
    by (auto simp: admit_one_def Let_def finish_now_unfold perf_counter_unfold same_queues_def one_outcome_def
        record_finished_def outcome_of_def subject_id_def split: outcome.splits if_splits option.splits prod.splits)
qed

lemma admit_loop_moves:
  assumes "admit_loop E ws ns dn e = (Ret (ns', dn'), e')"
  shows "\<exists>d. dn' = dn @ d \<and> running e' = running e \<and> newly_finished e' = newly_finished e @ d \<and>
    num_finished e' = num_finished e + length d \<and>
    rids (waiting e') + sids ns' + rids d = rids ws + sids ns"
  using assms
proof (induction ws arbitrary: ns dn e)
  case Nil
  then show ?case by auto
next
  case (Cons req rest)
  show ?case
  proof (cases "length (running e) + length ns \<ge> max_batch_size e")
    case True
    then show ?thesis using Cons.prems by auto
  next
    case room: False
    then obtain r e1 where o: "admit_one E req rest (length ns) e = (Ret r, e1)"
      using Cons.prems by (auto simp: bindS_eq_Ret)
    note mv = admit_one_moves [OF o]
    show ?thesis
    proof (cases r)
      case None
      then show ?thesis using Cons.prems room o mv by (auto simp: same_queues_def)
    next
      case (Some x)
      then have l: "admit_loop E rest (case x of Inl _ \<Rightarrow> ns | Inr s \<Rightarrow> ns @ [s]) (dn @ outcome_of x) e1 = (Ret (ns', dn'), e')"
        using Cons.prems room o by (simp add: outcome_of_def split: sum.splits)
      obtain d where "dn' = (dn @ outcome_of x) @ d" "running e' = running e1" "newly_finished e' = newly_finished e1 @ d"
        "num_finished e' = num_finished e1 + length d"
        "rids (waiting e') + sids ns' + rids d = rids rest + sids (case x of Inl _ \<Rightarrow> ns | Inr s \<Rightarrow> ns @ [s])"
        using Cons.IH [OF l] by blast
      then show ?thesis
        using mv Some by (intro exI [of _ "outcome_of x @ d"])
          (auto simp: one_outcome_def outcome_of_def subject_id_def split: sum.splits)
    qed
  qed
qed

lemma take_tokens_moves:
  assumes "take_tokens E bts dn st e = (Ret (dn', st'), e')"
  shows "\<exists>d. dn' = dn @ d \<and> one_outcome e d e' \<and> rids d + sids st' = sids (map fst bts) + sids st"
  using assms
proof (induction bts arbitrary: dn st e)
  case Nil
  then show ?case by auto
next
  case (Cons b bts)
  obtain s tok where b: "b = (s, tok)" by (cases b)
  obtain x e1 where x: "take_token E s tok e = (Ret x, e1)"
    "(case x of Inl req \<Rightarrow> take_tokens E bts (dn @ [req]) st e1 | Inr s' \<Rightarrow> take_tokens E bts dn (st @ [s']) e1) = (Ret (dn', st'), e')"
    using Cons.prems b by (auto simp: bindS_eq_Ret)
  then have t: "take_token E s tok e = (Ret x, e1)"
    "take_tokens E bts (dn @ outcome_of x) (case x of Inl _ \<Rightarrow> st | Inr s' \<Rightarrow> st @ [s']) e1 = (Ret (dn', st'), e')"
    by (auto simp: outcome_of_def split: sum.splits)
  obtain d where "dn' = (dn @ outcome_of x) @ d" "one_outcome e1 d e'"
    "rids d + sids st' = sids (map fst bts) + sids (case x of Inl _ \<Rightarrow> st | Inr s' \<Rightarrow> st @ [s'])"
    using Cons.IH [OF t(2)] by blast
  then show ?case
    using take_token_outcome [OF t(1)] b one_outcome_trans [of e "outcome_of x" e1 d e']
    by (intro exI [of _ "outcome_of x @ d"]) (auto simp: outcome_of_def subject_id_def split: sum.splits)
qed

text \<open>A forward pass returns one row of logits per sequence and keeps the batch's caches in their order, whatever happens.\<close>

lemma run_layers_state:
  assumes "\<And>l k v s. P s \<Longrightarrow> P (snd (upd l k v s))" and "P s"
  shows "P (snd (run_layers M lws i x cs sn (Some upd) m s))"
  using assms(2)
proof (induction lws arbitrary: i x s)
  case Nil
  then show ?case by simp
next
  case (Cons lw lws)
  obtain r s1 where d: "decoder_layer M lw i x cs sn (Some upd) m s = (r, s1)"
    by (cases "decoder_layer M lw i x cs sn (Some upd) m s")
  have "P s1"
    using d assms(1) [OF Cons.prems]
    by (auto simp: decoder_layer_def attention_def Let_def bindS_def split: prod.splits outcome.splits) (metis snd_conv)+
  then show ?case using Cons.IH d by (cases r) auto
qed

lemma lm_state:
  assumes "\<And>l k v s. P s \<Longrightarrow> P (snd (upd l k v s))" and "P s"
    and "nano_causal_lm M ids pos (Some (upd, len)) m (r, s) = (out, (r', s'))"
  shows "P s'"
  using run_layers_state [of P upd, OF assms(1,2)] assms(2,3)
  by (auto simp: nano_causal_lm_def nano_model_def Let_def bindS_def split: prod.splits outcome.splits option.splits)
    (metis snd_conv)+

lemma length_run_layers:
  assumes "run_layers M lws i x cs sn (Some upd) m s = (Ret y, s')" and "length cs = length x" "length sn = length x"
  shows "length y = length x"
  using assms
proof (induction lws arbitrary: i x s)
  case Nil
  then show ?case by simp
next
  case (Cons lw lws)
  obtain z s1 where d: "decoder_layer M lw i x cs sn (Some upd) m s = (Ret z, s1)"
    "run_layers M lws (Suc i) z cs sn (Some upd) m s1 = (Ret y, s')"
    using Cons.prems(1) by (auto simp: bindS_eq_Ret)
  have "length z = length x"
    using d(1) Cons.prems(2,3)
    by (auto simp: decoder_layer_def attention_def Let_def bindS_eq_Ret hadd_def attend_def apply_rotary_def split_beta)
  then show ?case using Cons.IH [OF d(2)] Cons.prems by simp
qed

lemma length_grow_all: "grow_all p cs = (r, (p', cs')) \<Longrightarrow> length cs' = length cs"
  by (induction cs arbitrary: p r p' cs') (auto split: prod.splits outcome.splits)

lemma length_prepare: "length (fst (snd (snd (prepare st)))) = length (fst (snd st))"
  by (auto simp: prepare_def split: prod.splits outcome.splits dest: length_grow_all)

lemma length_batched_update: "length (fst (snd (snd (batched_update l k v st)))) = length (fst (snd st))"
proof -
  have w: "fst (snd (snd (batched_write l k v s))) = fst (snd s)" for l k v s
    by (auto simp: batched_write_def Let_def split: prod.splits option.splits)
  obtain r s1 where p: "prepare st = (r, s1)" by (cases "prepare st")
  then have "length (fst (snd s1)) = length (fst (snd st))" using length_prepare [of st] by simp
  then show ?thesis using w [of 0 k v s1] w [of l k v st] p by (cases r) (auto simp: batched_update_def)
qed

lemma decode_forward_lengths:
  assumes "decode_forward M toks (r, (p, cs, None)) = (out, (r', (p', cs', b)))" and "length toks = length cs"
  shows "length cs' = length cs" and "out = Ret logits \<Longrightarrow> length logits = length cs"
proof -
  obtain x st where m: "cache_mask (p, cs, None) = (x, st)" by (cases "cache_mask (p, cs, None)")
  have st: "length (fst (snd st)) = length cs"
    using m length_prepare [of "(p, cs, None)"]
    by (auto simp: cache_mask_def bindS_def split: prod.splits outcome.splits)
  let ?r = "rope_ensure_capacity (Max (set (map num_tokens cs)) + 1) r" and ?pos = "map (\<lambda>c. [num_tokens c]) cs"
  show "length cs' = length cs"
  proof (cases x)
    case (Raise e)
    then show ?thesis using assms(1) m st by (simp add: decode_forward_def Let_def)
  next
    case (Ret mk)
    then have "nano_causal_lm M (map (\<lambda>t. [t]) toks) (Some ?pos) (Some (batched_update, batched_len)) mk (?r, st) = (out, (r', (p', cs', b)))"
      using assms(1) m by (simp add: decode_forward_def Let_def)
    from lm_state [where P = "\<lambda>s. length (fst (snd s)) = length cs", OF _ st this] show ?thesis
      by (simp add: length_batched_update)
  qed
  show "length logits = length cs" if "out = Ret logits"
    using assms that m
    by (auto simp: decode_forward_def Let_def nano_causal_lm_def nano_model_def bindS_eq_Ret embed_def rope_lookup_def
        dest!: length_run_layers split: outcome.splits prod.splits if_splits)
qed

lemma sample_each_length:
  "sample_each E rs e = (Ret ids, e') \<Longrightarrow> length ids = length rs \<and> same_queues e e'"
proof (induction rs arbitrary: ids e)
  case Nil
  then show ?case by simp
next
  case (Cons x rs)
  obtain row s where x: "x = (row, s)" by (cases x)
  obtain d where "sample_one E row (sq_request s) e = (sample (smp E) (e_draws e) (params (sq_request s)) row, e\<lparr>e_draws := d\<rparr>)"
    using sample_one_frame by blast
  then show ?case
    using Cons.prems x Cons.IH [of "e\<lparr>e_draws := d\<rparr>"] by (auto simp: bindS_eq_Ret same_queues_def)
qed

lemma sample_batch_length:
  assumes "sample_batch E logits batch e = (Ret ids, e')" and "length logits = length batch"
  shows "length ids = length batch \<and> same_queues e e'"
  using assms sample_each_length [of E "zip logits batch" e ids e'] by (auto simp: sample_batch_def split: if_splits)

lemma set_caches_ids: "length cs = length (running e) \<Longrightarrow> sids (running (set_caches cs e)) = sids (running e)"
  unfolding sids_def by (rule arg_cong [where f = mset], rule nth_equalityI) (auto simp: set_caches_def)

lemma step_seconds_frame: "same_queues e (step_seconds E t n e)"
  by (auto simp: step_seconds_def perf_counter_unfold same_queues_def split: option.splits)

lemma preempt_newest_moves:
  assumes "preempt_newest e = (Ret (), e')"
  shows "moves e [] e'"
proof -
  have ne: "running e \<noteq> []" using assms by (auto simp: preempt_newest_def split: if_splits)
  let ?e = "e\<lparr>running := butlast (running e)\<rparr>"
  obtain r p where f: "free_seq (sq_cache (last (running e))) ?e = (r, ?e\<lparr>e_pool := p\<rparr>)" using free_seq_frame by blast
  have "sids (running e) = sids (butlast (running e) @ [last (running e)])" using ne by simp
  also have "\<dots> = add_mset (request_id (sq_request (last (running e)))) (sids (butlast (running e)))"
    by (simp only: ids_simps) simp
  finally show ?thesis
    using assms ne f by (auto simp: preempt_newest_def Let_def bindS_eq_Ret moves_def reset_request_def)
qed

lemma decode_step_moves:
  assumes "decode_step E done e = (Ret d, e')"
  shows "\<exists>d'. d = done @ d' \<and> moves e d' e'"
proof -
  let ?e = "e\<lparr>e_clock := Suc (e_clock e)\<rparr>"
  let ?df = "decode_forward (mdl e) (map next_token (running e)) (rotary e, (e_pool e, map sq_cache (running e), None))"
  obtain out r p cs b where df: "?df = (out, (r, (p, cs, b)))" by (cases ?df) auto
  note len = decode_forward_lengths [OF df]
  let ?f = "set_caches cs (?e\<lparr>rotary := r, e_pool := p\<rparr>)"
  have lc: "length cs = length (running e)" using len(1) by simp
  have f: "sids (running ?f) = sids (running e)" "length (running ?f) = length (running e)" "waiting ?f = waiting e"
    "newly_finished ?f = newly_finished e" "num_finished ?f = num_finished e"
    using set_caches_ids [of cs "?e\<lparr>rotary := r, e_pool := p\<rparr>"] lc by (simp_all add: set_caches_def)
  show ?thesis
  proof (cases out)
    case (Raise x)
    then have "preempt_newest ?f = (Ret (), e')" "d = done"
      using assms df by (auto simp: decode_step_def perf_counter_unfold Let_def bindS_eq_Ret split: if_splits)
    then show ?thesis using preempt_newest_moves [of ?f e'] f by (auto simp: moves_def)
  next
    case (Ret logits)
    have ll: "length (map last logits) = length (running ?f)" using len(2) Ret f(2) by simp
    let ?g = "\<lambda>e1. step_seconds E (clk E (e_clock e)) (length (running ?f)) e1"
    obtain ids e1 st e2 where sb: "sample_batch E (map last logits) (running ?f) ?f = (Ret ids, e1)"
      "take_tokens E (zip (running ?f) ids) done [] (?g e1) = (Ret (d, st), e2)" "e' = e2\<lparr>running := st\<rparr>"
      using assms df Ret by (auto simp: decode_step_def perf_counter_unfold Let_def bindS_eq_Ret)
    note sl = sample_batch_length [OF sb(1) ll]
    obtain d' where "d = done @ d'" "rids d' + sids st = sids (running ?f)" "one_outcome (?g e1) d' e2"
      using take_tokens_moves [OF sb(2)] sl by auto
    then show ?thesis
      using sb(3) f sl step_seconds_frame [of e1 E "clk E (e_clock e)" "length (running ?f)"]
      by (auto simp: moves_def one_outcome_def same_queues_def ac_simps)
  qed
qed

lemma step_moves:
  assumes "step E e = (Ret d, e')"
  shows "moves e d e'"
proof -
  obtain d1 e1 ns d2 e2 where s: "apply_cancellations E e = (Ret d1, e1)" "admit_waiting E e1 = (Ret (ns, d2), e2)"
    "(let f = e2\<lparr>running := running e2 @ ns\<rparr> in if running f = [] then (Ret (d1 @ d2), f) else decode_step E (d1 @ d2) f) = (Ret d, e')"
    using assms by (auto simp: step_def bindS_eq_Ret Let_def)
  let ?f = "e2\<lparr>running := running e2 @ ns\<rparr>"
  have "moves e1 d2 ?f"
    using admit_loop_moves [of E "waiting e1" "[]" "[]" e1 ns d2 e2] s(2) by (auto simp: admit_waiting_def moves_def ac_simps)
  then have m: "moves e (d1 @ d2) ?f" using moves_trans [OF apply_cancellations_moves [OF s(1)]] by blast
  show ?thesis
  proof (cases "running ?f = []")
    case True
    then show ?thesis using s(3) m by (simp add: Let_def)
  next
    case False
    then obtain d' where "d = (d1 @ d2) @ d'" "moves ?f d' e'"
      using decode_step_moves [of E "d1 @ d2" ?f d e'] s(3) by (auto simp: Let_def)
    then show ?thesis using moves_trans [OF m] by blast
  qed
qed

text \<open>C7: no request is lost or answered twice. Whatever a step does (cancel, admit, preempt, decode, retire), the ids of the
  requests waiting, running and finished-but-not-collected after it are those from before, and the requests it returns are
  exactly the outcomes it recorded, in order.\<close>

theorem step_conserves_requests:
  assumes "step E e = (Ret d, e')"
  shows "accounted e' = accounted e \<and> newly_finished e' = newly_finished e @ d \<and> num_finished e' = num_finished e + length d"
  using step_moves [OF assms] by (auto simp: moves_def accounted_def) (metis (no_types, opaque_lifting) add.assoc add.commute)

theorem step_conserves_requests_witness:
  "\<exists>e d e'. e = (request_cancel ''a'' (new_engine demo_model (new_rope 16 128 10000) (new_pool [] TINY 4 2 2) 0 0 1 True None 8))
      \<lparr>waiting := [new_request [1, 2] default_params ''a'' 0 None, new_request [3] default_params ''b'' 0 None]\<rparr> \<and>
    step \<lparr>clk = real, hash2 = demo_hash, smp = first_sampler\<rparr> e = (Ret d, e') \<and> map request_id d = [''a''] \<and>
    accounted e' = accounted e \<and> newly_finished e' = newly_finished e @ d"
proof -
  let ?E = "\<lparr>clk = real, hash2 = demo_hash, smp = first_sampler\<rparr>"
  let ?e = "(request_cancel ''a'' (new_engine demo_model (new_rope 16 128 10000) (new_pool [] TINY 4 2 2) 0 0 1 True None 8))
      \<lparr>waiting := [new_request [1, 2] default_params ''a'' 0 None, new_request [3] default_params ''b'' 0 None]\<rparr>"
  have q: "running ?e = []" "cancel_requested ?e = {''a''}" "max_batch_size ?e = 0"
    by (simp_all add: request_cancel_def new_engine_def)
  have w: "waiting ?e = [new_request [1, 2] default_params ''a'' 0 None, new_request [3] default_params ''b'' 0 None]" by simp
  have "\<exists>d e'. step ?E e = (Ret d, e') \<and> map request_id d = [''a'']"
    if "running e = []" "cancel_requested e = {''a''}" "max_batch_size e = 0"
      "waiting e = [new_request [1, 2] default_params ''a'' 0 None, new_request [3] default_params ''b'' 0 None]" for e
    using that by (simp add: step_def apply_cancellations_def admit_waiting_def Let_def new_request_def finish_now_unfold
        record_finished_def)
  from this [OF q w] obtain d e' where st: "step ?E ?e = (Ret d, e')" "map request_id d = [''a'']" by (elim exE conjE)
  note c = step_conserves_requests [OF st(1)]
  show ?thesis
    by (rule exI [of _ ?e], rule exI [of _ d], rule exI [of _ e'])
      (rule conjI [OF refl conjI [OF st(1) conjI [OF st(2) conjI [OF c [THEN conjunct1] c [THEN conjunct2, THEN conjunct1]]]]])
qed

section \<open>A request the pool could never hold\<close>

definition never_fits :: "request \<Rightarrow> engine \<Rightarrow> bool" where
  "never_fits req e \<longleftrightarrow> num_blocks (alloc (e_pool e)) < blocks_needed req e + 1 + reserve_for 0 e"

definition stuck :: "engine \<Rightarrow> bool" where
  "stuck e \<longleftrightarrow>
     running e = [] \<and> cancel_requested e = {} \<and> 0 < max_batch_size e \<and> waiting e \<noteq> [] \<and>
     never_fits (hd (waiting e)) e \<and> pc_wf (e_pool e) (e_prefix e) {#}"

text \<open>The branch of \<^verbatim>\<open>_admit\<close> that rejects such a request is never reached: the reclaim before it already fails and breaks
  the loop, leaving the request at the head of the queue.\<close>

lemma stuck_step:
  assumes "stuck e"
  shows "\<exists>e'. step E e = (Ret [], e') \<and> stuck e' \<and> newly_finished e' = newly_finished e"
proof -
  obtain req rest where w: "waiting e = req # rest" using assms by (cases "waiting e") (auto simp: stuck_def)
  let ?n = "blocks_needed req e + 1 + reserve_for 0 e"
  have wf: "pc_wf (e_pool e) (e_prefix e) {#}" and big: "num_blocks (alloc (e_pool e)) < ?n" and run: "running e = []"
    "cancel_requested e = {}" "0 < max_batch_size e"
    using assms w by (auto simp: stuck_def never_fits_def)
  obtain a pc where ef: "ensure_free ?n (e_pool e, e_prefix e) = (Ret False, ((e_pool e)\<lparr>alloc := a\<rparr>, pc))"
    "pc_wf ((e_pool e)\<lparr>alloc := a\<rparr>) pc {#}" "num_blocks a = num_blocks (alloc (e_pool e))"
    using ensure_free_ok [OF wf, of ?n] big by auto
  have "num_free (alloc (e_pool e)) < ?n" using idle_accounting [OF wf] big by simp
  then have "make_room ?n e = (Ret False, e\<lparr>e_pool := (e_pool e)\<lparr>alloc := a\<rparr>, e_prefix := pc\<rparr>)"
    using ef(1) by (simp add: make_room_def)
  then have "step E e = (Ret [], e\<lparr>e_pool := (e_pool e)\<lparr>alloc := a\<rparr>, e_prefix := pc, waiting := req # rest, running := []\<rparr>)"
    using run w by (simp add: step_def apply_cancellations_def admit_waiting_def admit_one_def Let_def del: ensure_free.simps)
  then show ?thesis
    using ef(2,3) big run by (auto simp: stuck_def never_fits_def blocks_needed_def reserve_for_def)
qed

lemma stuck_run_loop:
  assumes "run_loop E out e = Some y"
  shows "\<not> stuck e"
proof (rule run_loop.raw_induct [where P = "\<lambda>E out e y. \<not> stuck e", OF _ assms])
  fix f E out e y
  assume IH: "\<And>E out e y. f E out e = Some y \<Longrightarrow> \<not> stuck e"
    and body: "(if has_work e
      then (case step E e of
              (Raise x, e) \<Rightarrow> Some (Raise x, e)
            | (Ret _, e) \<Rightarrow>
                (case drain_finished (e\<lparr>emitted := []\<rparr>) of (fin, e) \<Rightarrow> f E (out @ fin) e))
      else (case drain_finished e of (fin, e) \<Rightarrow> Some (Ret (out @ fin), e))) = Some y"
  show "\<not> stuck e"
  proof
    assume st: "stuck e"
    obtain e' where e': "step E e = (Ret [], e')" "stuck e'" using stuck_step [OF st] by blast
    have "has_work e" using st by (simp add: stuck_def has_work_def)
    then have "f E (out @ newly_finished e') (e'\<lparr>emitted := [], newly_finished := []\<rparr>) = Some y"
      using body e'(1) by (simp add: drain_finished_def)
    then have "\<not> stuck (e'\<lparr>emitted := [], newly_finished := []\<rparr>)" by (rule IH)
    then show False using e'(2) by (auto simp: stuck_def never_fits_def blocks_needed_def reserve_for_def)
  qed
qed

text \<open>C21: \<^verbatim>\<open>run\<close> does not return on a request the pool could never hold, where a comment in \<^verbatim>\<open>_admit\<close> promises to reject it
  (\<^verbatim>\<open>Rejecting beats looping forever\<close>): on a fresh engine without admission control the call diverges, whatever requests
  follow.\<close>

theorem oversized_request_never_returns:
  assumes "pool_wf p {#}" and "0 < mbs"
    and "num_blocks (alloc p) < ceil_div (prompt_len req) (block_size p) + 1 + max res 1"
  shows "run_engine E (req # reqs) (new_engine M r p eos mbs res pre None hist) = None"
proof -
  let ?e = "new_engine M r p eos mbs res pre None hist"
  have add: "for_each (add_request E) rs e = (Ret (), e\<lparr>waiting := waiting e @ rs\<rparr>)" if "admission_ctl e = None" for rs e
    using that by (induction rs arbitrary: e) (simp_all add: add_request_def)
  have "stuck (?e\<lparr>waiting := req # reqs\<rparr>)"
    using assms new_prefix_cache_wf [OF assms(1), of pre]
    by (simp add: stuck_def never_fits_def new_engine_def blocks_needed_def reserve_for_def)
  then have "run_loop E [] (?e\<lparr>waiting := req # reqs\<rparr>) = None"
    using stuck_run_loop [of E "[]" "?e\<lparr>waiting := req # reqs\<rparr>"]
    by (cases "run_loop E [] (?e\<lparr>waiting := req # reqs\<rparr>)") auto
  moreover have "admission_ctl ?e = None" "waiting ?e = []" by (simp_all add: new_engine_def)
  ultimately show ?thesis using add [of ?e "req # reqs"] by (simp add: run_engine_def del: for_each.simps)
qed

theorem oversized_request_never_returns_witness:
  "run_engine \<lparr>clk = real, hash2 = demo_hash, smp = first_sampler\<rparr> [new_request [1, 2, 3, 4, 5, 6, 7, 8, 9] default_params ''a'' 0 None]
     (new_engine demo_model (new_rope 16 128 10000) (new_pool [] TINY 4 2 2) 0 8 1 True None 1024) = None"
proof (rule oversized_request_never_returns)
  have "ceil_div (Suc (Suc (Suc (Suc (Suc (Suc (Suc (Suc (Suc 0))))))))) 2 = 5" by (rule ceil_div_unique) simp_all
  then show "num_blocks (alloc (new_pool ([]::kv_row) TINY 4 2 2)) <
      ceil_div (prompt_len (new_request [1, 2, 3, 4, 5, 6, 7, 8, 9] default_params ''a'' 0 None)) (block_size (new_pool ([]::kv_row) TINY 4 2 2)) +
        1 + max 1 1"
    by (simp add: new_pool_def new_allocator_def Let_def prompt_len_def new_request_def)
qed (simp_all add: new_pool_wf)

end
