(* ===== verification/Reference.thy ===== *)
theory Reference
  imports Incremental Sampling
begin

text \<open>
  The reference decoder the engines are compared with: take, again and again, the argmax of one uncached pass over everything so far.
  \<open>hist_of_seq\<close> is what a cache must hold for a token sequence, its keys and values per layer; \<open>uncached_row\<close> relates the two, and
  \<open>hist_rows_prefix\<close> says that the rows of a prefix are a prefix of the rows.
\<close>

text \<open>The last row of the logits of one uncached pass.\<close>

definition uncached :: "model_w \<Rightarrow> rope \<Rightarrow> nat list \<Rightarrow> vec" where
  "uncached M r ids = (case nano_causal_lm M [ids] None None None (r, ()) of (Ret out, _) \<Rightarrow> last (out ! 0) | (Raise _, _) \<Rightarrow> [])"

fun greedy_ref :: "sampler \<Rightarrow> model_w \<Rightarrow> rope \<Rightarrow> (nat \<Rightarrow> bool) \<Rightarrow> nat \<Rightarrow> nat list \<Rightarrow> nat list" where
  "greedy_ref S M r stop 0 ids = []"
| "greedy_ref S M r stop (Suc n) ids =
     (let t = argmax S (uncached M r ids) in if stop t then [] else t # greedy_ref S M r stop n (ids @ [t]))"

text \<open>The history of a sequence, and what the model computes from it.\<close>

definition hist_of_seq :: "model_w \<Rightarrow> rope \<Rightarrow> nat list \<Rightarrow> vec list \<times> hist" where
  "hist_of_seq M r ids = hist_pass M r 0 ids (empty_hist (length (mlayers M)))"

definition same_tables :: "model_w \<Rightarrow> rope \<Rightarrow> rope \<Rightarrow> bool" where
  "same_tables M r r' \<longleftrightarrow> rope_wf r' \<and> (\<forall>past xs h. hist_pass M r' past xs h = hist_pass M r past xs h)"

lemma uncached_row:
  assumes "rope_wf r" and "\<forall>t \<in> set ids. t < vocab_size (mcfg M)"
  shows "uncached M r ids = last (map (lm_out M) (fst (hist_of_seq M r ids)))"
  using lm_none [OF assms, of "()"] by (simp add: uncached_def hist_of_seq_def)

lemma hist_of_seq_facts:
  assumes "mlayers M \<noteq> []"
  shows "snd (hist_of_seq M r ids) \<noteq> []" "length (snd (hist_of_seq M r ids)) = length (mlayers M)"
    "hist_len (snd (hist_of_seq M r ids)) = length ids" "length (fst (hist_of_seq M r ids)) = length ids"
proof -
  let ?h = "empty_hist (length (mlayers M))"
  have h: "hist_ok ?h" "length (mlayers M) \<le> length ?h" "hist_len ?h = 0"
    using assms by (simp_all add: empty_hist_def hist_ok_def hist_len_def)
  note ok = hist_pass_ok [OF h(1,2), of r 0 ids]
  show l: "length (snd (hist_of_seq M r ids)) = length (mlayers M)" "length (fst (hist_of_seq M r ids)) = length ids"
    using ok by (simp_all add: hist_of_seq_def empty_hist_def)
  then show "snd (hist_of_seq M r ids) \<noteq> []" using assms by (metis length_0_conv)
  show "hist_len (snd (hist_of_seq M r ids)) = length ids"
    using hist_pass_len [OF assms h(2), of r 0 ids] h(3) by (simp add: hist_of_seq_def)
qed

lemma hist_of_seq_snoc:
  assumes "sdpa_doc (sdpa M) att" and "mlayers M \<noteq> []"
  shows "hist_of_seq M r (xs @ ys) =
    (fst (hist_of_seq M r xs) @ fst (hist_pass M r (length xs) ys (snd (hist_of_seq M r xs))),
     snd (hist_pass M r (length xs) ys (snd (hist_of_seq M r xs))))"
  using hist_pass_split [OF assms(1), of "empty_hist (length (mlayers M))" r 0 xs ys]
  by (simp add: hist_of_seq_def empty_hist_def hist_ok_def case_prod_unfold Let_def)

lemma greedy_ref_snoc:
  "length (greedy_ref S M r stop n ids) = n \<Longrightarrow>
   greedy_ref S M r stop (Suc n) ids =
     (let t = argmax S (uncached M r (ids @ greedy_ref S M r stop n ids))
      in if stop t then greedy_ref S M r stop n ids else greedy_ref S M r stop n ids @ [t])"
proof (induction n arbitrary: ids)
  case (Suc n)
  let ?t = "argmax S (uncached M r ids)"
  have t: "\<not> stop ?t" "length (greedy_ref S M r stop n (ids @ [?t])) = n" using Suc.prems by (auto simp: Let_def split: if_splits)
  then show ?case using Suc.IH [OF t(2)] by (simp add: Let_def)
qed (simp add: Let_def)

text \<open>A shorter reference output that did not reach its bound has met the stop token.\<close>

lemma greedy_ref_stopped:
  "length (greedy_ref S M r stop n ids) < n \<Longrightarrow> n \<le> m \<Longrightarrow> greedy_ref S M r stop m ids = greedy_ref S M r stop n ids"
proof (induction n arbitrary: m ids)
  case (Suc n)
  then obtain k where m: "m = Suc k" "n \<le> k" by (cases m) auto
  show ?case
  proof (cases "stop (argmax S (uncached M r ids))")
    case False
    then have "length (greedy_ref S M r stop n (ids @ [argmax S (uncached M r ids)])) < n" using Suc.prems(1) by (simp add: Let_def)
    from Suc.IH [OF this m(2)] show ?thesis using False by (simp add: m(1) Let_def)
  qed (simp add: m Let_def)
qed simp

section \<open>Rows of a prefix\<close>

text \<open>A pass appends to every layer it runs.\<close>

lemma hist_layers_extend:
  assumes "i + length lws \<le> length h" and "length cs = length x" and "length sn = length x" and "i \<le> l" and "l < i + length lws"
  shows "\<exists>k v. snd (hist_layers M lws i x cs sn h) ! l = (fst (h ! l) @ k, snd (h ! l) @ v) \<and> length k = length x \<and> length v = length x"
  using assms
proof (induction lws arbitrary: i x h)
  case (Cons lw lws)
  obtain y kv where y: "hist_layer M lw x cs sn (h ! i) = (y, kv)" by (cases "hist_layer M lw x cs sn (h ! i)") auto
  have kv: "kv = (fst (h ! i) @ layer_k M lw x cs sn, snd (h ! i) @ layer_v M lw x)" "length y = length x"
    using y Cons.prems(2,3) by (auto simp: hist_layer_def Let_def)
  show ?case
  proof (cases "l = i")
    case True
    then have "snd (hist_layers M (lw # lws) i x cs sn h) ! l = h[i := kv] ! i" using y by (simp add: hist_layers_other)
    then show ?thesis using kv(1) True Cons.prems(1-3) by simp
  next
    case False
    then have "\<exists>k v. snd (hist_layers M lws (Suc i) y cs sn (h[i := kv])) ! l = (fst (h[i := kv] ! l) @ k, snd (h[i := kv] ! l) @ v) \<and>
        length k = length y \<and> length v = length y"
      using Cons.prems kv(2) by (intro Cons.IH) auto
    then show ?thesis using y False kv(2) by simp
  qed
qed simp

lemma hist_rows_prefix:
  assumes "sdpa_doc (sdpa M) att" and "mlayers M \<noteq> []" and "l < length (mlayers M)"
  shows "take (length xs) (fst (snd (hist_of_seq M r (xs @ ys)) ! l)) = fst (snd (hist_of_seq M r xs) ! l)"
    and "take (length xs) (snd (snd (hist_of_seq M r (xs @ ys)) ! l)) = snd (snd (hist_of_seq M r xs) ! l)"
    and "length (fst (snd (hist_of_seq M r xs) ! l)) = length xs" and "length (snd (snd (hist_of_seq M r xs) ! l)) = length xs"
proof -
  have rows: "length (fst (snd (hist_of_seq M r zs) ! l)) = length zs \<and> length (snd (snd (hist_of_seq M r zs) ! l)) = length zs" for zs
    using hist_layers_extend [of 0 "mlayers M" "empty_hist (length (mlayers M))" "map (cos_row r) [0..<length zs]" "map (embed_tokens M) zs"
        "map (sin_row r) [0..<length zs]" l M] assms(3)
    by (auto simp: hist_of_seq_def hist_pass_def empty_hist_def)
  let ?h = "snd (hist_of_seq M r xs)"
  have "\<exists>k v. snd (hist_of_seq M r (xs @ ys)) ! l = (fst (?h ! l) @ k, snd (?h ! l) @ v)"
    using hist_layers_extend [of 0 "mlayers M" ?h "map (cos_row r) [length xs..<length xs + length ys]" "map (embed_tokens M) ys"
        "map (sin_row r) [length xs..<length xs + length ys]" l M] hist_of_seq_facts(2) [OF assms(2), of r xs] assms(3)
    by (auto simp: hist_of_seq_snoc [OF assms(1,2)] hist_pass_def)
  then show "take (length xs) (fst (snd (hist_of_seq M r (xs @ ys)) ! l)) = fst (snd (hist_of_seq M r xs) ! l)"
    and "take (length xs) (snd (snd (hist_of_seq M r (xs @ ys)) ! l)) = snd (snd (hist_of_seq M r xs) ! l)"
    using rows [of xs] by auto
  show "length (fst (snd (hist_of_seq M r xs) ! l)) = length xs" "length (snd (snd (hist_of_seq M r xs) ! l)) = length xs" using rows by simp_all
qed

end
