(* ===== verification/Prefix_Semantics.thy ===== *)
theory Prefix_Semantics
  imports Reference Prefix_Cache Batched_Cache
begin

text \<open>
  What the blocks of the prefix cache contain. A key of \<^verbatim>\<open>PrefixCache\<close> names a prefix of a prompt; \<open>pc_sem\<close> says that the block
  stored under it holds the keys and values the model computes for the last chunk of that prefix (\<open>block_holds\<close>). Under the
  hypothesis that the chains of the prompts in use do not collide (\<open>no_collision\<close>), a lookup followed by \<open>attach\<close> leaves a
  sequence with exactly the history of the matched prefix, and what \<open>insert_prefix\<close> adds after a prefill is true again.
\<close>

definition block_holds :: "model_w \<Rightarrow> rope \<Rightarrow> kv_row pool \<Rightarrow> nat \<Rightarrow> nat \<Rightarrow> nat list \<Rightarrow> bool" where
  "block_holds M r p b d ids \<longleftrightarrow>
     (\<forall>l < num_hidden_layers (cfg p).
        gather (kmem p ! l) (block_slots (block_size p) b) =
          take (block_size p) (drop (d * block_size p) (fst (snd (hist_of_seq M r ids) ! l))) \<and>
        gather (vmem p ! l) (block_slots (block_size p) b) =
          take (block_size p) (drop (d * block_size p) (snd (snd (hist_of_seq M r ids) ! l))))"

definition pc_sem :: "hash_fn \<Rightarrow> model_w \<Rightarrow> rope \<Rightarrow> nat list set \<Rightarrow> kv_row pool \<Rightarrow> prefix_cache \<Rightarrow> bool" where
  "pc_sem hash2 M r P p pc \<longleftrightarrow>
     (\<forall>h b. pc_view pc h = Some b \<longrightarrow>
        (\<exists>ids \<in> P. \<exists>d < length (hash_chain hash2 p ids). h = hash_chain hash2 p ids ! d \<and> block_holds M r p b d ids))"

definition no_collision :: "hash_fn \<Rightarrow> nat \<Rightarrow> nat list set \<Rightarrow> bool" where
  "no_collision hash2 bs P \<longleftrightarrow>
     (\<forall>ids \<in> P. \<forall>ids' \<in> P. \<forall>d < length ids div bs. \<forall>d' < length ids' div bs.
        chain_from hash2 bs ROOT_HASH ids ! d = chain_from hash2 bs ROOT_HASH ids' ! d' \<longrightarrow>
        take (Suc d * bs) ids = take (Suc d' * bs) ids')"

section \<open>Chains\<close>

lemma length_chain: "0 < bs \<Longrightarrow> length (chain_from hash2 bs par ids) = length ids div bs"
proof (induction hash2 bs par ids rule: chain_from.induct)
  case (1 hash2 bs par ids)
  show ?case
  proof (cases "length ids < bs")
    case False
    then have "length ids div bs = Suc ((length ids - bs) div bs)" using 1(2) by (simp add: le_div_geq)
    then show ?thesis using 1 False by (subst chain_from.simps) (simp add: Let_def)
  qed (subst chain_from.simps, simp)
qed

lemma chain_take: "0 < bs \<Longrightarrow> n \<le> length ids \<Longrightarrow> chain_from hash2 bs par (take n ids) = take (n div bs) (chain_from hash2 bs par ids)"
proof (induction hash2 bs par ids arbitrary: n rule: chain_from.induct)
  case (1 hash2 bs par ids)
  show ?case
  proof (cases "n < bs")
    case True
    then show ?thesis using 1(3) by (subst chain_from.simps) simp
  next
    case False
    let ?h = "block_hash hash2 par (take bs ids)"
    have g: "\<not> (bs = 0 \<or> length ids < bs)" using 1(2,3) False by simp
    have "n div bs = Suc ((n - bs) div bs)" using False 1(2) by (simp add: le_div_geq)
    moreover have "chain_from hash2 bs ?h (take (n - bs) (drop bs ids)) = take ((n - bs) div bs) (chain_from hash2 bs ?h (drop bs ids))"
      using 1(1) [OF g refl 1(2), of "n - bs"] 1(3) by simp
    moreover have "chain_from hash2 bs par (take n ids) = ?h # chain_from hash2 bs ?h (take (n - bs) (drop bs ids))"
      using False 1(2,3) by (subst chain_from.simps) (simp add: Let_def min_def drop_take)
    moreover have "chain_from hash2 bs par ids = ?h # chain_from hash2 bs ?h (drop bs ids)"
      using g by (subst chain_from.simps) (simp add: Let_def)
    ultimately show ?thesis by simp
  qed
qed

lemma no_collisionD:
  assumes "no_collision hash2 bs P" and "ids \<in> P" "ids' \<in> P" and "d < length ids div bs" "d' < length ids' div bs" and "0 < bs"
    and "chain_from hash2 bs ROOT_HASH ids ! d = chain_from hash2 bs ROOT_HASH ids' ! d'"
  shows "d' = d" and "take (Suc d * bs) ids' = take (Suc d * bs) ids"
proof -
  have t: "take (Suc d * bs) ids = take (Suc d' * bs) ids'" using assms unfolding no_collision_def by blast
  have "Suc d * bs \<le> length ids" "Suc d' * bs \<le> length ids'"
    using assms(4-6) by (metis Suc_leI less_eq_div_iff_mult_less_eq)+
  then have "Suc d * bs = Suc d' * bs" using arg_cong [OF t, of length] by simp
  then have "d = d'" using assms(6) by (metis Suc_inject mult_cancel2 less_irrefl)
  then show "d' = d" "take (Suc d * bs) ids' = take (Suc d * bs) ids" using t by simp_all
qed

section \<open>Rows of a block table\<close>

lemma table_chunk:
  assumes "0 < bs" and "i < length bt"
  shows "block_slots bs (bt ! i) = take bs (drop (i * bs) (table_slots bs bt))"
  using assms Cons_nth_drop_Suc [OF assms(2)] by (simp add: drop_table_slots) (metis append_eq_conv_conj length_block_slots table_slots_Cons)

lemma gather_table:
  assumes "\<And>i. i < length bt \<Longrightarrow> gather m (block_slots bs (bt ! i)) = take bs (drop (i * bs) X)"
  shows "gather m (table_slots bs bt) = take (length bt * bs) X"
  using assms
proof (induction bt rule: rev_induct)
  case (snoc b bt)
  have "gather m (table_slots bs bt) = take (length bt * bs) X"
  proof (rule snoc.IH)
    fix i assume "i < length bt"
    then show "gather m (block_slots bs (bt ! i)) = take bs (drop (i * bs) X)" using snoc.prems [of i] by (simp add: nth_append)
  qed
  moreover have "gather m (block_slots bs b) = take bs (drop (length bt * bs) X)" using snoc.prems [of "length bt"] by simp
  ultimately show ?case by (simp add: take_add [symmetric] add.commute)
qed simp

lemma gather_chunk:
  assumes "0 < bs" and "i < length bt" and "Suc i * bs \<le> n" and "gather m (take n (table_slots bs bt)) = X"
  shows "gather m (block_slots bs (bt ! i)) = take bs (drop (i * bs) X)"
  using assms(3) unfolding table_chunk [OF assms(1,2)] assms(4) [symmetric]
  by (simp add: gather_def take_map drop_map drop_take min_def)

section \<open>Chunks of equal prefixes\<close>

lemma take_drop_take: "i * bs + bs \<le> n \<Longrightarrow> take bs (drop (i * bs) (take n X)) = take bs (drop (i * (bs::nat)) X)"
  by (simp add: drop_take min_def)

lemma hist_rows_take:
  assumes "sdpa_doc (sdpa M) att" and "mlayers M \<noteq> []" and "l < length (mlayers M)"
  shows "take n (fst (snd (hist_of_seq M r ids) ! l)) = fst (snd (hist_of_seq M r (take n ids)) ! l)"
    and "take n (snd (snd (hist_of_seq M r ids) ! l)) = snd (snd (hist_of_seq M r (take n ids)) ! l)"
proof -
  note h = hist_rows_prefix(1,2) [OF assms, where xs = "take n ids" and ys = "drop n ids" and r = r]
    hist_rows_prefix(3,4) [OF assms, where xs = ids and r = r]
  show "take n (fst (snd (hist_of_seq M r ids) ! l)) = fst (snd (hist_of_seq M r (take n ids)) ! l)"
    using h by (cases "n \<le> length ids") (simp_all add: min.absorb2)
  show "take n (snd (snd (hist_of_seq M r ids) ! l)) = snd (snd (hist_of_seq M r (take n ids)) ! l)"
    using h by (cases "n \<le> length ids") (simp_all add: min.absorb2)
qed

lemma block_holds_prefix:
  assumes doc: "sdpa_doc (sdpa M) att" "mlayers M \<noteq> []" and L: "num_hidden_layers (cfg p) = length (mlayers M)"
    and t: "take (Suc d * block_size p) ids' = take (Suc d * block_size p) ids" and b: "block_holds M r p b d ids'"
  shows "block_holds M r p b d ids"
proof -
  let ?bs = "block_size p"
  have eq: "take ?bs (drop (d * ?bs) (f (snd (hist_of_seq M r ids') ! l))) = take ?bs (drop (d * ?bs) (f (snd (hist_of_seq M r ids) ! l)))"
    if "\<And>xs. take (Suc d * ?bs) (f (snd (hist_of_seq M r xs) ! l)) = f (snd (hist_of_seq M r (take (Suc d * ?bs) xs)) ! l)"
    for f :: "kv_row list \<times> kv_row list \<Rightarrow> kv_row list" and l
    using that [of ids] that [of ids'] t take_drop_take [of d ?bs "Suc d * ?bs"] by (metis add.commute mult_Suc order_refl)
  show ?thesis
    using b L hist_rows_take [OF doc] eq [of fst] eq [of snd] by (simp add: block_holds_def)
qed

section \<open>A lookup attaches the history of the matched prefix\<close>

lemma view_cached: "pc_view pc h = Some b \<Longrightarrow> b \<in> set (cached_blocks pc)"
  using map_of_SomeD by (force simp: pc_view_def cached_blocks_def)

lemma view_inj:
  assumes "distinct (cached_blocks pc)" and "pc_view pc h = Some b" and "pc_view pc k = Some b"
  shows "h = k"
proof -
  obtain e f where "(h, e) \<in> set (pc_entries pc)" "(k, f) \<in> set (pc_entries pc)" "block_id e = b" "block_id f = b"
    using assms(2,3) by (auto simp: pc_view_def dest: map_of_SomeD)
  then show ?thesis
    using assms(1) inj_onD [of "block_id \<circ> snd" "set (pc_entries pc)" "(h, e)" "(k, f)"] by (auto simp: cached_blocks_def distinct_map)
qed

lemma hist_of_alloc [simp]: "hist_of (p\<lparr>alloc := a\<rparr>) c = hist_of p c"
  by (simp add: hist_of_def k_rows_def v_rows_def)

lemma hist_of_attached:
  assumes doc: "sdpa_doc (sdpa M) att" "mlayers M \<noteq> []" and L: "num_hidden_layers (cfg p) = length (mlayers M)"
    and c: "cache_wf p c" "num_tokens c = length (block_table c) * block_size p"
    and b: "\<And>i. i < length (block_table c) \<Longrightarrow> block_holds M r p (block_table c ! i) i ids"
  shows "hist_of p c = snd (hist_of_seq M r (take (num_tokens c) ids))"
proof (rule nth_equalityI)
  show "length (hist_of p c) = length (snd (hist_of_seq M r (take (num_tokens c) ids)))"
    using L hist_of_seq_facts(2) [OF doc(2)] by (simp add: hist_of_def)
  fix l assume "l < length (hist_of p c)"
  then have l: "l < length (mlayers M)" using L by (simp add: hist_of_def)
  have sl: "take (length (block_table c) * block_size p) (slots c) = table_slots (block_size p) (block_table c)"
    using c by (simp add: cache_wf_def table_wf_def)
  have "gather (kmem p ! l) (table_slots (block_size p) (block_table c)) = take (length (block_table c) * block_size p) (fst (snd (hist_of_seq M r ids) ! l))"
    "gather (vmem p ! l) (table_slots (block_size p) (block_table c)) = take (length (block_table c) * block_size p) (snd (snd (hist_of_seq M r ids) ! l))"
    using b l L by (auto simp: block_holds_def intro!: gather_table)
  then show "hist_of p c ! l = snd (hist_of_seq M r (take (num_tokens c) ids)) ! l"
    using l L hist_rows_take [OF doc l] unfolding hist_of_def k_rows_def v_rows_def sl c(2) by (simp add: prod_eq_iff)
qed

lemma matched_blocks:
  assumes doc: "sdpa_doc (sdpa M) att" "mlayers M \<noteq> []" and L: "num_hidden_layers (cfg p) = length (mlayers M)" and bs: "0 < block_size p"
    and sem: "pc_sem hash2 M r P p pc" and nc: "no_collision hash2 (block_size p) P" and ids: "ids \<in> P"
    and i: "i < length ids div block_size p" and v: "pc_view pc (chain_from hash2 (block_size p) ROOT_HASH ids ! i) = Some b"
  shows "block_holds M r p b i ids"
proof -
  obtain ids' d where d: "ids' \<in> P" "d < length ids' div block_size p" "block_holds M r p b d ids'"
    "chain_from hash2 (block_size p) ROOT_HASH ids ! i = chain_from hash2 (block_size p) ROOT_HASH ids' ! d"
    using sem v bs unfolding pc_sem_def hash_chain_def length_chain [OF bs] by blast
  note n = no_collisionD [OF nc ids d(1) i d(2) bs d(4)]
  show ?thesis using block_holds_prefix [OF doc L n(2)] d(3) n(1) by simp
qed

lemma match_attach:
  assumes doc: "sdpa_doc (sdpa M) att" "mlayers M \<noteq> []" and L: "num_hidden_layers (cfg p) = length (mlayers M)"
    and wf: "pc_wf p pc R" and sem: "pc_sem hash2 M r P p pc" and nc: "no_collision hash2 (block_size p) P"
    and ids: "ids \<in> P" "ids \<noteq> []"
  shows "\<exists>ms a pc' c. match_prefix hash2 (butlast ids) (p, pc) = (Ret ms, (p\<lparr>alloc := a\<rparr>, pc')) \<and>
    attach (p\<lparr>alloc := a\<rparr>) new_pcache ms = (num_tokens c, c) \<and> block_table c = ms \<and> cache_wf p c \<and>
    num_tokens c = length ms * block_size p \<and> num_tokens c < length ids \<and>
    hist_of p c = snd (hist_of_seq M r (take (num_tokens c) ids)) \<and>
    pc_wf (p\<lparr>alloc := a\<rparr>) pc' (mset ms + R) \<and> num_free a = num_free (alloc p) \<and> num_blocks a = num_blocks (alloc p) \<and>
    pc_view pc' = pc_view pc \<and> cached_blocks pc' = cached_blocks pc \<and> pc_enabled pc' = pc_enabled pc"
proof -
  let ?bs = "block_size p" and ?ch = "chain_from hash2 (block_size p) ROOT_HASH ids"
  have bs: "0 < ?bs" using wf by (auto simp: pc_wf_def dest: pool_wf_bs)
  have dc: "distinct (cached_blocks pc)" using wf by (simp add: pc_wf_def)
  obtain ms a pc' where m: "match_prefix hash2 (butlast ids) (p, pc) = (Ret ms, (p\<lparr>alloc := a\<rparr>, pc'))"
    "pc_wf (p\<lparr>alloc := a\<rparr>) pc' (mset ms + R)" "num_free a = num_free (alloc p)" "num_blocks a = num_blocks (alloc p)"
    "ms = (if pc_enabled pc then map (\<lambda>h. the (pc_view pc h)) (takeWhile (\<lambda>h. pc_view pc h \<noteq> None) (hash_chain hash2 p (butlast ids))) else [])"
    "pc_view pc' = pc_view pc" "cached_blocks pc' = cached_blocks pc" "pc_enabled pc' = pc_enabled pc"
    using match_prefix_ok [OF wf] by blast
  define n where "n = length ms"
  have bl: "hash_chain hash2 p (butlast ids) = take ((length ids - 1) div ?bs) ?ch"
    using chain_take [OF bs, of "length ids - 1" ids] by (simp add: hash_chain_def butlast_conv_take)
  have le: "(length ids - 1) div ?bs \<le> length ids div ?bs" by (simp add: div_le_mono)
  have nn: "n \<le> (length ids - 1) div ?bs" "\<And>i. i < n \<Longrightarrow> pc_view pc (?ch ! i) = Some (ms ! i)"
  proof -
    let ?tw = "takeWhile (\<lambda>h. pc_view pc h \<noteq> None) (hash_chain hash2 p (butlast ids))"
    have l: "length ?tw \<le> (length ids - 1) div ?bs" using length_takeWhile_le [of _ "hash_chain hash2 p (butlast ids)"] by (metis bl le_trans length_take min.cobounded2)
    then show "n \<le> (length ids - 1) div ?bs" using m(5) by (auto simp: n_def)
    fix i assume i: "i < n"
    then have t: "i < length ?tw" "ms ! i = the (pc_view pc (?tw ! i))" using m(5) by (auto simp: n_def split: if_splits)
    have "?tw ! i = ?ch ! i" using t(1) l by (simp add: takeWhile_nth bl)
    moreover have "pc_view pc (?tw ! i) \<noteq> None" using set_takeWhileD [OF nth_mem [OF t(1)]] by blast
    ultimately show "pc_view pc (?ch ! i) = Some (ms ! i)" using t(2) by simp
  qed
  have dist: "distinct ms"
  proof (rule distinct_conv_nth [THEN iffD2], intro allI impI)
    fix i j assume ij: "i < length ms" "j < length ms" "i \<noteq> j"
    then have d: "i < length ids div ?bs" "j < length ids div ?bs" using nn(1) le by (auto simp: n_def)
    show "ms ! i \<noteq> ms ! j"
    proof
      assume eq: "ms ! i = ms ! j"
      have "?ch ! i = ?ch ! j" using view_inj [OF dc nn(2) [of i] nn(2) [of j, folded eq]] ij by (simp add: n_def)
      then show False using no_collisionD(1) [OF nc ids(1,1) d bs] ij by simp
    qed
  qed
  obtain c where c: "attach (p\<lparr>alloc := a\<rparr>) new_pcache ms = (length ms * ?bs, c)" "block_table c = ms"
    "num_tokens c = length ms * ?bs" "cache_wf (p\<lparr>alloc := a\<rparr>) c"
    using attach_fresh [of "p\<lparr>alloc := a\<rparr>" ms] bs dist by auto
  have cw: "cache_wf p c" using c(4) by (simp add: cache_wf_def table_wf_def)
  have "n * ?bs \<le> (length ids - 1) div ?bs * ?bs" using nn(1) by simp
  also have "\<dots> \<le> length ids - 1" by (rule div_times_less_eq_dividend)
  also have "\<dots> < length ids" using ids(2) by (cases ids) auto
  finally have lt: "num_tokens c < length ids" using c(3) by (simp add: n_def)
  have "block_holds M r p (ms ! i) i ids" if "i < length ms" for i
    by (rule matched_blocks [OF doc L bs sem nc ids(1)]) (use that nn le in \<open>auto simp: n_def\<close>)
  then have "hist_of p c = snd (hist_of_seq M r (take (num_tokens c) ids))"
    using hist_of_attached [OF doc L cw] c(2,3) by simp
  then show ?thesis using m c cw lt by (intro exI [of _ ms] exI [of _ a] exI [of _ pc'] exI [of _ c]) auto
qed

section \<open>What keeps the contents true\<close>

lemma sem_alloc [simp]:
  "block_holds M r (p\<lparr>alloc := a\<rparr>) = block_holds M r p" "hash_chain hash2 (p\<lparr>alloc := a\<rparr>) = hash_chain hash2 p"
  "pc_sem hash2 M r P (p\<lparr>alloc := a\<rparr>) pc = pc_sem hash2 M r P p pc"
  by (simp_all add: block_holds_def [abs_def] hash_chain_def [abs_def] pc_sem_def)

lemma pc_sem_sub:
  "pc_sem hash2 M r P p pc \<Longrightarrow> (\<And>k b. pc_view pc' k = Some b \<Longrightarrow> pc_view pc k = Some b) \<Longrightarrow> pc_sem hash2 M r P p pc'"
  unfolding pc_sem_def by blast

lemma block_holds_frame:
  assumes "same_blocks B p q" "pool_frame p q" and "B b" "b < num_blocks (alloc p)" "0 < block_size p"
  shows "block_holds M r q b d ids \<longleftrightarrow> block_holds M r p b d ids"
proof -
  have "s < num_blocks (alloc p) * block_size p \<and> B (s div block_size p)" if "s \<in> set (block_slots (block_size p) b)" for s
    using that assms(3-5) set_block_slots [OF assms(5), of b] by (auto intro: slot_bounded)
  then have "gather (kmem q ! l) (block_slots (block_size p) b) = gather (kmem p ! l) (block_slots (block_size p) b)"
    "gather (vmem q ! l) (block_slots (block_size p) b) = gather (vmem p ! l) (block_slots (block_size p) b)"
    if "l < num_hidden_layers (cfg p)" for l
    using assms(1) that by (auto simp: same_blocks_def intro!: gather_cong)
  then show ?thesis using assms(2) by (simp add: block_holds_def pool_frame_def)
qed

lemma pc_sem_frame:
  assumes sem: "pc_sem hash2 M r P p pc" and f: "same_blocks (\<lambda>b. b \<in># N) p q" "pool_frame p q"
    and N: "set (cached_blocks pc) \<subseteq> set_mset N" and wf: "pc_wf p pc R"
  shows "pc_sem hash2 M r P q pc"
  unfolding pc_sem_def
proof (intro allI impI)
  fix h b assume v: "pc_view pc h = Some b"
  have b: "b \<in># N" "b < num_blocks (alloc p)" "0 < block_size p"
    using view_cached [OF v] N wf pool_wf_bounded [of p "mset (cached_blocks pc) + R" b] by (auto simp: pc_wf_def dest: pool_wf_bs)
  have "hash_chain hash2 q = hash_chain hash2 p" using f(2) by (simp add: hash_chain_def [abs_def] pool_frame_def)
  then show "\<exists>ids \<in> P. \<exists>d < length (hash_chain hash2 q ids). h = hash_chain hash2 q ids ! d \<and> block_holds M r q b d ids"
    using sem v block_holds_frame [OF f b] unfolding pc_sem_def by simp
qed

lemma pc_sem_insert:
  assumes doc: "mlayers M \<noteq> []" and L: "num_hidden_layers (cfg p) = length (mlayers M)" and bs: "0 < block_size p"
    and sem: "pc_sem hash2 M r P p pc" and ids: "ids \<in> P" and c: "cache_wf p c" "num_tokens c = length ids"
    and h: "hist_of p c = snd (hist_of_seq M r ids)"
    and new: "\<And>k b. pc_view pc' k = Some b \<Longrightarrow> pc_view pc k = Some b \<or> (k, b) \<in> set (zip (hash_chain hash2 p ids) (block_table c))"
  shows "pc_sem hash2 M r P p pc'"
  unfolding pc_sem_def
proof (intro allI impI)
  fix k b assume v: "pc_view pc' k = Some b"
  show "\<exists>ids \<in> P. \<exists>d < length (hash_chain hash2 p ids). k = hash_chain hash2 p ids ! d \<and> block_holds M r p b d ids"
  proof (cases "pc_view pc k = Some b")
    case True
    then show ?thesis using sem unfolding pc_sem_def by blast
  next
    case False
    then obtain i where i: "i < length (hash_chain hash2 p ids)" "i < length (block_table c)" "k = hash_chain hash2 p ids ! i" "b = block_table c ! i"
      using new [OF v] by (auto simp: in_set_zip)
    have le: "Suc i * block_size p \<le> length ids"
      using i(1) bs by (simp add: hash_chain_def length_chain less_eq_div_iff_mult_less_eq [symmetric] Suc_le_eq del: mult_Suc)
    have "block_holds M r p b i ids"
      unfolding block_holds_def
    proof (intro allI impI)
      fix l assume l: "l < num_hidden_layers (cfg p)"
      have "snd (hist_of_seq M r ids) ! l = (k_rows p c (length ids) l, v_rows p c (length ids) l)"
        using l c(2) by (simp add: h [symmetric] hist_of_def)
      then have "gather (kmem p ! l) (take (length ids) (table_slots (block_size p) (block_table c))) = fst (snd (hist_of_seq M r ids) ! l)"
        "gather (vmem p ! l) (take (length ids) (table_slots (block_size p) (block_table c))) = snd (snd (hist_of_seq M r ids) ! l)"
        using c(1) by (simp_all add: k_rows_def v_rows_def cache_wf_def table_wf_def)
      from gather_chunk [OF bs i(2) le this(1)] gather_chunk [OF bs i(2) le this(2)]
      show "gather (kmem p ! l) (block_slots (block_size p) b) = take (block_size p) (drop (i * block_size p) (fst (snd (hist_of_seq M r ids) ! l))) \<and>
        gather (vmem p ! l) (block_slots (block_size p) b) = take (block_size p) (drop (i * block_size p) (snd (snd (hist_of_seq M r ids) ! l)))"
        unfolding i(4) by simp
    qed
    then show ?thesis using i(1,3) ids by blast
  qed
qed

section \<open>The pass over the rest of a prompt\<close>

lemma same_tables_ensure: "same_tables M r r' \<Longrightarrow> same_tables M r (rope_ensure_capacity m r')"
  by (simp add: same_tables_def ensure_wf hist_pass_def)

lemma positions_given:
  assumes "past + length ids \<le> max_positions r" and "len s = past"
  shows "nano_causal_lm M [ids] (Some [[past..<past + length ids]]) (Some (upd, len)) m (r, s) = nano_causal_lm M [ids] None (Some (upd, len)) m (r, s)"
  using assms(1) by (simp add: assms(2) [symmetric] nano_causal_lm_def nano_model_def time_dim_def Let_def rope_ensure_capacity_def)

lemma suffix_pass:
  assumes doc: "sdpa_doc (sdpa M) att" "mlayers M \<noteq> []" and L: "num_hidden_layers (cfg p) = length (mlayers M)"
    and r: "rope_wf r" "same_tables M r r'" and ids: "\<forall>t \<in> set ids. t < vocab_size (mcfg M)" "num_tokens c < length ids"
    and wf: "pool_wf p (mset (block_table c) + R)" "cache_wf p c" and nt: "num_tokens c = length (block_table c) * block_size p"
    and h: "hist_of p c = snd (hist_of_seq M r (take (num_tokens c) ids))"
    and room: "ceil_div (length ids) (block_size p) \<le> num_free (alloc p)"
  shows "\<exists>logits r'' p' c'.
    nano_causal_lm M [drop (num_tokens c) ids] (Some [[num_tokens c..<num_tokens c + length (drop (num_tokens c) ids)]])
      (Some (solo update, paged_len)) None (rope_ensure_capacity (length ids + 1) r', (p, c)) = (Ret logits, (r'', (p', c'))) \<and>
    last (logits ! 0) = uncached M r ids \<and> same_tables M r r'' \<and> pool_wf p' (mset (block_table c') + R) \<and> cache_wf p' c' \<and>
    hist_of p' c' = snd (hist_of_seq M r ids) \<and> num_tokens c' = length ids \<and> same_blocks (\<lambda>b. b \<in># R) p p' \<and> pool_frame p p'"
proof -
  let ?n = "num_tokens c" and ?x = "drop (num_tokens c) ids" and ?h = "snd (hist_of_seq M r (take (num_tokens c) ids))"
  let ?r = "rope_ensure_capacity (length ids + 1) r'"
  have bs: "0 < block_size p" using wf(1) by (rule pool_wf_bs)
  have rd: "paged_ready R (p, c) ?h" using wf h by (simp add: paged_ready_def hist_of_def)
  have ft: "paged_fits R (p, c) (length ?x)"
    using room nt bs ids(2) by (simp add: paged_fits_def pass_need_def cow_needed_def)
  note hf = hist_of_seq_facts [OF doc(2), of r "take ?n ids"]
  have tb: "same_tables M r ?r" using r(2) by (rule same_tables_ensure)
  have vx: "\<forall>t \<in> set ?x. t < vocab_size (mcfg M)" using ids(1) in_set_dropD by fast
  have hl: "hist_len ?h = ?n" using hf(3) ids(2) by simp
  have hp: "hist_pass M ?r ?n ?x ?h = hist_pass M r ?n ?x ?h" using tb by (simp add: same_tables_def)
  have sq: "hist_of_seq M r ids = (fst (hist_of_seq M r (take ?n ids)) @ fst (hist_pass M r ?n ?x ?h), snd (hist_pass M r ?n ?x ?h))"
    using hist_of_seq_snoc [OF doc, of r "take ?n ids" ?x] ids(2) by simp
  have lf: "length (fst (hist_pass M r ?n ?x ?h)) = length ?x"
    using arg_cong [OF sq, of "\<lambda>q. length (fst q)"] hist_of_seq_facts(4) [OF doc(2), of r ids] hf(4) by simp
  then have ne: "fst (hist_pass M r ?n ?x ?h) \<noteq> []" using ids(2) by (metis length_0_conv length_drop zero_less_diff less_irrefl)
  have lh: "nano_causal_lm M [?x] None (Some (hist_update, hist_len)) None (?r, ?h) =
      (Ret [map (lm_out M) (fst (hist_pass M r ?n ?x ?h))], (rope_ensure_capacity (?n + length ?x) ?r, snd (hist_of_seq M r ids)))"
    using lm_hist [OF _ vx, of ?r ?h] tb hp sq hl by (simp add: same_tables_def)
  obtain p' c' where ps: "nano_causal_lm M [?x] None (Some (solo update, paged_len)) None (?r, (p, c)) =
      (Ret [map (lm_out M) (fst (hist_pass M r ?n ?x ?h))], (rope_ensure_capacity (?n + length ?x) ?r, (p', c')))"
    "paged_ready R (p', c') (snd (hist_of_seq M r ids))" "paged_frame R (p, c) (p', c')"
    using paged.pass_sim [OF rd ft hf(1,2), of None ?r] unfolding lh by auto
  have "nano_causal_lm M [?x] (Some [[?n..<?n + length ?x]]) (Some (solo update, paged_len)) None (?r, (p, c)) =
      nano_causal_lm M [?x] None (Some (solo update, paged_len)) None (?r, (p, c))"
  proof (rule positions_given)
    show "?n + length ?x \<le> max_positions ?r" using ids(2) order_trans [OF _ ensure_fields(3) [of "length ids + 1" r'], of "length ids"] by simp
  qed (simp add: paged_len_def)
  moreover have "uncached M r ids = last (map (lm_out M) (fst (hist_pass M r ?n ?x ?h)))"
    using uncached_row [OF r(1) ids(1)] ne by (simp add: sq last_map)
  moreover have "num_tokens c' = length ids"
    using paged.length_law [OF ps(2)] hist_of_seq_facts(1,3) [OF doc(2), of r ids] by (simp add: paged_len_def)
  ultimately show ?thesis
    using ps same_tables_ensure [OF tb] by (fastforce simp: paged_ready_def paged_frame_def hist_of_def)
qed

end
