(* ===== verification/Engine_Correct.thy ===== *)
theory Engine_Correct
  imports Scheduler Prefix_Semantics
begin

text \<open>
  The continuous batching engine answers what the model says. \<open>host\<close> collects what stays fixed while an engine serves: the
  environment, the model and its rotary tables, the end-of-sequence token, the shape of the pool, the calls (id, prompt and parameters)
  that may be submitted, and whether prefix caching is known to be off. \<open>engine_ok\<close> is the invariant of the serving loop: the pool, the prefix cache and the block tables of the running
  sequences account for every reference (\<open>store_ok\<close>); every running sequence holds in its blocks exactly the keys and values
  the model computes for its prompt and output (\<open>seq_ok\<close>), wherever those blocks came from; and every answer given so far is
  right (\<open>answer_ok\<close>). Each operation of \<^verbatim>\<open>engine/scheduler.py\<close> keeps it, and \<^verbatim>\<open>step\<close> never raises.
\<close>

record host =
  h_env :: env
  h_model :: model_w
  h_rope :: rope
  h_eos :: nat
  h_bs :: nat
  h_blocks :: nat
  h_calls :: "(string \<times> nat list \<times> sampling_params) set"
  h_no_prefix :: bool

abbreviation h_prompts :: "host \<Rightarrow> nat list set" where
  "h_prompts H \<equiv> (fst \<circ> snd) ` h_calls H"

abbreviation h_vocab :: "host \<Rightarrow> nat" where
  "h_vocab H \<equiv> vocab_size (mcfg (h_model H))"

abbreviation h_hist :: "host \<Rightarrow> nat list \<Rightarrow> hist" where
  "h_hist H ids \<equiv> snd (hist_of_seq (h_model H) (h_rope H) ids)"

text \<open>What is assumed of the host: torch's documented attention and sampling, a language-model head with one logit per token,
  submitted prompts that are non-empty and in the vocabulary, and no collision between the hash chains of those prompts.\<close>

definition host_ok :: "host \<Rightarrow> bool" where
  "host_ok H \<longleftrightarrow>
     (\<exists>att. sdpa_doc (sdpa (h_model H)) att) \<and> mlayers (h_model H) \<noteq> [] \<and> rope_wf (h_rope H) \<and> sampler_doc (smp (h_env H)) \<and>
     0 < h_vocab H \<and> (\<forall>x. length (lm_head_w (h_model H) x) = h_vocab H) \<and>
     (\<forall>ids \<in> h_prompts H. ids \<noteq> [] \<and> (\<forall>t \<in> set ids. t < h_vocab H)) \<and>
     no_collision (hash2 (h_env H)) (h_bs H) (h_prompts H)"

text \<open>The reference answer to a request, and how long it may get: the engine always takes the first token.\<close>

definition reference :: "host \<Rightarrow> request \<Rightarrow> nat \<Rightarrow> nat list" where
  "reference H q n =
     greedy_ref (smp (h_env H)) (h_model H) (h_rope H) (\<lambda>t. t = h_eos H \<and> \<not> ignore_eos (params q)) n (prompt_token_ids q)"

definition token_limit :: "request \<Rightarrow> nat" where
  "token_limit q = max 1 (nat (max_tokens (params q)))"

definition params_ok :: "sampling_params \<Rightarrow> bool" where
  "params_ok ps \<longleftrightarrow>
     greedy ps \<or> (0 < temperature ps \<and> (\<forall>k. top_k ps = Some k \<longrightarrow> 0 \<le> k) \<and> (\<forall>p. top_p ps = Some p \<longrightarrow> 0 \<le> p))"

definition call_of :: "request \<Rightarrow> string \<times> nat list \<times> sampling_params" where
  "call_of q = (request_id q, prompt_token_ids q, params q)"

definition request_ok :: "host \<Rightarrow> request \<Rightarrow> bool" where
  "request_ok H q \<longleftrightarrow> call_of q \<in> h_calls H \<and> params_ok (params q)"

definition fresh_ok :: "host \<Rightarrow> request \<Rightarrow> bool" where
  "fresh_ok H q \<longleftrightarrow> request_ok H q \<and> output_token_ids q = []"

definition output_ok :: "host \<Rightarrow> request \<Rightarrow> bool" where
  "output_ok H q \<longleftrightarrow>
     (\<forall>t \<in> set (output_token_ids q). t < h_vocab H) \<and> (greedy (params q) \<longrightarrow> output_token_ids q = reference H q (output_len q))"

text \<open>An answer and its prompt fit the pool, but for the last token, which is never stored.\<close>

definition fits :: "host \<Rightarrow> request \<Rightarrow> bool" where
  "fits H q \<longleftrightarrow> prompt_len q + output_len q \<le> h_blocks H * h_bs H + 1"

definition in_room :: "host \<Rightarrow> request \<Rightarrow> bool" where
  "in_room H q \<longleftrightarrow> output_token_ids q = [] \<or> fits H q"

definition answer_ok :: "host \<Rightarrow> request \<Rightarrow> bool" where
  "answer_ok H q \<longleftrightarrow>
     request_ok H q \<and> output_ok H q \<and> output_len q \<le> token_limit q \<and> finished_as q \<noteq> None \<and> in_room H q \<and>
     (finished_as q \<in> {Some EOS, Some finish_reason.LENGTH} \<longrightarrow> fits H q) \<and>
     (greedy (params q) \<and> finished_as q \<in> {Some EOS, Some finish_reason.LENGTH} \<longrightarrow> output_token_ids q = reference H q (token_limit q))"

text \<open>Ended by itself, and one token further.\<close>

definition ended :: "request \<Rightarrow> bool" where
  "ended q \<longleftrightarrow> finished_as q \<in> {Some EOS, Some finish_reason.LENGTH}"

definition advanced :: "seq \<Rightarrow> seq \<Rightarrow> bool" where
  "advanced s s' \<longleftrightarrow>
     prompt_token_ids (sq_request s') = prompt_token_ids (sq_request s) \<and> params (sq_request s') = params (sq_request s) \<and>
     output_len (sq_request s') = Suc (output_len (sq_request s))"

text \<open>A sequence whose cache is ahead by one token, and one in the state between two steps.\<close>

definition seq_ready :: "host \<Rightarrow> kv_row pool \<Rightarrow> seq \<Rightarrow> bool" where
  "seq_ready H p s \<longleftrightarrow>
     (let q = sq_request s in
      request_ok H q \<and> output_ok H q \<and> output_len q < token_limit q \<and> \<not> sq_finished s \<and>
      prompt_len q + output_len q \<le> h_blocks H * h_bs H \<and>
      hist_of p (sq_cache s) = h_hist H (prompt_token_ids q @ output_token_ids q))"

definition seq_ok :: "host \<Rightarrow> kv_row pool \<Rightarrow> seq \<Rightarrow> bool" where
  "seq_ok H p s \<longleftrightarrow>
     (let q = sq_request s in
      request_ok H q \<and> output_ok H q \<and> output_len q < token_limit q \<and> \<not> sq_finished s \<and>
      in_room H q \<and> output_token_ids q \<noteq> [] \<and> next_token s = last (output_token_ids q) \<and>
      hist_of p (sq_cache s) = h_hist H (prompt_token_ids q @ butlast (output_token_ids q)))"

definition store_ok :: "host \<Rightarrow> pcache list \<Rightarrow> engine \<Rightarrow> bool" where
  "store_ok H cs e \<longleftrightarrow>
     mdl e = h_model H \<and> eos_token_id e = h_eos H \<and> same_tables (h_model H) (h_rope H) (rotary e) \<and>
     block_size (e_pool e) = h_bs H \<and> num_blocks (alloc (e_pool e)) = h_blocks H \<and> num_hidden_layers (cfg (e_pool e)) = length (mlayers (h_model H)) \<and>
     (\<forall>c \<in> set cs. cache_wf (e_pool e) c) \<and> pc_wf (e_pool e) (e_prefix e) (tables cs) \<and>
     pc_sem (hash2 (h_env H)) (h_model H) (h_rope H) (h_prompts H) (e_pool e) (e_prefix e) \<and>
     (h_no_prefix H \<longrightarrow> \<not> pc_enabled (e_prefix e) \<and> pc_entries (e_prefix e) = [])"

definition logs_ok :: "host \<Rightarrow> engine \<Rightarrow> bool" where
  "logs_ok H e \<longleftrightarrow> (\<forall>q \<in> set (newly_finished e). answer_ok H q)"

definition engine_ok :: "host \<Rightarrow> engine \<Rightarrow> bool" where
  "engine_ok H e \<longleftrightarrow>
     store_ok H (map sq_cache (running e)) e \<and> (\<forall>s \<in> set (running e). seq_ok H (e_pool e) s) \<and>
     (\<forall>q \<in> set (waiting e). fresh_ok H q) \<and> logs_ok H e"

section \<open>Frames\<close>

lemma seq_alloc [simp]:
  "seq_ready H (p\<lparr>alloc := a\<rparr>) = seq_ready H p" "seq_ok H (p\<lparr>alloc := a\<rparr>) = seq_ok H p"
  by (simp_all add: seq_ready_def [abs_def] seq_ok_def [abs_def] Let_def)

lemma store_ok_other [simp]:
  "store_ok H cs (e\<lparr>waiting := w\<rparr>) = store_ok H cs e" "store_ok H cs (e\<lparr>running := s\<rparr>) = store_ok H cs e"
  "store_ok H cs (e\<lparr>e_finished := f\<rparr>) = store_ok H cs e" "store_ok H cs (e\<lparr>num_finished := n\<rparr>) = store_ok H cs e"
  "store_ok H cs (e\<lparr>newly_finished := f\<rparr>) = store_ok H cs e" "store_ok H cs (e\<lparr>cancel_requested := c\<rparr>) = store_ok H cs e"
  "store_ok H cs (e\<lparr>emitted := m\<rparr>) = store_ok H cs e" "store_ok H cs (e\<lparr>preemptions := n\<rparr>) = store_ok H cs e"
  "store_ok H cs (e\<lparr>e_clock := n\<rparr>) = store_ok H cs e" "store_ok H cs (e\<lparr>e_draws := n\<rparr>) = store_ok H cs e"
  "store_ok H cs (e\<lparr>admission_ctl := a\<rparr>) = store_ok H cs e"
  by (simp_all add: store_ok_def)

lemma logs_ok_other [simp]:
  "logs_ok H (e\<lparr>waiting := w\<rparr>) = logs_ok H e" "logs_ok H (e\<lparr>running := s\<rparr>) = logs_ok H e"
  "logs_ok H (e\<lparr>e_pool := p\<rparr>) = logs_ok H e" "logs_ok H (e\<lparr>e_prefix := pc\<rparr>) = logs_ok H e" "logs_ok H (e\<lparr>rotary := r\<rparr>) = logs_ok H e"
  "logs_ok H (e\<lparr>cancel_requested := c\<rparr>) = logs_ok H e" "logs_ok H (e\<lparr>emitted := m\<rparr>) = logs_ok H e"
  "logs_ok H (e\<lparr>preemptions := n\<rparr>) = logs_ok H e" "logs_ok H (e\<lparr>e_clock := n\<rparr>) = logs_ok H e"
  "logs_ok H (e\<lparr>e_draws := n\<rparr>) = logs_ok H e" "logs_ok H (e\<lparr>admission_ctl := a\<rparr>) = logs_ok H e"
  by (simp_all add: logs_ok_def)

lemma record_finished_ok [simp]:
  "store_ok H cs (record_finished q e) = store_ok H cs e" "logs_ok H (record_finished q e) \<longleftrightarrow> answer_ok H q \<and> logs_ok H e"
  "e_pool (record_finished q e) = e_pool e" "waiting (record_finished q e) = waiting e" "running (record_finished q e) = running e"
  "e_prefix (record_finished q e) = e_prefix e"
  by (auto simp: record_finished_def logs_ok_def)

lemma tables_mset: "mset cs = mset ds \<Longrightarrow> tables cs = tables ds"
  by (simp add: tables_def mset_concat) (metis image_mset.compositionality mset_map sum_mset_sum_list)

lemma store_ok_perm: "mset cs = mset ds \<Longrightarrow> store_ok H cs e = store_ok H ds e"
  using tables_mset [of cs ds] mset_eq_setD [of cs ds] by (simp add: store_ok_def)

lemma finish_same [simp]:
  "request_ok H (finish x t q) = request_ok H q" "output_ok H (finish x t q) = output_ok H q" "token_limit (finish x t q) = token_limit q" "reference H (finish x t q) = reference H q"
  "output_len (finish x t q) = output_len q" "output_token_ids (finish x t q) = output_token_ids q" "fits H (finish x t q) = fits H q" "in_room H (finish x t q) = in_room H q"
  by (simp_all add: fits_def in_room_def prompt_len_def request_ok_def call_of_def output_ok_def finish_def token_limit_def reference_def [abs_def] output_len_def)

lemma answer_ok_closed:
  "request_ok H q \<Longrightarrow> output_ok H q \<Longrightarrow> output_len q \<le> token_limit q \<Longrightarrow> in_room H q \<Longrightarrow> x \<notin> {EOS, finish_reason.LENGTH} \<Longrightarrow> answer_ok H (finish x t q)"
  by (simp add: answer_ok_def)

lemma request_prompt: "request_ok H q \<Longrightarrow> prompt_token_ids q \<in> h_prompts H"
  by (force simp: request_ok_def call_of_def)

lemma prompt_ok: "host_ok H \<Longrightarrow> request_ok H q \<Longrightarrow> prompt_token_ids q \<noteq> [] \<and> (\<forall>t \<in> set (prompt_token_ids q). t < h_vocab H)"
  using request_prompt [of H q] unfolding host_ok_def by blast

lemma fresh_output_ok: "fresh_ok H q \<Longrightarrow> output_ok H q \<and> output_len q < token_limit q \<and> request_ok H q \<and> in_room H q"
  by (simp add: in_room_def fresh_ok_def output_ok_def reference_def output_len_def token_limit_def)

section \<open>Freeing, retiring, taking a token\<close>

lemma free_seq_ok:
  assumes "store_ok H (c # cs) e"
  shows "\<exists>a. free_seq c e = (Ret (), e\<lparr>e_pool := (e_pool e)\<lparr>alloc := a\<rparr>\<rparr>) \<and> store_ok H cs (e\<lparr>e_pool := (e_pool e)\<lparr>alloc := a\<rparr>\<rparr>)"
proof -
  let ?p = "e_pool e" and ?pc = "e_prefix e"
  have "pool_wf ?p (mset (block_table c) + (mset (cached_blocks ?pc) + tables cs))"
    using assms by (simp add: store_ok_def pc_wf_def ac_simps)
  from free_cache_ok [OF this] obtain a where a: "free_cache (?p, c) = (Ret (), (?p\<lparr>alloc := a\<rparr>, c\<lparr>block_table := [], num_tokens := 0, slots := []\<rparr>))"
    "pool_wf (?p\<lparr>alloc := a\<rparr>) (mset (cached_blocks ?pc) + tables cs)" "num_blocks a = num_blocks (alloc ?p)" by blast
  have "cache_wf (?p\<lparr>alloc := a\<rparr>) d = cache_wf ?p d" for d by (simp add: cache_wf_def table_wf_def)
  then show ?thesis
    using a assms by (intro exI [of _ a]) (auto simp: free_seq_def store_ok_def pc_wf_def)
qed

lemma retire_ok:
  assumes "store_ok H (sq_cache s # cs) e" and "logs_ok H e" and "\<And>t. answer_ok H (finish (case sq_reason s of None \<Rightarrow> finish_reason.LENGTH | Some q \<Rightarrow> q) t (sq_request s))"
  shows "\<exists>q e' a. retire E s e = (Ret q, e') \<and> store_ok H cs e' \<and> logs_ok H e' \<and> e_pool e' = (e_pool e)\<lparr>alloc := a\<rparr> \<and>
    finished_as q = Some (case sq_reason s of None \<Rightarrow> finish_reason.LENGTH | Some q \<Rightarrow> q)"
proof -
  obtain a where a: "free_seq (sq_cache s) e = (Ret (), e\<lparr>e_pool := (e_pool e)\<lparr>alloc := a\<rparr>\<rparr>)" "store_ok H cs (e\<lparr>e_pool := (e_pool e)\<lparr>alloc := a\<rparr>\<rparr>)"
    using free_seq_ok [OF assms(1)] by blast
  then show ?thesis using assms(2,3) by (auto simp: retire_def finish_now_unfold)
qed

lemma reference_next:
  assumes "output_ok H q" and "greedy (params q)" and "output_len q < token_limit q"
    and t: "t = argmax (smp (h_env H)) (uncached (h_model H) (h_rope H) (prompt_token_ids q @ output_token_ids q))"
  shows "t = h_eos H \<and> \<not> ignore_eos (params q) \<Longrightarrow> reference H q (token_limit q) = output_token_ids q"
    and "\<not> (t = h_eos H \<and> \<not> ignore_eos (params q)) \<Longrightarrow> reference H q (Suc (output_len q)) = output_token_ids q @ [t]"
proof -
  have o: "output_token_ids q = reference H q (output_len q)" using assms(1,2) by (simp add: output_ok_def)
  then have n: "length (reference H q (output_len q)) = output_len q" by (metis output_len_def)
  note sn = greedy_ref_snoc [OF n [unfolded reference_def], folded reference_def, folded o, folded t]
  show "reference H q (Suc (output_len q)) = output_token_ids q @ [t]" if "\<not> (t = h_eos H \<and> \<not> ignore_eos (params q))"
    using sn that by (auto simp: Let_def)
  assume "t = h_eos H \<and> \<not> ignore_eos (params q)"
  then have s: "reference H q (Suc (output_len q)) = output_token_ids q" using sn by (simp add: Let_def)
  then have "length (reference H q (Suc (output_len q))) < Suc (output_len q)" by (simp add: output_len_def)
  from greedy_ref_stopped [OF this [unfolded reference_def], of "token_limit q", folded reference_def] s assms(3)
  show "reference H q (token_limit q) = output_token_ids q" by simp
qed

lemma reference_cong: "prompt_token_ids q' = prompt_token_ids q \<Longrightarrow> params q' = params q \<Longrightarrow> reference H q' = reference H q"
  by (simp add: reference_def [abs_def])

text \<open>The two ways a token can end a sequence, and the way it continues.\<close>

definition token_ok :: "host \<Rightarrow> seq \<Rightarrow> nat \<Rightarrow> bool" where
  "token_ok H s tok \<longleftrightarrow> tok < h_vocab H \<and>
     (greedy (params (sq_request s)) \<longrightarrow>
        tok = argmax (smp (h_env H)) (uncached (h_model H) (h_rope H) (prompt_token_ids (sq_request s) @ output_token_ids (sq_request s))))"

lemma recorded_ok:
  assumes "seq_ready H p s" and "token_ok H s tok" and "\<not> (tok = h_eos H \<and> \<not> ignore_eos (params (sq_request s)))"
  shows "request_ok H (record_token tok now (sq_request s))" "output_ok H (record_token tok now (sq_request s))"
    "output_len (record_token tok now (sq_request s)) \<le> token_limit (record_token tok now (sq_request s))" "fits H (record_token tok now (sq_request s))"
proof -
  let ?q = "sq_request s" and ?q' = "record_token tok now (sq_request s)"
  have s: "request_ok H ?q" "output_ok H ?q" "output_len ?q < token_limit ?q" using assms(1) by (simp_all add: seq_ready_def Let_def)
  show "request_ok H ?q'" "output_len ?q' \<le> token_limit ?q'" using s by (simp_all add: request_ok_def call_of_def token_limit_def)
  show "fits H ?q'" using assms(1) by (simp add: fits_def seq_ready_def Let_def prompt_len_def)
  have "output_token_ids ?q' = reference H ?q' (output_len ?q')" if "greedy (params ?q)"
    using reference_next(2) [OF s(2) that s(3), of tok] assms(2,3) that reference_cong [of ?q' ?q H] by (simp add: token_ok_def)
  then show "output_ok H ?q'" using s(2) assms(2) by (auto simp: output_ok_def token_ok_def)
qed

lemma take_token_ok:
  assumes rd: "seq_ready H (e_pool e) s" and tk: "token_ok H s tok" and st: "store_ok H (sq_cache s # cs) e" and lg: "logs_ok H e"
  shows "\<exists>r e' a. take_token E s tok e = (Ret r, e') \<and> logs_ok H e' \<and> e_pool e' = (e_pool e)\<lparr>alloc := a\<rparr> \<and>
    (case r of Inl q \<Rightarrow> store_ok H cs e' \<and> ended q
     | Inr s' \<Rightarrow> store_ok H (sq_cache s # cs) e' \<and> seq_ok H (e_pool e') s' \<and> sq_cache s' = sq_cache s \<and> advanced s s')"
proof -
  let ?q = "sq_request s" and ?s = "s\<lparr>next_token := tok\<rparr>" and ?now = "clk E (e_clock e)" and ?e = "e\<lparr>e_clock := Suc (e_clock e)\<rparr>"
  let ?q' = "record_token tok ?now ?q" and ?e' = "?e\<lparr>emitted := emitted e @ [(request_id (sq_request s), tok)]\<rparr>"
  have eos: "eos_token_id e = h_eos H" using st by (simp add: store_ok_def)
  have s: "request_ok H ?q" "output_ok H ?q" "output_len ?q < token_limit ?q" "\<not> sq_finished s"
    "hist_of (e_pool e) (sq_cache s) = h_hist H (prompt_token_ids ?q @ output_token_ids ?q)" "fits H ?q"
    using rd by (simp_all add: seq_ready_def Let_def fits_def)
  consider (eos) "tok = h_eos H" "\<not> ignore_eos (params ?q)"
    | (full) "\<not> (tok = h_eos H \<and> \<not> ignore_eos (params ?q))" "max_tokens (params ?q) \<le> int (Suc (output_len ?q))"
    | (go) "\<not> (tok = h_eos H \<and> \<not> ignore_eos (params ?q))" "\<not> max_tokens (params ?q) \<le> int (Suc (output_len ?q))"
    by blast
  then show ?thesis
  proof cases
    case eos
    let ?f = "?s\<lparr>sq_finished := True, sq_reason := Some EOS\<rparr>"
    have "output_token_ids ?q = reference H ?q (token_limit ?q)" if "greedy (params ?q)"
      using reference_next(1) [OF s(2) that s(3), of tok] tk that eos by (simp add: token_ok_def)
    then have "answer_ok H (finish EOS t ?q)" for t
      using s(1-3,6) by (simp add: answer_ok_def in_room_def)
    then obtain q e' a where "retire E ?f e = (Ret q, e')" "store_ok H cs e'" "logs_ok H e'" "e_pool e' = (e_pool e)\<lparr>alloc := a\<rparr>" "ended q"
      using retire_ok [of H ?f cs e E] st lg by (auto simp: ended_def)
    then show ?thesis using eos \<open>eos_token_id e = h_eos H\<close> by (auto simp: take_token_def accept_token_def)
  next
    case full
    let ?f = "?s\<lparr>sq_request := ?q', sq_finished := True, sq_reason := Some finish_reason.LENGTH\<rparr>"
    note ro = recorded_ok [OF rd tk full(1), of ?now]
    have "token_limit ?q' = output_len ?q'" using full(2) s(3) by (simp add: token_limit_def)
    then have "answer_ok H (finish finish_reason.LENGTH t ?q')" for t
      using ro unfolding answer_ok_def output_ok_def in_room_def by simp
    then obtain q e' a where "retire E ?f ?e' = (Ret q, e')" "store_ok H cs e'" "logs_ok H e'" "e_pool e' = (e_pool e)\<lparr>alloc := a\<rparr>" "ended q"
      using retire_ok [of H ?f cs ?e' E] st lg by (auto simp: ended_def)
    then show ?thesis using full eos by (auto simp: take_token_def accept_token_def perf_counter_unfold Let_def)
  next
    case go
    let ?f = "?s\<lparr>sq_request := ?q'\<rparr>"
    note ro = recorded_ok [OF rd tk go(1), of ?now]
    have "output_len ?q' < token_limit ?q'" using go(2) by (simp add: token_limit_def)
    then have "seq_ok H (e_pool e) ?f" using ro s by (simp add: seq_ok_def Let_def in_room_def)
    moreover have "take_token E s tok e = (Ret (Inr ?f), ?e')"
      using go eos s(4) by (auto simp: take_token_def accept_token_def perf_counter_unfold Let_def)
    moreover have "advanced s ?f" by (simp add: advanced_def)
    ultimately show ?thesis using st lg by (intro exI [of _ "Inr ?f"] exI [of _ ?e'] exI [of _ "alloc (e_pool e)"]) simp
  qed
qed

lemma take_tokens_ok:
  assumes "\<forall>(s, tok) \<in> set bts. seq_ready H (e_pool e) s \<and> token_ok H s tok" and "\<forall>s \<in> set st. seq_ok H (e_pool e) s"
    and "store_ok H (map sq_cache (st @ map fst bts)) e" and "logs_ok H e"
  shows "\<exists>d st' e'. take_tokens E bts dn st e = (Ret (dn @ d, st'), e') \<and> (\<forall>s \<in> set st'. seq_ok H (e_pool e') s) \<and>
    store_ok H (map sq_cache st') e' \<and> logs_ok H e' \<and> (\<forall>q \<in> set d. ended q) \<and>
    (d = [] \<longrightarrow> (\<exists>ss. st' = st @ ss \<and> list_all2 advanced (map fst bts) ss))"
  using assms
proof (induction bts arbitrary: dn st e)
  case (Cons b bts)
  obtain s tok where b: "b = (s, tok)" by (cases b)
  let ?cs = "map sq_cache st @ map (sq_cache \<circ> fst) bts"
  have "store_ok H (sq_cache s # ?cs) e"
    using Cons.prems(3) store_ok_perm [of "sq_cache s # ?cs" "map sq_cache (st @ map fst (b # bts))"] b by (simp add: comp_def)
  from take_token_ok [OF _ _ this Cons.prems(4), of tok E] Cons.prems(1) b obtain r e1 a where
    t: "take_token E s tok e = (Ret r, e1)" "logs_ok H e1" "e_pool e1 = (e_pool e)\<lparr>alloc := a\<rparr>"
      "case r of Inl q \<Rightarrow> store_ok H ?cs e1 \<and> ended q
       | Inr s' \<Rightarrow> store_ok H (sq_cache s # ?cs) e1 \<and> seq_ok H (e_pool e1) s' \<and> sq_cache s' = sq_cache s \<and> advanced s s'"
    by auto
  show ?case
  proof (cases r)
    case (Inl q)
    then obtain d st' e' where i: "take_tokens E bts (dn @ [q]) st e1 = (Ret ((dn @ [q]) @ d, st'), e')" "\<forall>s \<in> set st'. seq_ok H (e_pool e') s"
      "store_ok H (map sq_cache st') e'" "logs_ok H e'" "\<forall>q \<in> set d. ended q"
      using t Cons.IH [of e1 st "dn @ [q]"] Cons.prems(1,2) by (auto simp: comp_def)
    then show ?thesis using t(1,4) Inl b by (intro exI [of _ "q # d"] exI [of _ st'] exI [of _ e']) simp
  next
    case (Inr s')
    then have "store_ok H (map sq_cache ((st @ [s']) @ map fst bts)) e1"
      using t(4) store_ok_perm [of "sq_cache s # ?cs" "map sq_cache ((st @ [s']) @ map fst bts)" H e1] by (simp add: comp_def)
    then obtain d st' e' where i: "take_tokens E bts dn (st @ [s']) e1 = (Ret (dn @ d, st'), e')" "\<forall>s \<in> set st'. seq_ok H (e_pool e') s"
      "store_ok H (map sq_cache st') e'" "logs_ok H e'" "\<forall>q \<in> set d. ended q"
      "d = [] \<longrightarrow> (\<exists>ss. st' = (st @ [s']) @ ss \<and> list_all2 advanced (map fst bts) ss)"
      using t Inr Cons.IH [of e1 "st @ [s']" dn] Cons.prems(1,2) by auto
    then show ?thesis using t(1,4) Inr b by (intro exI [of _ d] exI [of _ st'] exI [of _ e']) auto
  qed
qed auto

section \<open>Sampling\<close>

lemma sample_ok:
  assumes "host_ok H" and "params_ok ps" and "length row = h_vocab H"
  shows "\<exists>t. sample (smp (h_env H)) d ps row = Ret t \<and> t < h_vocab H \<and> (greedy ps \<longrightarrow> t = argmax (smp (h_env H)) row)"
proof -
  let ?S = "smp (h_env H)"
  have S: "sampler_doc ?S" "row \<noteq> []" using assms by (auto simp: host_ok_def)
  have am: "argmax ?S row < h_vocab H" using S assms(3) by (auto simp: sampler_doc_def)
  show ?thesis
  proof (cases "greedy ps")
    case True
    then show ?thesis using am by (simp add: sample_def)
  next
    case False
    then obtain scaled where "filter_logits ?S (temperature ps) (top_k ps) (top_p ps) row = Ret scaled"
      "multinomial ?S d (softmax scaled) < length row"
      using filter_candidates [OF S, of "temperature ps" "top_k ps" "top_p ps" d] assms(2) by (auto simp: params_ok_def Let_def)
    then show ?thesis using False assms(3) by (simp add: sample_def sample_with_params_def)
  qed
qed

lemma length_uncached:
  assumes "host_ok H" and "ids \<noteq> []" and "\<forall>t \<in> set ids. t < h_vocab H"
  shows "length (uncached (h_model H) (h_rope H) ids) = h_vocab H"
proof -
  have H: "rope_wf (h_rope H)" "mlayers (h_model H) \<noteq> []" "\<And>x. length (lm_head_w (h_model H) x) = h_vocab H"
    using assms(1) by (auto simp: host_ok_def)
  have "length (fst (hist_of_seq (h_model H) (h_rope H) ids)) = length ids" using hist_of_seq_facts(4) [OF H(2)] .
  then have "fst (hist_of_seq (h_model H) (h_rope H) ids) \<noteq> []" using assms(2) by auto
  then show ?thesis using uncached_row [OF H(1) assms(3)] H(3) by (simp add: last_map lm_out_def)
qed

lemma ids_in_vocab:
  assumes "host_ok H" and "request_ok H q" and "output_ok H q"
  shows "\<forall>t \<in> set (prompt_token_ids q @ output_token_ids q). t < h_vocab H" "prompt_token_ids q @ output_token_ids q \<noteq> []"
  using prompt_ok [OF assms(1,2)] assms(3) by (auto simp: output_ok_def)

text \<open>One row of logits per sequence, each the row an uncached pass over the whole sequence ends with.\<close>

definition rows_ok :: "host \<Rightarrow> vec list \<Rightarrow> seq list \<Rightarrow> bool" where
  "rows_ok H rows ss \<longleftrightarrow>
     list_all2 (\<lambda>row s. row = uncached (h_model H) (h_rope H) (prompt_token_ids (sq_request s) @ output_token_ids (sq_request s))) rows ss"

lemma token_ok_sample:
  assumes "host_ok H" and "seq_ready H p s"
    and "row = uncached (h_model H) (h_rope H) (prompt_token_ids (sq_request s) @ output_token_ids (sq_request s))"
  shows "\<exists>t. sample (smp (h_env H)) d (params (sq_request s)) row = Ret t \<and> token_ok H s t"
proof -
  have s: "request_ok H (sq_request s)" "output_ok H (sq_request s)" using assms(2) by (simp_all add: seq_ready_def Let_def)
  have "length row = h_vocab H" using length_uncached [OF assms(1)] ids_in_vocab [OF assms(1) s] assms(3) by simp
  then show ?thesis using sample_ok [OF assms(1), of "params (sq_request s)" row d] s(1) assms(3) by (auto simp: request_ok_def token_ok_def)
qed

lemma sample_each_ok:
  assumes "host_ok H" and "rows_ok H rows ss" and "\<forall>s \<in> set ss. seq_ready H p s"
  shows "\<exists>ids n. sample_each (h_env H) (zip rows ss) e = (Ret ids, e\<lparr>e_draws := n\<rparr>) \<and> list_all2 (token_ok H) ss ids"
  using assms(2,3) unfolding rows_ok_def
proof (induction rows ss arbitrary: e rule: list_all2_induct)
  case Nil
  then show ?case by (intro exI [of _ "[]"] exI [of _ "e_draws e"]) simp
next
  case (Cons row rows s ss)
  obtain t where t: "sample (smp (h_env H)) (e_draws e) (params (sq_request s)) row = Ret t" "token_ok H s t"
    using token_ok_sample [OF assms(1), of p s row "e_draws e"] Cons.hyps(1) Cons.prems by auto
  obtain n where "sample_one (h_env H) row (sq_request s) e = (Ret t, e\<lparr>e_draws := n\<rparr>)"
    using sample_one_frame t(1) by metis
  then show ?case using Cons.IH [of "e\<lparr>e_draws := n\<rparr>"] Cons.prems t(2) by fastforce
qed

lemma sample_batch_ok:
  assumes "host_ok H" and "rows_ok H rows ss" and "\<forall>s \<in> set ss. seq_ready H p s"
  shows "\<exists>ids n. sample_batch (h_env H) rows ss e = (Ret ids, e\<lparr>e_draws := n\<rparr>) \<and> list_all2 (token_ok H) ss ids"
proof (cases "\<forall>s \<in> set ss. greedy (params (sq_request s))")
  case False
  then have "sample_batch (h_env H) rows ss e = sample_each (h_env H) (zip rows ss) e" by (auto simp: sample_batch_def)
  then show ?thesis using sample_each_ok [OF assms, of e] by simp
next
  case True
  have "list_all2 (token_ok H) ss (map (argmax (smp (h_env H))) rows)"
    using assms(2,3) True unfolding rows_ok_def
  proof (induction rows ss rule: list_all2_induct)
    case (Cons row rows s ss)
    then obtain t where "sample (smp (h_env H)) 0 (params (sq_request s)) row = Ret t" "token_ok H s t"
      using token_ok_sample [OF assms(1), of p s row 0] by auto
    then show ?case using Cons by (simp add: sample_def)
  qed simp
  then show ?thesis using True by (intro exI [of _ "map (argmax (smp (h_env H))) rows"] exI [of _ "e_draws e"]) (simp add: sample_batch_def)
qed

section \<open>The decode step\<close>

lemma host_doc:
  assumes "host_ok H"
  obtains att where "sdpa_doc (sdpa (h_model H)) att" "mlayers (h_model H) \<noteq> []" "rope_wf (h_rope H)"
  using assms by (auto simp: host_ok_def)

lemma decode_forward_full:
  assumes "batch_need p cs = Ret n" and "num_free (alloc p) < n"
  shows "decode_forward M toks (r, (p, cs, None)) = (Raise OutOfBlocks, (rope_ensure_capacity (Max (set (map num_tokens cs)) + 1) r, (p, cs, None)))"
  using assms by (simp add: decode_forward_def cache_mask_def prepare_def Let_def)

lemma hist_tokens:
  assumes H: "host_ok H" and c: "cache_wf p c" "pool_wf p N" and L: "num_hidden_layers (cfg p) = length (mlayers (h_model H))"
    and h: "hist_of p c = h_hist H ids"
  shows "num_tokens c = length ids"
proof -
  have ne: "mlayers (h_model H) \<noteq> []" using H by (simp add: host_ok_def)
  have "hist_len (hist_of p c) = num_tokens c" using cache_wf_rows [OF c(2,1)] L ne by (simp add: hist_of_def hist_len_def)
  then show ?thesis using hist_of_seq_facts(3) [OF ne] h by simp
qed

lemma seq_tokens:
  assumes H: "host_ok H" and s: "seq_ok H p s" and c: "cache_wf p (sq_cache s)" "pool_wf p N"
    and L: "num_hidden_layers (cfg p) = length (mlayers (h_model H))"
  shows "num_tokens (sq_cache s) = length (prompt_token_ids (sq_request s) @ butlast (output_token_ids (sq_request s)))"
  by (rule hist_tokens [OF H c L]) (use s in \<open>simp add: seq_ok_def Let_def\<close>)

lemma hist_room:
  assumes H: "host_ok H" and st: "store_ok H cs e" and c: "c \<in> set cs" and h: "hist_of (e_pool e) c = h_hist H ids"
  shows "length ids \<le> h_blocks H * h_bs H"
proof -
  have w: "cache_wf (e_pool e) c" "pool_wf (e_pool e) (mset (cached_blocks (e_prefix e)) + tables cs)"
    "num_hidden_layers (cfg (e_pool e)) = length (mlayers (h_model H))" "block_size (e_pool e) = h_bs H" "num_blocks (alloc (e_pool e)) = h_blocks H"
    using st c by (simp_all add: store_ok_def pc_wf_def)
  have "set (block_table c) \<subseteq> {..<h_blocks H}"
    using pool_wf_bounded [OF w(2)] w(5) c by (auto simp: tables_def)
  moreover have "distinct (block_table c)" using w(1) by (simp add: cache_wf_def table_wf_def)
  ultimately have "length (block_table c) \<le> h_blocks H" by (metis card_lessThan card_mono distinct_card finite_lessThan)
  then have "ceil_div (num_tokens c) (h_bs H) \<le> h_blocks H" using w(1,4) by (simp add: cache_wf_def)
  then have "num_tokens c \<le> h_blocks H * h_bs H" using ceil_div_le_iff pool_wf_bs [OF w(2)] w(4) by simp
  then show ?thesis using hist_tokens [OF H w(1,2,3) h] by simp
qed

lemma seq_advance:
  assumes H: "host_ok H" and s: "seq_ok H p s" and c: "cache_wf p (sq_cache s)" "pool_wf p N" and r: "same_tables (h_model H) (h_rope H) r"
    and L: "num_hidden_layers (cfg p) = length (mlayers (h_model H))"
  defines "pass \<equiv> hist_pass (h_model H) r (num_tokens (sq_cache s)) [next_token s] (hist_of p (sq_cache s))"
    and "ids \<equiv> prompt_token_ids (sq_request s) @ output_token_ids (sq_request s)"
  shows "last (map (lm_out (h_model H)) (fst pass)) = uncached (h_model H) (h_rope H) ids" "snd pass = h_hist H ids" "next_token s < h_vocab H"
proof -
  obtain att where doc: "sdpa_doc (sdpa (h_model H)) att" "mlayers (h_model H) \<noteq> []" and rw: "rope_wf (h_rope H)" using host_doc [OF H] .
  let ?q = "sq_request s" and ?M = "h_model H" and ?r = "h_rope H"
  let ?b = "prompt_token_ids ?q @ butlast (output_token_ids ?q)"
  have sq: "request_ok H ?q" "output_ok H ?q" "output_token_ids ?q \<noteq> []" "next_token s = last (output_token_ids ?q)"
    "hist_of p (sq_cache s) = h_hist H ?b" using s by (simp_all add: seq_ok_def Let_def)
  have ids: "ids = ?b @ [next_token s]" using sq(3,4) by (simp add: ids_def)
  have iv: "\<forall>t \<in> set ids. t < h_vocab H" using ids_in_vocab [OF H sq(1,2)] by (simp add: ids_def)
  then show "next_token s < h_vocab H" using ids by simp
  have nt: "num_tokens (sq_cache s) = length ?b" using seq_tokens [OF H s c L] .
  have ps: "pass = hist_pass ?M ?r (length ?b) [next_token s] (h_hist H ?b)"
    using r nt sq(5) by (simp add: pass_def same_tables_def)
  have hs: "hist_of_seq ?M ?r ids = (fst (hist_of_seq ?M ?r ?b) @ fst pass, snd pass)"
    using hist_of_seq_snoc [OF doc, of ?r ?b "[next_token s]"] ids ps by simp
  then show "snd pass = h_hist H ids" by simp
  have "length (fst pass) = 1"
    using arg_cong [OF hs, of "\<lambda>x. length (fst x)"] hist_of_seq_facts(4) [OF doc(2)] ids by simp
  then have "fst pass \<noteq> []" by auto
  then show "last (map (lm_out ?M) (fst pass)) = uncached ?M ?r ids" using uncached_row [OF rw iv] hs by simp
qed

lemma set_caches_same: "set_caches (map sq_cache (running e)) e = e"
proof -
  have "map2 (\<lambda>s c. s\<lparr>sq_cache := c\<rparr>) ss (map sq_cache ss) = ss" for ss :: "seq list" by (induction ss) auto
  then show ?thesis by (simp add: set_caches_def)
qed

lemma preempt_ok:
  assumes "engine_ok H e" and "running e \<noteq> []"
  shows "\<exists>e'. preempt_newest e = (Ret (), e') \<and> engine_ok H e'"
proof -
  let ?v = "last (running e)" and ?e = "e\<lparr>running := butlast (running e)\<rparr>" and ?cs = "map sq_cache (butlast (running e))"
  have rs: "running e = butlast (running e) @ [?v]" using assms(2) by simp
  have v: "?v \<in> set (running e)" using assms(2) by simp
  have "mset (map sq_cache (running e)) = mset (sq_cache ?v # ?cs)" by (subst rs) simp
  then have "store_ok H (sq_cache ?v # ?cs) ?e"
    using assms(1) store_ok_perm [of "map sq_cache (running e)" "sq_cache ?v # ?cs"] by (simp add: engine_ok_def)
  from free_seq_ok [OF this] obtain a where a: "free_seq (sq_cache ?v) ?e = (Ret (), ?e\<lparr>e_pool := (e_pool ?e)\<lparr>alloc := a\<rparr>\<rparr>)"
    "store_ok H ?cs (?e\<lparr>e_pool := (e_pool ?e)\<lparr>alloc := a\<rparr>\<rparr>)" by blast
  have "fresh_ok H (reset_request (sq_request ?v))"
    using assms(1) v by (auto simp: engine_ok_def seq_ok_def Let_def fresh_ok_def reset_request_def request_ok_def call_of_def)
  then show ?thesis
    using a assms in_set_butlastD by (fastforce simp: preempt_newest_def Let_def engine_ok_def store_ok_def)
qed

lemma store_batch: "store_ok H cs e \<Longrightarrow> batch_ok (e_pool e) cs (mset (cached_blocks (e_prefix e)))"
  by (simp add: store_ok_def batch_ok_def pc_wf_def add.commute)

lemma store_ok_decoded:
  assumes st: "store_ok H cs e" and ok: "batch_ok p' cs' (mset (cached_blocks (e_prefix e)))"
    and f: "same_blocks (\<lambda>b. b \<in># mset (cached_blocks (e_prefix e))) (e_pool e) p'" "pool_frame (e_pool e) p'"
    and r: "rope_wf r'" "cos_row r' = cos_row (rotary e)" "sin_row r' = sin_row (rotary e)"
  shows "store_ok H cs' (e\<lparr>rotary := r', e_pool := p'\<rparr>)"
proof -
  let ?pc = "e_prefix e"
  have wf: "pc_wf (e_pool e) ?pc (tables cs)" and sem: "pc_sem (hash2 (h_env H)) (h_model H) (h_rope H) (h_prompts H) (e_pool e) ?pc"
    using st by (simp_all add: store_ok_def)
  have "pc_wf p' ?pc (tables cs')" using wf ok by (simp add: pc_wf_def batch_ok_def add.commute)
  moreover have "pc_sem (hash2 (h_env H)) (h_model H) (h_rope H) (h_prompts H) p' ?pc"
    by (rule pc_sem_frame [OF sem f _ wf]) simp
  moreover have "same_tables (h_model H) (h_rope H) r'" using st r by (simp add: store_ok_def same_tables_def hist_pass_def)
  ultimately show ?thesis using st ok f(2) by (simp add: store_ok_def batch_ok_def pool_frame_def)
qed

text \<open>A forward pass over the running sequences leaves each of them ready for its next token, with the right logits.\<close>

lemma decode_forward_ready:
  assumes H: "host_ok H" and ok: "engine_ok H e" and ne: "running e \<noteq> []"
    and need: "batch_need (e_pool e) (map sq_cache (running e)) = Ret n" "n \<le> num_free (alloc (e_pool e))"
  shows "\<exists>logits r' p' cs' b.
    decode_forward (mdl e) (map next_token (running e)) (rotary e, (e_pool e, map sq_cache (running e), None)) = (Ret logits, (r', (p', cs', b))) \<and>
    (let f = set_caches cs' (e\<lparr>rotary := r', e_pool := p'\<rparr>) in
     store_ok H (map sq_cache (running f)) f \<and> (\<forall>s \<in> set (running f). seq_ready H (e_pool f) s) \<and> rows_ok H (map last logits) (running f))"
proof -
  let ?M = "h_model H" and ?p = "e_pool e" and ?ss = "running e" and ?cs = "map sq_cache (running e)" and ?R = "mset (cached_blocks (e_prefix e))"
  obtain att where doc: "sdpa_doc (sdpa ?M) att" "mlayers ?M \<noteq> []" using host_doc [OF H] .
  have st: "store_ok H ?cs e" and sq: "\<forall>s \<in> set ?ss. seq_ok H ?p s" using ok by (simp_all add: engine_ok_def)
  have M: "mdl e = ?M" and tb: "same_tables ?M (h_rope H) (rotary e)" and L: "num_hidden_layers (cfg ?p) = length (mlayers ?M)"
    using st by (simp_all add: store_ok_def)
  have bo: "batch_ok ?p ?cs ?R" using store_batch [OF st] .
  let ?pass = "\<lambda>i. hist_pass ?M (rotary e) (num_tokens (?cs ! i)) [map next_token ?ss ! i] (hist_of ?p (?cs ! i))"
  let ?ids = "\<lambda>s. prompt_token_ids (sq_request s) @ output_token_ids (sq_request s)"
  have adv: "last (map (lm_out ?M) (fst (?pass i))) = uncached ?M (h_rope H) (?ids (?ss ! i))" "snd (?pass i) = h_hist H (?ids (?ss ! i))"
    "next_token (?ss ! i) < h_vocab H" if i: "i < length ?ss" for i
    using seq_advance [OF H, of ?p "?ss ! i" _ "rotary e"] i sq bo tb L by (auto simp: batch_ok_def)
  have tv: "\<forall>t \<in> set (map next_token ?ss). t < h_vocab H" using adv(3) by (auto simp: in_set_conv_nth)
  have "rope_wf (rotary e)" using tb by (simp add: same_tables_def)
  from decode_forward_ok [OF doc(1) this bo _ need _ tv] obtain r' p' cs' b where
    df: "decode_forward ?M (map next_token ?ss) (rotary e, (?p, ?cs, None)) = (Ret (map (\<lambda>i. map (lm_out ?M) (fst (?pass i))) [0..<length ?cs]), (r', (p', cs', Some b)))"
      "rope_wf r'" "cos_row r' = cos_row (rotary e)" "sin_row r' = sin_row (rotary e)" "batch_ok p' cs' ?R"
      "map (hist_of p') cs' = map (\<lambda>i. snd (?pass i)) [0..<length ?cs]" "map num_tokens cs' = map (Suc \<circ> num_tokens) ?cs"
      "same_blocks (\<lambda>b. b \<in># ?R) ?p p'" "pool_frame ?p p'"
    using ne L by auto
  have lc: "length cs' = length ?ss" using arg_cong [OF df(6), of length] by simp
  let ?f = "set_caches cs' (e\<lparr>rotary := r', e_pool := p'\<rparr>)"
  have rf: "running ?f = map2 (\<lambda>s c. s\<lparr>sq_cache := c\<rparr>) ?ss cs'" by (simp add: set_caches_def)
  have cf: "map sq_cache (running ?f) = cs'" using lc unfolding rf by (intro nth_equalityI) simp_all
  have sf: "store_ok H cs' ?f" using store_ok_decoded [OF st df(5,8,9,2-4)] by (simp add: set_caches_def)
  have hist: "hist_of p' (cs' ! i) = h_hist H (?ids (?ss ! i))" if "i < length ?ss" for i
    using arg_cong [OF df(6), of "\<lambda>hs. hs ! i"] that lc adv(2) by simp
  have "length (?ids (?ss ! i)) \<le> h_blocks H * h_bs H" if "i < length ?ss" for i
    using hist_room [OF H sf, of "cs' ! i" "?ids (?ss ! i)"] hist that lc by (simp add: set_caches_def)
  with hist have "\<forall>s \<in> set (running ?f). seq_ready H (e_pool ?f) s"
    using sq lc by (auto simp: rf set_zip seq_ready_def seq_ok_def Let_def set_caches_def prompt_len_def output_len_def)
  moreover have "rows_ok H (map last (map (\<lambda>i. map (lm_out ?M) (fst (?pass i))) [0..<length ?cs])) (running ?f)"
    using adv(1) lc by (auto simp: rows_ok_def list_all2_conv_all_nth rf)
  ultimately show ?thesis
    using sf df(1) M cf by (intro exI [of _ "map (\<lambda>i. map (lm_out ?M) (fst (?pass i))) [0..<length ?cs]"] exI [of _ r'] exI [of _ p'] exI [of _ cs']) (simp add: Let_def)
qed

lemma step_seconds_ok: "store_ok H cs (step_seconds E t n e) = store_ok H cs e" "logs_ok H (step_seconds E t n e) = logs_ok H e"
  "e_pool (step_seconds E t n e) = e_pool e"
  by (simp_all add: step_seconds_def perf_counter_unfold split: option.splits)

lemma preempt_running: "preempt_newest e = (Ret (), e') \<Longrightarrow> running e' = butlast (running e)"
  by (auto simp: preempt_newest_def Let_def bindS_eq_Ret free_seq_def split: if_splits prod.splits)

lemma decode_step_ok:
  assumes H: "host_ok H" and ok: "engine_ok H e" and ne: "running e \<noteq> []"
  shows "\<exists>d e'. decode_step (h_env H) dn e = (Ret (dn @ d), e') \<and> engine_ok H e' \<and> (\<forall>q \<in> set d. ended q) \<and>
    (if \<exists>n. batch_need (e_pool e) (map sq_cache (running e)) = Ret n \<and> n \<le> num_free (alloc (e_pool e))
     then d = [] \<longrightarrow> list_all2 advanced (running e) (running e') else d = [] \<and> running e' = butlast (running e))"
proof -
  let ?E = "h_env H" and ?e = "e\<lparr>e_clock := Suc (e_clock e)\<rparr>" and ?cs = "map sq_cache (running e)"
  have ok': "engine_ok H ?e" using ok by (simp add: engine_ok_def)
  have wf: "pool_wf (e_pool e) (tables ?cs + mset (cached_blocks (e_prefix e)))"
    using ok store_batch [of H ?cs e] by (simp add: engine_ok_def batch_ok_def)
  obtain n where n: "batch_need (e_pool e) ?cs = Ret n" using batch_need_sum [OF wf, of ?cs] by auto
  show ?thesis
  proof (cases "n \<le> num_free (alloc (e_pool e))")
    case False
    let ?r = "rope_ensure_capacity (Max (set (map num_tokens ?cs)) + 1) (rotary e)"
    have "store_ok H ?cs (?e\<lparr>rotary := ?r\<rparr>)" using ok' same_tables_ensure by (auto simp: engine_ok_def store_ok_def)
    then have "engine_ok H (?e\<lparr>rotary := ?r\<rparr>)" using ok by (simp add: engine_ok_def)
    from preempt_ok [OF this] ne obtain e' where pe: "preempt_newest (?e\<lparr>rotary := ?r\<rparr>) = (Ret (), e')" "engine_ok H e'" by auto
    moreover have "running e' = butlast (running e)" using preempt_running [OF pe(1)] by simp
    moreover have "set_caches ?cs (?e\<lparr>rotary := ?r, e_pool := e_pool e\<rparr>) = ?e\<lparr>rotary := ?r\<rparr>"
      using set_caches_same [of "?e\<lparr>rotary := ?r\<rparr>"] by simp
    ultimately show ?thesis
      using decode_forward_full [OF n, of "mdl e" "map next_token (running e)" "rotary e"] False n
      by (intro exI [of _ "[]"] exI [of _ e']) (simp add: decode_step_def perf_counter_unfold Let_def)
  next
    case True
    from decode_forward_ready [OF H ok', of n] n True ne obtain logits r' p' cs' b where
      df: "decode_forward (mdl e) (map next_token (running e)) (rotary e, (e_pool e, ?cs, None)) = (Ret logits, (r', (p', cs', b)))" and
      f: "let f = set_caches cs' (?e\<lparr>rotary := r', e_pool := p'\<rparr>) in
        store_ok H (map sq_cache (running f)) f \<and> (\<forall>s \<in> set (running f). seq_ready H (e_pool f) s) \<and> rows_ok H (map last logits) (running f)"
      by (auto simp: Let_def)
    define f where "f = set_caches cs' (?e\<lparr>rotary := r', e_pool := p'\<rparr>)"
    have f: "store_ok H (map sq_cache (running f)) f" "\<forall>s \<in> set (running f). seq_ready H (e_pool f) s" "rows_ok H (map last logits) (running f)"
      using f by (simp_all add: Let_def flip: f_def)
    have lf: "length cs' = length (running e)" using decode_forward_lengths(1) [OF df] by simp
    have wl: "waiting f = waiting e" "logs_ok H f" using ok by (simp_all add: f_def set_caches_def engine_ok_def)
    obtain ids m where sb: "sample_batch ?E (map last logits) (running f) f = (Ret ids, f\<lparr>e_draws := m\<rparr>)" "list_all2 (token_ok H) (running f) ids"
      using sample_batch_ok [OF H f(3,2)] by blast
    let ?g = "step_seconds ?E (clk ?E (e_clock e)) (length (running f)) (f\<lparr>e_draws := m\<rparr>)"
    have "\<forall>(s, tok) \<in> set (zip (running f) ids). seq_ready H (e_pool ?g) s \<and> token_ok H s tok"
      using f(2) sb(2) by (auto simp: step_seconds_ok list_all2_iff dest: set_zip_leftD)
    moreover have "store_ok H (map sq_cache ([] @ map fst (zip (running f) ids))) ?g" "logs_ok H ?g"
      using f(1) wl(2) list_all2_lengthD [OF sb(2)] by (simp_all add: step_seconds_ok)
    ultimately obtain d st' e' where t: "take_tokens ?E (zip (running f) ids) dn [] ?g = (Ret (dn @ d, st'), e')"
      "\<forall>s \<in> set st'. seq_ok H (e_pool e') s" "store_ok H (map sq_cache st') e'" "logs_ok H e'" "\<forall>q \<in> set d. ended q"
      "d = [] \<longrightarrow> list_all2 advanced (running f) st'"
      using take_tokens_ok [of "zip (running f) ids" H ?g "[]" ?E dn] list_all2_lengthD [OF sb(2)] by auto
    have "list_all2 advanced (running e) st'" if "d = []"
      using t(6) that lf by (auto simp: list_all2_conv_all_nth f_def set_caches_def advanced_def)
    have "waiting e' = waiting ?g" using take_tokens_moves [OF t(1)] by (auto simp: one_outcome_def)
    then have "waiting e' = waiting e" using wl(1) step_seconds_frame [of "f\<lparr>e_draws := m\<rparr>"] by (simp add: same_queues_def)
    then have "engine_ok H (e'\<lparr>running := st'\<rparr>)" using t ok by (simp add: engine_ok_def)
    moreover have "decode_step ?E dn e = (Ret (dn @ d), e'\<lparr>running := st'\<rparr>)"
      using df sb(1) t(1) by (simp add: decode_step_def perf_counter_unfold Let_def flip: f_def)
    ultimately show ?thesis using n True t(5) \<open>d = [] \<Longrightarrow> list_all2 advanced (running e) st'\<close>
      by (intro exI [of _ d] exI [of _ "e'\<lparr>running := st'\<rparr>"]) simp
  qed
qed

section \<open>Prefill\<close>

lemma hist_of_frame:
  assumes "same_blocks (\<lambda>b. b \<in># N) p q" "pool_frame p q" and "cache_wf p c" and "set (block_table c) \<subseteq> set_mset N" and "pool_wf p (N' + N)"
  shows "hist_of q c = hist_of p c"
proof -
  have "k_rows q c (num_tokens c) l = k_rows p c (num_tokens c) l \<and> v_rows q c (num_tokens c) l = v_rows p c (num_tokens c) l"
    if "l < num_hidden_layers (cfg p)" for l
    by (rule rows_same_blocks [OF assms(1) _ _ assms(5)]) (use assms that in \<open>auto simp: cache_wf_def\<close>)
  then show ?thesis using assms(2) by (simp add: hist_of_def pool_frame_def)
qed

lemma prefill_ok:
  assumes H: "host_ok H" and st: "store_ok H cs e" and q: "request_ok H q"
    and room: "ceil_div (prompt_len q) (block_size (e_pool e)) \<le> num_free (alloc (e_pool e))"
  shows "\<exists>logits c p pc ro. prefill (h_env H) q new_pcache e = (Ret logits, (c, e\<lparr>e_pool := p, e_prefix := pc, rotary := ro\<rparr>)) \<and>
    last (logits ! 0) = uncached (h_model H) (h_rope H) (prompt_token_ids q) \<and>
    store_ok H (c # cs) (e\<lparr>e_pool := p, e_prefix := pc, rotary := ro\<rparr>) \<and> hist_of p c = h_hist H (prompt_token_ids q) \<and>
    (\<forall>d \<in> set cs. hist_of p d = hist_of (e_pool e) d)"
proof -
  let ?M = "h_model H" and ?r = "h_rope H" and ?p = "e_pool e" and ?h = "hash2 (h_env H)" and ?P = "h_prompts H" and ?ids = "prompt_token_ids q"
  obtain att where doc: "sdpa_doc (sdpa ?M) att" "mlayers ?M \<noteq> []" "rope_wf ?r" using host_doc [OF H] .
  have s: "mdl e = ?M" "same_tables ?M ?r (rotary e)" "num_hidden_layers (cfg ?p) = length (mlayers ?M)" "block_size ?p = h_bs H"
    "\<forall>c \<in> set cs. cache_wf ?p c" "pc_wf ?p (e_prefix e) (tables cs)" "pc_sem ?h ?M ?r ?P ?p (e_prefix e)"
    using st by (simp_all add: store_ok_def)
  have ids: "?ids \<in> ?P" "?ids \<noteq> []" "\<forall>t \<in> set ?ids. t < h_vocab H" and nc: "no_collision ?h (block_size ?p) ?P"
    using H prompt_ok [OF H q] request_prompt [OF q] s(4) by (simp_all add: host_ok_def)
  obtain ms a pc1 c where m: "match_prefix ?h (butlast ?ids) (?p, e_prefix e) = (Ret ms, (?p\<lparr>alloc := a\<rparr>, pc1))"
    "attach (?p\<lparr>alloc := a\<rparr>) new_pcache ms = (num_tokens c, c)" "block_table c = ms" "cache_wf ?p c"
    "num_tokens c = length ms * block_size ?p" "num_tokens c < length ?ids"
    "hist_of ?p c = h_hist H (take (num_tokens c) ?ids)" "pc_wf (?p\<lparr>alloc := a\<rparr>) pc1 (mset ms + tables cs)"
    "num_free a = num_free (alloc ?p)" "pc_view pc1 = pc_view (e_prefix e)" "num_blocks a = num_blocks (alloc ?p)"
    "cached_blocks pc1 = cached_blocks (e_prefix e)" "pc_enabled pc1 = pc_enabled (e_prefix e)"
    using match_attach [OF doc(1,2) s(3,6,7) nc ids(1,2)] by blast
  let ?p1 = "?p\<lparr>alloc := a\<rparr>" and ?R = "mset (cached_blocks pc1) + tables cs" and ?x = "drop (num_tokens c) ?ids"
  have w1: "pool_wf ?p1 (mset (block_table c) + ?R)" using m(3,8) by (simp add: pc_wf_def ac_simps)
  have c1: "cache_wf ?p1 c" using m(4) by (simp add: cache_wf_def table_wf_def)
  obtain logits ro p2 c2 where ps:
    "nano_causal_lm ?M [?x] (Some [[num_tokens c..<num_tokens c + length ?x]]) (Some (solo update, paged_len)) None
      (rope_ensure_capacity (length ?ids + 1) (rotary e), (?p1, c)) = (Ret logits, (ro, (p2, c2)))"
    "last (logits ! 0) = uncached ?M ?r ?ids" "same_tables ?M ?r ro" "pool_wf p2 (mset (block_table c2) + ?R)" "cache_wf p2 c2"
    "hist_of p2 c2 = h_hist H ?ids" "num_tokens c2 = length ?ids" "same_blocks (\<lambda>b. b \<in># ?R) ?p1 p2" "pool_frame ?p1 p2"
    using suffix_pass [OF doc(1,2) _ doc(3) s(2) ids(3) m(6) w1 c1] s(3) m(3,5,7,9) room by (auto simp: prompt_len_def)
  have wf2: "pc_wf p2 pc1 (mset (block_table c2) + tables cs)" using m(8) ps(4) by (simp add: pc_wf_def ac_simps)
  have "pc_sem ?h ?M ?r ?P ?p1 pc1" using pc_sem_sub [OF s(7), of pc1] m(10) by simp
  then have sem2: "pc_sem ?h ?M ?r ?P p2 pc1" by (rule pc_sem_frame [OF _ ps(8,9) _ m(8)]) simp
  obtain a3 pc3 where ins: "insert_prefix ?h ?ids (block_table c2) (p2, pc1) = (Ret (), (p2\<lparr>alloc := a3\<rparr>, pc3))"
    "pc_wf (p2\<lparr>alloc := a3\<rparr>) pc3 (mset (block_table c2) + tables cs)"
    "\<forall>k b. pc_view pc3 k = Some b \<longrightarrow> pc_view pc1 k = Some b \<or> (k, b) \<in> set (zip (hash_chain ?h p2 ?ids) (block_table c2))"
    "num_blocks a3 = num_blocks (alloc p2)"
    using insert_prefix_ok [OF wf2, of "block_table c2" ?h ?ids] by auto
  have off: "\<not> pc_enabled pc3 \<and> pc_entries pc3 = []" if "h_no_prefix H"
  proof -
    have "\<not> pc_enabled pc1" "pc_entries pc1 = []" using that st m(12,13) by (simp_all add: store_ok_def cached_blocks_def)
    then show ?thesis using ins(1) by (simp add: insert_prefix_def)
  qed
  have L2: "num_hidden_layers (cfg p2) = length (mlayers ?M)" "block_size p2 = h_bs H" "0 < block_size p2"
    "num_blocks (alloc p2) = h_blocks H"
    using ps(9) s(3,4) m(11) st pool_wf_bs [OF ps(4)] by (simp_all add: pool_frame_def store_ok_def)
  have sem3: "pc_sem ?h ?M ?r ?P p2 pc3"
    by (rule pc_sem_insert [OF doc(2) L2(1,3) sem2 ids(1) ps(5,7,6)]) (use ins(3) in blast)
  have cw: "cache_wf (p2\<lparr>alloc := a3\<rparr>) d" if "d \<in> set (c2 # cs)" for d
    using that s(5) ps(5) cache_wf_frame [OF ps(9), of d] by (auto simp: cache_wf_def table_wf_def)
  let ?e = "e\<lparr>e_pool := p2\<lparr>alloc := a3\<rparr>, e_prefix := pc3, rotary := ro\<rparr>"
  have "store_ok H (c2 # cs) ?e"
    using st cw L2 ps(3) ins(2,4) sem3 off by (simp add: store_ok_def)
  moreover have "hist_of (p2\<lparr>alloc := a3\<rparr>) d = hist_of ?p d" if "d \<in> set cs" for d
    using hist_of_frame [OF ps(8,9), of d "mset (block_table c)"] that s(5) w1 tables_member [OF that] by (auto simp: cache_wf_def table_wf_def)
  moreover have "?x \<noteq> []" using m(6) by simp
  then have "prefill (h_env H) q new_pcache e = (Ret logits, (c2, ?e))"
    using m(1,2) ps(1) ins(1) s(1) by (simp add: prefill_def Let_def)
  ultimately show ?thesis
    using ps(2,6) by (intro exI [of _ logits] exI [of _ c2] exI [of _ "p2\<lparr>alloc := a3\<rparr>"] exI [of _ pc3] exI [of _ ro]) simp
qed

section \<open>Admission\<close>

lemma seq_ok_hist: "seq_ok H p s \<Longrightarrow> hist_of p' (sq_cache s) = hist_of p (sq_cache s) \<Longrightarrow> seq_ok H p' s"
  by (simp add: seq_ok_def Let_def)

text \<open>What becomes of a request that leaves the queue: \<open>started H q cs e e' r\<close>.\<close>

definition started :: "host \<Rightarrow> request \<Rightarrow> pcache list \<Rightarrow> engine \<Rightarrow> engine \<Rightarrow> request + seq \<Rightarrow> bool" where
  "started H q cs e e' r \<longleftrightarrow>
     logs_ok H e' \<and> (\<forall>d \<in> set cs. hist_of (e_pool e') d = hist_of (e_pool e) d) \<and>
     (case r of Inl q' \<Rightarrow> store_ok H cs e' \<and> ended q'
      | Inr s \<Rightarrow> store_ok H (sq_cache s # cs) e' \<and> seq_ok H (e_pool e') s \<and>
          prompt_token_ids (sq_request s) = prompt_token_ids q \<and> output_len (sq_request s) = 1)"

lemma start_request_ok:
  assumes H: "host_ok H" and st: "store_ok H cs e" and q: "fresh_ok H q" and lg: "logs_ok H e"
    and room: "ceil_div (prompt_len q) (block_size (e_pool e)) \<le> num_free (alloc (e_pool e))"
  shows "\<exists>r e'. start_request (h_env H) q new_pcache e = (Ret r, e') \<and> started H q cs e e' r"
proof -
  let ?E = "h_env H" and ?ids = "prompt_token_ids q"
  note qo = fresh_output_ok [OF q]
  obtain logits c p pc ro where pf: "prefill ?E q new_pcache e = (Ret logits, (c, e\<lparr>e_pool := p, e_prefix := pc, rotary := ro\<rparr>))"
    "last (logits ! 0) = uncached (h_model H) (h_rope H) ?ids" "store_ok H (c # cs) (e\<lparr>e_pool := p, e_prefix := pc, rotary := ro\<rparr>)"
    "hist_of p c = h_hist H ?ids" "\<forall>d \<in> set cs. hist_of p d = hist_of (e_pool e) d"
    using prefill_ok [OF H st _ room] qo by blast
  let ?e = "e\<lparr>e_pool := p, e_prefix := pc, rotary := ro\<rparr>"
  have "length ?ids \<le> h_blocks H * h_bs H" using hist_room [OF H pf(3), of c] pf(4) by simp
  then have rd: "seq_ready H p (new_seq q c t)" for t using qo q pf(4) by (simp add: seq_ready_def new_seq_def fresh_ok_def prompt_len_def output_len_def)
  obtain t where t: "sample (smp ?E) (e_draws ?e) (params q) (last (logits ! 0)) = Ret t" "token_ok H (new_seq q c 0) t"
    using token_ok_sample [OF H rd [of 0], of "last (logits ! 0)" "e_draws ?e"] pf(2) q by (auto simp: new_seq_def fresh_ok_def)
  obtain n where so: "sample_one ?E (last (logits ! 0)) q ?e = (Ret t, ?e\<lparr>e_draws := n\<rparr>)" using sample_one_frame t(1) by metis
  have "token_ok H (new_seq q c t) t" using t(2) by (simp add: token_ok_def new_seq_def)
  note tt = take_token_ok [of H "?e\<lparr>e_draws := n\<rparr>" "new_seq q c t" t cs ?E]
  have sc: "sq_cache (new_seq q c t) = c" by (simp add: new_seq_def)
  have "\<exists>r e' a. take_token ?E (new_seq q c t) t (?e\<lparr>e_draws := n\<rparr>) = (Ret r, e') \<and> logs_ok H e' \<and> e_pool e' = p\<lparr>alloc := a\<rparr> \<and>
      (case r of Inl q' \<Rightarrow> store_ok H cs e' \<and> ended q'
       | Inr s' \<Rightarrow> store_ok H (c # cs) e' \<and> seq_ok H (e_pool e') s' \<and> sq_cache s' = c \<and> advanced (new_seq q c t) s')"
    using tt [unfolded sc] \<open>token_ok H (new_seq q c t) t\<close> rd pf(3) lg by simp
  then obtain r e' a where
    tk: "take_token ?E (new_seq q c t) t (?e\<lparr>e_draws := n\<rparr>) = (Ret r, e')" "logs_ok H e'" "e_pool e' = p\<lparr>alloc := a\<rparr>"
      "case r of Inl q' \<Rightarrow> store_ok H cs e' \<and> ended q'
       | Inr s' \<Rightarrow> store_ok H (c # cs) e' \<and> seq_ok H (e_pool e') s' \<and> sq_cache s' = c \<and> advanced (new_seq q c t) s'"
    by blast
  then have "started H q cs e e' r" using pf(5) q by (auto simp: started_def advanced_def new_seq_def fresh_ok_def output_len_def split: sum.splits)
  then show ?thesis using pf(1) so tk(1) by (simp add: start_request_def)
qed

lemma make_room_ok:
  assumes "store_ok H cs e"
  shows "\<exists>b a pc. make_room n e = (Ret b, e\<lparr>e_pool := (e_pool e)\<lparr>alloc := a\<rparr>, e_prefix := pc\<rparr>) \<and>
    store_ok H cs (e\<lparr>e_pool := (e_pool e)\<lparr>alloc := a\<rparr>, e_prefix := pc\<rparr>) \<and> (b \<longrightarrow> n \<le> num_free a) \<and>
    (b \<longleftrightarrow> n + card (set_mset (tables cs)) \<le> h_blocks H)"
proof (cases "num_free (alloc (e_pool e)) < n")
  case False
  moreover have "n + card (set_mset (tables cs)) \<le> h_blocks H"
    using False idle_accounting [of "e_pool e" "e_prefix e" "tables cs"] assms by (simp add: store_ok_def)
  ultimately show ?thesis
    using assms by (intro exI [of _ True] exI [of _ "alloc (e_pool e)"] exI [of _ "e_prefix e"]) (simp add: make_room_def)
next
  case True
  have wf: "pc_wf (e_pool e) (e_prefix e) (tables cs)" using assms by (simp add: store_ok_def)
  obtain a pc where f: "ensure_free n (e_pool e, e_prefix e) = (Ret (n + card (set_mset (tables cs)) \<le> h_blocks H), ((e_pool e)\<lparr>alloc := a\<rparr>, pc))"
    "pc_wf ((e_pool e)\<lparr>alloc := a\<rparr>) pc (tables cs)" "n + card (set_mset (tables cs)) \<le> h_blocks H \<longrightarrow> n \<le> num_free a"
    "\<forall>k b. pc_view pc k = Some b \<longrightarrow> pc_view (e_prefix e) k = Some b" "num_blocks a = num_blocks (alloc (e_pool e))" "pc_enabled pc = pc_enabled (e_prefix e)"
    using ensure_free_ok [OF wf, of n] assms by (auto simp: store_ok_def)
  have "pc_entries pc = []" if "pc_entries (e_prefix e) = []"
  proof (rule ccontr)
    assume "pc_entries pc \<noteq> []"
    then obtain k v es where "pc_entries pc = (k, v) # es" by (cases "pc_entries pc") auto
    then have "pc_view pc k = Some (block_id v)" by (simp add: pc_view_def)
    then show False using f(4) that by (auto simp: pc_view_def)
  qed
  moreover
  have "pc_sem (hash2 (h_env H)) (h_model H) (h_rope H) (h_prompts H) (e_pool e) pc"
    by (rule pc_sem_sub [of _ _ _ _ _ "e_prefix e"]) (use assms f(4) in \<open>auto simp: store_ok_def\<close>)
  moreover have "cache_wf ((e_pool e)\<lparr>alloc := a\<rparr>) d = cache_wf (e_pool e) d" for d by (simp add: cache_wf_def table_wf_def)
  ultimately show ?thesis
    using assms f True by (intro exI [of _ "n + card (set_mset (tables cs)) \<le> h_blocks H"] exI [of _ a] exI [of _ pc]) (simp add: make_room_def store_ok_def)
qed

lemma admit_one_ok:
  assumes H: "host_ok H" and st: "store_ok H cs e" and q: "fresh_ok H q" and lg: "logs_ok H e"
  shows "\<exists>r e'. admit_one (h_env H) q rest n e = (Ret r, e') \<and>
    (case r of
       None \<Rightarrow> logs_ok H e' \<and> store_ok H cs e' \<and> (\<exists>q'. waiting e' = q' # rest \<and> fresh_ok H q') \<and> (\<exists>a. e_pool e' = (e_pool e)\<lparr>alloc := a\<rparr>)
     | Some x \<Rightarrow> started H q cs e e' x) \<and>
    (r = None \<longleftrightarrow> h_blocks H < blocks_needed q e + 1 + reserve_for n e + card (set_mset (tables cs)))"
proof -
  let ?E = "h_env H" and ?n = "blocks_needed q e + 1 + reserve_for n e"
  obtain b a pc where m: "make_room ?n e = (Ret b, e\<lparr>e_pool := (e_pool e)\<lparr>alloc := a\<rparr>, e_prefix := pc\<rparr>)"
    "store_ok H cs (e\<lparr>e_pool := (e_pool e)\<lparr>alloc := a\<rparr>, e_prefix := pc\<rparr>)" "b \<Longrightarrow> ?n \<le> num_free a"
    "b \<longleftrightarrow> ?n + card (set_mset (tables cs)) \<le> h_blocks H"
    using make_room_ok [OF st] by blast
  let ?e = "e\<lparr>e_pool := (e_pool e)\<lparr>alloc := a\<rparr>, e_prefix := pc\<rparr>"
  let ?now = "clk ?E (e_clock e)" and ?f = "?e\<lparr>e_clock := Suc (e_clock e)\<rparr>"
  let ?q = "q\<lparr>scheduled_time := Some ?now\<rparr>"
  consider (full) "\<not> b" | (big) b "running e = []" "n = 0" "num_blocks a < ?n" | (go) b "\<not> (running e = [] \<and> n = 0 \<and> num_blocks a < ?n)" by blast
  then show ?thesis
  proof cases
    case full
    then show ?thesis using m(1,2,4) q lg by (auto simp: admit_one_def)
  next
    case big
    have "num_blocks a = h_blocks H" using m(2) by (simp add: store_ok_def)
    then show ?thesis using big(1,4) m(4) by simp
  next
    case go
    have fr: "?n \<le> num_free a" using m(3) go(1) by simp
    have q': "fresh_ok H ?q" using q by (simp add: fresh_ok_def request_ok_def call_of_def)
    have "ceil_div (prompt_len ?q) (block_size (e_pool ?f)) \<le> num_free (alloc (e_pool ?f))"
      using fr by (simp add: blocks_needed_def prompt_len_def)
    from start_request_ok [OF H _ q' _ this, of cs] m(2) lg obtain r e' where
      s: "start_request ?E ?q new_pcache ?f = (Ret r, e')" "started H ?q cs ?f e' r" by auto
    have "pool_allocate (e_pool ?f) = Some new_pcache" using fr by (simp add: pool_allocate_def)
    then have "admit_one ?E q rest n e = (Ret (Some r), e')"
      using go m(1) s(1) by (auto simp: admit_one_def Let_def perf_counter_unfold)
    moreover have "started H q cs e e' r" using s(2) by (simp add: started_def split: sum.splits)
    ultimately show ?thesis using go(1) m(4) by auto
  qed
qed

text \<open>Without prefix caching the free blocks are those no running sequence holds; an admission leaves one for each of them.\<close>

lemma free_count: "store_ok H cs e \<Longrightarrow> h_no_prefix H \<Longrightarrow> num_free (alloc (e_pool e)) + card (set_mset (tables cs)) = h_blocks H"
  using idle_accounting [of "e_pool e" "e_prefix e" "tables cs"] by (simp add: store_ok_def idle_entries_def)

lemma started_room:
  assumes H: "host_ok H" "h_no_prefix H" and st: "store_ok H cs e" and s: "started H q cs e e' (Inr s)"
    and room: "blocks_needed q e + 1 + reserve_for n e + card (set_mset (tables cs)) \<le> h_blocks H"
  shows "length (running e) + Suc n \<le> num_free (alloc (e_pool e'))"
proof -
  have st': "store_ok H (sq_cache s # cs) e'" and sq: "seq_ok H (e_pool e') s" "prompt_token_ids (sq_request s) = prompt_token_ids q"
    "output_len (sq_request s) = 1" using s by (simp_all add: started_def)
  have w: "cache_wf (e_pool e') (sq_cache s)" "pool_wf (e_pool e') (mset (cached_blocks (e_prefix e')) + tables (sq_cache s # cs))"
    "num_hidden_layers (cfg (e_pool e')) = length (mlayers (h_model H))" "block_size (e_pool e') = block_size (e_pool e)"
    using st st' by (simp_all add: store_ok_def pc_wf_def)
  have "num_tokens (sq_cache s) = prompt_len q"
    using seq_tokens [OF H(1) sq(1) w(1-3)] sq(2,3) by (simp add: prompt_len_def output_len_def)
  then have "length (block_table (sq_cache s)) = blocks_needed q e" using w(1,4) by (simp add: cache_wf_def blocks_needed_def)
  then have "card (set_mset (tables (sq_cache s # cs))) \<le> blocks_needed q e + card (set_mset (tables cs))"
    using card_Un_le [of "set (block_table (sq_cache s))" "set_mset (tables cs)"] card_length [of "block_table (sq_cache s)"] by simp
  moreover have "length (running e) + n + 1 \<le> reserve_for n e" by (simp add: reserve_for_def)
  ultimately show ?thesis using free_count [OF st' H(2)] room by linarith
qed

lemma admit_loop_ok:
  assumes H: "host_ok H" and "store_ok H (map sq_cache (running e @ ns)) e" and "\<forall>s \<in> set (running e @ ns). seq_ok H (e_pool e) s"
    and "\<forall>q \<in> set ws. fresh_ok H q" and "logs_ok H e"
  shows "\<exists>nx d e'. admit_loop (h_env H) ws ns dn e = (Ret (ns @ nx, dn @ d), e') \<and> running e' = running e \<and>
    store_ok H (map sq_cache (running e @ ns @ nx)) e' \<and> (\<forall>s \<in> set (running e @ ns @ nx). seq_ok H (e_pool e') s) \<and>
    (\<forall>q \<in> set (waiting e'). fresh_ok H q) \<and> logs_ok H e' \<and> (\<forall>q \<in> set d. ended q) \<and>
    (h_no_prefix H \<and> (ns \<noteq> [] \<longrightarrow> length (running e @ ns) \<le> num_free (alloc (e_pool e))) \<longrightarrow>
     ns @ nx \<noteq> [] \<longrightarrow> length (running e @ ns @ nx) \<le> num_free (alloc (e_pool e')))"
  using assms(2-)
proof (induction ws arbitrary: ns dn e)
  case Nil
  then show ?case by (intro exI [of _ "[]"] exI [of _ "[]"] exI [of _ "e\<lparr>waiting := []\<rparr>"]) auto
next
  case (Cons q ws)
  let ?cs = "map sq_cache (running e @ ns)" and ?E = "h_env H"
  let ?room = "\<lambda>ns f. h_no_prefix H \<and> (ns \<noteq> [] \<longrightarrow> length (running e @ ns) \<le> num_free (alloc (e_pool f)))"
  show ?case
  proof (cases "length (running e) + length ns \<ge> max_batch_size e")
    case True
    then show ?thesis using Cons.prems by (intro exI [of _ "[]"] exI [of _ "[]"] exI [of _ "e\<lparr>waiting := q # ws\<rparr>"]) simp
  next
    case False
    have q: "fresh_ok H q" using Cons.prems(3) by simp
    obtain r e1 where a: "admit_one ?E q ws (length ns) e = (Ret r, e1)" and
      r: "case r of None \<Rightarrow> logs_ok H e1 \<and> store_ok H ?cs e1 \<and> (\<exists>q'. waiting e1 = q' # ws \<and> fresh_ok H q') \<and> (\<exists>a. e_pool e1 = (e_pool e)\<lparr>alloc := a\<rparr>)
        | Some x \<Rightarrow> started H q ?cs e e1 x" and
      n: "r = None \<longleftrightarrow> h_blocks H < blocks_needed q e + 1 + reserve_for (length ns) e + card (set_mset (tables ?cs))"
      using admit_one_ok [OF H Cons.prems(1) q Cons.prems(4)] by blast
    have run: "running e1 = running e" using admit_one_moves [OF a] by (auto simp: one_outcome_def same_queues_def split: option.splits)
    have kept: "?room ns e1" if "?room ns e" "store_ok H ?cs e1"
      using that free_count [OF Cons.prems(1)] free_count [OF that(2)] by (metis add_right_cancel)
    show ?thesis
    proof (cases r)
      case None
      then have "admit_loop ?E (q # ws) ns dn e = (Ret (ns @ [], dn @ []), e1)" using False a by simp
      moreover have "\<forall>q \<in> set (waiting e1). fresh_ok H q" using None r Cons.prems(3) by auto
      moreover have "\<forall>s \<in> set (running e @ ns). seq_ok H (e_pool e1) s" using None r Cons.prems(2) by auto
      ultimately show ?thesis using None r run kept by (intro exI [of _ "[]"] exI [of _ "[]"] exI [of _ e1]) simp
    next
      case (Some x)
      have h: "\<forall>d \<in> set ?cs. hist_of (e_pool e1) d = hist_of (e_pool e) d" "logs_ok H e1" using Some r by (simp_all add: started_def)
      have old: "\<forall>s \<in> set (running e @ ns). seq_ok H (e_pool e1) s" using Cons.prems(2) h(1) by (fastforce intro: seq_ok_hist)
      show ?thesis
      proof (cases x)
        case (Inl fin)
        then have st: "store_ok H ?cs e1" "ended fin" using Some r by (simp_all add: started_def)
        obtain nx d e' where i: "admit_loop ?E ws ns (dn @ [fin]) e1 = (Ret (ns @ nx, (dn @ [fin]) @ d), e')" "running e' = running e1"
          "store_ok H (map sq_cache (running e1 @ ns @ nx)) e'" "\<forall>s \<in> set (running e1 @ ns @ nx). seq_ok H (e_pool e') s"
          "\<forall>q \<in> set (waiting e'). fresh_ok H q" "logs_ok H e'" "\<forall>q \<in> set d. ended q"
          "?room ns e1 \<longrightarrow> ns @ nx \<noteq> [] \<longrightarrow> length (running e @ ns @ nx) \<le> num_free (alloc (e_pool e'))"
          using Cons.IH [of e1 ns "dn @ [fin]"] st(1) old h(2) Cons.prems(3) run by auto
        then show ?thesis
          using False a Some Inl st run kept by (intro exI [of _ nx] exI [of _ "fin # d"] exI [of _ e']) simp
      next
        case (Inr s)
        then have s: "store_ok H (sq_cache s # ?cs) e1" "seq_ok H (e_pool e1) s" using Some r by (simp_all add: started_def)
        have rm: "?room (ns @ [s]) e1" if "?room ns e"
          using started_room [OF H _ Cons.prems(1), of q e1 s "length ns"] that n Some Inr r by simp
        have "store_ok H (map sq_cache (running e1 @ ns @ [s])) e1"
          using s(1) run store_ok_perm [of "sq_cache s # ?cs" "map sq_cache (running e1 @ ns @ [s])" H e1] by simp
        then obtain nx d e' where i: "admit_loop ?E ws (ns @ [s]) dn e1 = (Ret ((ns @ [s]) @ nx, dn @ d), e')" "running e' = running e1"
          "store_ok H (map sq_cache (running e1 @ (ns @ [s]) @ nx)) e'" "\<forall>s \<in> set (running e1 @ (ns @ [s]) @ nx). seq_ok H (e_pool e') s"
          "\<forall>q \<in> set (waiting e'). fresh_ok H q" "logs_ok H e'" "\<forall>q \<in> set d. ended q"
          "?room (ns @ [s]) e1 \<longrightarrow> length (running e @ (ns @ [s]) @ nx) \<le> num_free (alloc (e_pool e'))"
          using Cons.IH [of e1 "ns @ [s]" dn] old h(2) s(2) Cons.prems(3) run by auto
        then show ?thesis
          using False a Some Inr run rm by (intro exI [of _ "s # nx"] exI [of _ d] exI [of _ e']) simp
      qed
    qed
  qed
qed

section \<open>Cancellation\<close>

lemma cancel_one_ok:
  assumes "engine_ok H e" and "s \<in> set (running e)"
  shows "\<exists>a. free_seq (sq_cache s) e = (Ret (), e\<lparr>e_pool := (e_pool e)\<lparr>alloc := a\<rparr>\<rparr>) \<and>
    engine_ok H ((record_finished (finish CANCELLED t (sq_request s)) (e\<lparr>e_pool := (e_pool e)\<lparr>alloc := a\<rparr>, e_clock := k\<rparr>))\<lparr>running := remove1 s (running e)\<rparr>)"
proof -
  let ?rs = "remove1 s (running e)"
  have "mset (map sq_cache (running e)) = mset (sq_cache s # map sq_cache ?rs)"
    using assms(2) mset_remove1 [of s "running e"] by (simp flip: image_mset_add_mset)
  from store_ok_perm [OF this] have "store_ok H (sq_cache s # map sq_cache ?rs) e"
    using assms(1) unfolding engine_ok_def by blast
  from free_seq_ok [OF this] obtain a where a: "free_seq (sq_cache s) e = (Ret (), e\<lparr>e_pool := (e_pool e)\<lparr>alloc := a\<rparr>\<rparr>)"
    "store_ok H (map sq_cache ?rs) (e\<lparr>e_pool := (e_pool e)\<lparr>alloc := a\<rparr>\<rparr>)" by blast
  have "seq_ok H (e_pool e) s" using assms by (simp add: engine_ok_def)
  then have "answer_ok H (finish CANCELLED t (sq_request s))" by (intro answer_ok_closed) (auto simp: seq_ok_def Let_def)
  then show ?thesis
    using a assms(1) set_remove1_subset [of s "running e"] by (intro exI [of _ a]) (auto simp: engine_ok_def)
qed

lemma cancel_running_ok:
  assumes "engine_ok H e" and "mset ss \<subseteq># mset (running e)"
  shows "\<exists>d e'. cancel_running E wanted ss e = (Ret d, e') \<and> engine_ok H e'"
  using assms
proof (induction ss arbitrary: e)
  case (Cons s ss)
  have s: "s \<in> set (running e)" and sub: "mset ss \<subseteq># mset (remove1 s (running e))" "mset ss \<subseteq># mset (running e)"
    using Cons.prems(2) by (auto simp: insert_subset_eq_iff intro: subset_mset.order_trans [OF _ diff_subset_eq_self])
  show ?case
  proof (cases "request_id (sq_request s) \<in> wanted")
    case False
    then show ?thesis using Cons.IH [OF Cons.prems(1) sub(2)] by simp
  next
    case True
    let ?t = "clk E (e_clock e)" and ?k = "Suc (e_clock e)"
    obtain a where a: "free_seq (sq_cache s) e = (Ret (), e\<lparr>e_pool := (e_pool e)\<lparr>alloc := a\<rparr>\<rparr>)"
      "engine_ok H ((record_finished (finish CANCELLED ?t (sq_request s)) (e\<lparr>e_pool := (e_pool e)\<lparr>alloc := a\<rparr>, e_clock := ?k\<rparr>))\<lparr>running := remove1 s (running e)\<rparr>)"
      using cancel_one_ok [OF Cons.prems(1) s] by blast
    from Cons.IH [OF a(2)] sub(1) obtain d e' where
      "cancel_running E wanted ss ((record_finished (finish CANCELLED ?t (sq_request s)) (e\<lparr>e_pool := (e_pool e)\<lparr>alloc := a\<rparr>, e_clock := ?k\<rparr>))\<lparr>running := remove1 s (running e)\<rparr>) = (Ret d, e')"
      "engine_ok H e'" by auto
    then show ?thesis using True a(1) by (simp add: finish_now_unfold Let_def)
  qed
qed auto

lemma cancel_waiting_ok:
  assumes "engine_ok H e" and "set rs \<subseteq> {q. fresh_ok H q}"
  shows "engine_ok H (snd (cancel_waiting E wanted rs e))"
  using assms
proof (induction rs arbitrary: e)
  case (Cons r rs)
  have "answer_ok H (finish CANCELLED t r)" for t
    using Cons.prems(2) fresh_output_ok [of H r] by (intro answer_ok_closed) auto
  then have "engine_ok H (record_finished (finish CANCELLED t r) (e\<lparr>waiting := remove1 r (waiting e), e_clock := k\<rparr>))" for t k
    using Cons.prems(1) set_remove1_subset [of r "waiting e"] by (auto simp: engine_ok_def)
  from Cons.IH [OF this] Cons.IH [OF Cons.prems(1)] Cons.prems(2) show ?case
    by (simp add: finish_now_unfold Let_def split: prod.splits) (metis snd_conv)
qed simp

lemma apply_cancellations_ok:
  assumes "engine_ok H e"
  shows "\<exists>d e'. apply_cancellations E e = (Ret d, e') \<and> engine_ok H e'"
proof (cases "cancel_requested e = {}")
  case True
  then show ?thesis using assms by (simp add: apply_cancellations_def)
next
  case False
  let ?e = "e\<lparr>cancel_requested := {}\<rparr>"
  have "engine_ok H ?e" using assms by (simp add: engine_ok_def)
  from cancel_running_ok [OF this, of "running e" E "cancel_requested e"] obtain d e1 where
    c: "cancel_running E (cancel_requested e) (running e) ?e = (Ret d, e1)" "engine_ok H e1" by auto
  obtain d2 e2 where w: "cancel_waiting E (cancel_requested e) (waiting e1) e1 = (d2, e2)"
    by (cases "cancel_waiting E (cancel_requested e) (waiting e1) e1")
  then have "engine_ok H e2" using cancel_waiting_ok [OF c(2), of "waiting e1" E "cancel_requested e"] c(2) by (auto simp: engine_ok_def)
  then show ?thesis using False c(1) w by (simp add: apply_cancellations_def Let_def)
qed

section \<open>The step\<close>

lemma step_ok:
  assumes H: "host_ok H" and ok: "engine_ok H e"
  shows "\<exists>d e'. step (h_env H) e = (Ret d, e') \<and> engine_ok H e' \<and> (cancel_requested e = {} \<longrightarrow> (\<forall>q \<in> set d. ended q))"
proof -
  obtain c e1 where c: "apply_cancellations (h_env H) e = (Ret c, e1)" "engine_ok H e1" using apply_cancellations_ok [OF ok] by blast
  then obtain ns dn e2 where a: "admit_waiting (h_env H) e1 = (Ret (ns, dn), e2)" "running e2 = running e1"
    "store_ok H (map sq_cache (running e1 @ ns)) e2" "\<forall>s \<in> set (running e1 @ ns). seq_ok H (e_pool e2) s"
    "\<forall>q \<in> set (waiting e2). fresh_ok H q" "logs_ok H e2" "\<forall>q \<in> set dn. ended q"
    using admit_loop_ok [OF H, of e1 "[]" "waiting e1" "[]"] by (auto simp: engine_ok_def admit_waiting_def)
  let ?f = "e2\<lparr>running := running e2 @ ns\<rparr>"
  have f: "engine_ok H ?f" using a(2-6) by (simp add: engine_ok_def)
  have st: "step (h_env H) e = (if running ?f = [] then (Ret (c @ dn), ?f) else decode_step (h_env H) (c @ dn) ?f)"
    using c(1) a(1) by (simp add: step_def Let_def)
  have cn: "c = []" if "cancel_requested e = {}" using c(1) that by (simp add: apply_cancellations_def)
  show ?thesis
  proof (cases "running ?f = []")
    case True
    then show ?thesis using f st cn a(7) by (intro exI [of _ "c @ dn"] exI [of _ ?f]) simp
  next
    case False
    then obtain d e' where "decode_step (h_env H) (c @ dn) ?f = (Ret ((c @ dn) @ d), e')" "engine_ok H e'" "\<forall>q \<in> set d. ended q"
      using decode_step_ok [OF H f False] by blast
    then show ?thesis using st False cn a(7) by (intro exI [of _ "(c @ dn) @ d"] exI [of _ e']) auto
  qed
qed

lemma add_request_ok:
  assumes "engine_ok H e" and "fresh_ok H q" and "add_request E q e = (r, e')"
  shows "engine_ok H e'"
proof -
  have "answer_ok H ((finish REJECTED t q)\<lparr>rejection_reason := x\<rparr>)" for t x
    using fresh_output_ok [OF assms(2)] by (simp add: answer_ok_def in_room_def fits_def prompt_len_def request_ok_def call_of_def output_ok_def reference_def token_limit_def output_len_def finish_def)
  then show ?thesis
    using assms by (auto simp: add_request_def engine_ok_def perf_counter_unfold finish_now_unfold Let_def
        split: option.splits prod.splits outcome.splits if_splits)
qed

section \<open>Everything a client can do\<close>

text \<open>The states a client reaches from a fresh engine with the public operations, in any order: submitting well-formed requests,
  asking for cancellation, draining, reading statistics, stepping.\<close>

inductive serving :: "host \<Rightarrow> engine \<Rightarrow> bool" for H where
  start: "pool_wf p {#} \<Longrightarrow> block_size p = h_bs H \<Longrightarrow> num_blocks (alloc p) = h_blocks H \<Longrightarrow>
    num_hidden_layers (cfg p) = length (mlayers (h_model H)) \<Longrightarrow> (h_no_prefix H \<Longrightarrow> \<not> pre) \<Longrightarrow>
    serving H (new_engine (h_model H) (h_rope H) p (h_eos H) mbs res pre adm hist)"
| add: "serving H e \<Longrightarrow> fresh_ok H q \<Longrightarrow> add_request (h_env H) q e = (r, e') \<Longrightarrow> serving H e'"
| cancel_later: "serving H e \<Longrightarrow> serving H (request_cancel rid e)"
| cancel_now: "serving H e \<Longrightarrow> cancel (h_env H) rid e = (rc, e') \<Longrightarrow> serving H e'"
| drain_tokens: "serving H e \<Longrightarrow> drain_emitted e = (ts, e') \<Longrightarrow> serving H e'"
| drain_answers: "serving H e \<Longrightarrow> drain_finished e = (qs, e') \<Longrightarrow> serving H e'"
| stats: "serving H e \<Longrightarrow> engine_stats_of (h_env H) e = (st, e') \<Longrightarrow> serving H e'"
| step: "serving H e \<Longrightarrow> step (h_env H) e = (rs, e') \<Longrightarrow> serving H e'"

lemma new_engine_ok:
  assumes "host_ok H" and "pool_wf p {#}" and "block_size p = h_bs H" and "num_blocks (alloc p) = h_blocks H"
    and "num_hidden_layers (cfg p) = length (mlayers (h_model H))" and "h_no_prefix H \<Longrightarrow> \<not> pre"
  shows "engine_ok H (new_engine (h_model H) (h_rope H) p (h_eos H) mbs res pre adm hist)"
proof -
  have "same_tables (h_model H) (h_rope H) (h_rope H)" using assms(1) by (simp add: same_tables_def host_ok_def)
  moreover have "pc_sem (hash2 (h_env H)) (h_model H) (h_rope H) (h_prompts H) p (new_prefix_cache pre)"
    by (simp add: pc_sem_def pc_view_def new_prefix_cache_def)
  ultimately show ?thesis
    using assms new_prefix_cache_wf [OF assms(2), of pre] by (auto simp: engine_ok_def store_ok_def logs_ok_def new_engine_def new_prefix_cache_def)
qed

lemma serving_ok:
  assumes "host_ok H" and "serving H e"
  shows "engine_ok H e"
  using assms(2)
proof (induction rule: serving.induct)
  case (start p mbs res pre adm hist)
  then show ?case by (rule new_engine_ok [OF assms(1)])
next
  case (add e q r e')
  then show ?case using add_request_ok by blast
next
  case (cancel_now e rid rc e')
  have "engine_ok H (request_cancel rid e)" using cancel_now.IH by (simp add: engine_ok_def request_cancel_def)
  from apply_cancellations_ok [OF this, of "h_env H"] show ?case using cancel_now.hyps(2) by (auto simp: cancel_def)
next
  case (step e rs e')
  then show ?case using step_ok [OF assms(1) step.IH] by auto
qed (auto simp: engine_ok_def request_cancel_def drain_emitted_def drain_finished_def engine_stats_of_def perf_counter_unfold logs_ok_def)

text \<open>C2: the engine serves what the model says. In every state a client can reach, whatever was batched, cached, shared, copied,
  evicted, preempted or cancelled on the way, a step never raises; every request it finishes has at most as many tokens as it
  asked for; under greedy decoding these tokens are those of the reference decoder, which runs one uncached pass per token on
  this request alone, and when the request ended by itself (not by cancellation) they are all of them.\<close>

theorem engine_answers_reference:
  assumes "host_ok H" and "serving H e"
  shows "\<exists>d e'. step (h_env H) e = (Ret d, e') \<and>
    (\<forall>q \<in> set d. output_len q \<le> token_limit q \<and>
       (greedy (params q) \<longrightarrow> output_token_ids q = reference H q (output_len q) \<and>
          (finished_as q \<in> {Some EOS, Some finish_reason.LENGTH} \<longrightarrow> output_token_ids q = reference H q (token_limit q))))"
proof -
  obtain d e' where st: "step (h_env H) e = (Ret d, e')" "engine_ok H e'" using step_ok [OF assms(1) serving_ok [OF assms]] by blast
  have "newly_finished e' = newly_finished e @ d" using step_moves [OF st(1)] by (simp add: moves_def)
  then have "\<forall>q \<in> set d. answer_ok H q" using st(2) by (simp add: engine_ok_def logs_ok_def)
  then show ?thesis using st(1) by (auto simp: answer_ok_def output_ok_def)
qed

text \<open>A host for the concrete instances: the small model with a head that scores every token alike.\<close>

definition flat_model :: model_w where
  "flat_model = demo_model\<lparr>lm_head_w := (\<lambda>_. replicate 256 0)\<rparr>"

definition demo_host :: "bool \<Rightarrow> host" where
  "demo_host np = \<lparr>h_env = \<lparr>clk = real, hash2 = demo_hash, smp = first_sampler\<rparr>, h_model = flat_model, h_rope = new_rope 16 128 10000,
     h_eos = 5, h_bs = 2, h_blocks = 8, h_calls = {(''a'', [1, 2], default_params\<lparr>max_tokens := 1\<rparr>)}, h_no_prefix = np\<rparr>"

lemma demo_host_ok: "host_ok (demo_host np)"
proof -
  have "sdpa_doc (sdpa flat_model) demo_att" using demo_sdpa_doc by (simp add: flat_model_def)
  moreover have "no_collision demo_hash 2 {[1, 2]}" by (simp add: no_collision_def)
  moreover have "mlayers flat_model \<noteq> []" "vocab_size (mcfg flat_model) = 256" by (simp_all add: flat_model_def demo_model_def TINY_def)
  ultimately show ?thesis
    using first_sampler_doc new_rope_wf by (auto simp: host_ok_def demo_host_def flat_model_def)
qed

lemma demo_start:
  "serving (demo_host False) (new_engine flat_model (new_rope 16 128 10000) (new_pool [] TINY 8 2 2) 5 8 1 pre None 1024)"
proof -
  have "serving (demo_host False) (new_engine (h_model (demo_host False)) (h_rope (demo_host False)) (new_pool [] TINY 8 2 2) (h_eos (demo_host False)) 8 1 pre None 1024)"
    by (rule serving.start, rule new_pool_wf)
      (simp_all add: demo_host_def flat_model_def demo_model_def new_pool_def new_allocator_def Let_def TINY_def)
  then show ?thesis by (simp add: demo_host_def)
qed

definition one_token :: request where
  "one_token = new_request [1, 2] (default_params\<lparr>max_tokens := 1\<rparr>) ''a'' 0 None"

lemma one_token_ok: "fresh_ok (demo_host np) one_token"
  by (simp add: fresh_ok_def request_ok_def call_of_def params_ok_def one_token_def new_request_def demo_host_def default_params_def greedy_def)

theorem engine_answers_reference_witness:
  "\<exists>e d e'. add_request (h_env (demo_host False)) one_token
      (new_engine flat_model (new_rope 16 128 10000) (new_pool [] TINY 8 2 2) 5 8 1 True None 1024) = (Ret (), e) \<and>
    step (h_env (demo_host False)) e = (Ret d, e') \<and>
    (\<forall>q \<in> set d. output_len q \<le> token_limit q \<and>
       (greedy (params q) \<and> finished_as q = Some finish_reason.LENGTH \<longrightarrow> output_token_ids q = reference (demo_host False) q (token_limit q)))"
proof -
  obtain e where a: "add_request (h_env (demo_host False)) one_token
      (new_engine flat_model (new_rope 16 128 10000) (new_pool [] TINY 8 2 2) 5 8 1 True None 1024) = (Ret (), e)"
    by (simp add: add_request_def new_engine_def)
  have "serving (demo_host False) e" by (rule serving.add [OF demo_start one_token_ok a])
  from engine_answers_reference [OF demo_host_ok this] show ?thesis using a by blast
qed

text \<open>C4: the engine leaks nothing. Whenever no sequence is running, in any state a client can reach, every block of the pool is
  free or is the one block of an entry of the prefix cache.\<close>

theorem engine_leaks_nothing:
  assumes "host_ok H" and "serving H e" and "running e = []"
  shows "num_free (alloc (e_pool e)) + length (pc_entries (e_prefix e)) = num_blocks (alloc (e_pool e))"
proof -
  have "pc_wf (e_pool e) (e_prefix e) {#}" using serving_ok [OF assms(1,2)] assms(3) by (simp add: engine_ok_def store_ok_def)
  from idle_accounting [OF this] show ?thesis by (simp add: idle_entries_def)
qed

theorem engine_leaks_nothing_witness:
  "let e = new_engine flat_model (new_rope 16 128 10000) (new_pool [] TINY 8 2 2) 5 8 1 True None 1024
   in num_free (alloc (e_pool e)) + length (pc_entries (e_prefix e)) = num_blocks (alloc (e_pool e))"
  using engine_leaks_nothing [OF demo_host_ok demo_start, of True] by (simp add: new_engine_def)

end
