(* ===== verification/Utf8.thy ===== *)
theory Utf8
  imports Prelude
begin

text \<open>
  Python strings and their UTF-8 codec, as far as the tokenizer and the streaming code use them. A string is the list of
  its code points, a byte string a list of numbers below 256. \<open>str_encode\<close> is \<^verbatim>\<open>s.encode("utf-8")\<close>, which refuses
  surrogates; \<open>str_decode\<close> is \<^verbatim>\<open>b.decode("utf-8", errors="replace")\<close>, which turns every maximal ill-formed part into one
  replacement character. \<open>str_decode_encode\<close> is the round trip.
\<close>

type_synonym str = "nat list"
type_synonym bytes = "nat list"

definition scalar :: "nat \<Rightarrow> bool" where
  "scalar c \<longleftrightarrow> c < 1114112 \<and> \<not> (55296 \<le> c \<and> c \<le> 57343)"

text \<open>\<^verbatim>\<open>str.isspace\<close> of one character, and \<^verbatim>\<open>strip\<close>.\<close>

definition py_space :: "nat \<Rightarrow> bool" where
  "py_space c \<longleftrightarrow> c \<in> {9..13} \<or> c \<in> {28..32} \<or> c \<in> {133, 160, 5760} \<or> c \<in> {8192..8202} \<or>
     c \<in> {8232, 8233, 8239, 8287, 12288}"

definition py_strip :: "(nat \<Rightarrow> bool) \<Rightarrow> str \<Rightarrow> str" where
  "py_strip P s = rev (dropWhile P (rev (dropWhile P s)))"

text \<open>\<^verbatim>\<open>str(n)\<close> of a natural number, and \<^verbatim>\<open>int(s)\<close> of decimal digits with an optional sign.\<close>

fun nat_str :: "nat \<Rightarrow> str" where
  "nat_str n = (if n < 10 then [48 + n] else nat_str (n div 10) @ [48 + n mod 10])"

declare nat_str.simps [simp del]

definition digits_val :: "str \<Rightarrow> int option" where
  "digits_val ds = (if ds \<noteq> [] \<and> (\<forall>c \<in> set ds. 48 \<le> c \<and> c < 58) then Some (foldl (\<lambda>a c. a * 10 + (int c - 48)) 0 ds) else None)"

definition int_literal :: "str \<Rightarrow> int option" where
  "int_literal s =
     (case py_strip py_space s of [] \<Rightarrow> None
      | c # ds \<Rightarrow> if c = 45 then map_option uminus (digits_val ds) else if c = 43 then digits_val ds else digits_val (c # ds))"

definition REPLACEMENT :: nat where
  "REPLACEMENT = 65533"

definition utf8_char :: "nat \<Rightarrow> bytes" where
  "utf8_char c =
     (if c < 128 then [c]
      else if c < 2048 then [192 + c div 64, 128 + c mod 64]
      else if c < 65536 then [224 + c div 4096, 128 + c div 64 mod 64, 128 + c mod 64]
      else [240 + c div 262144, 128 + c div 4096 mod 64, 128 + c div 64 mod 64, 128 + c mod 64])"

definition str_encode :: "str \<Rightarrow> bytes outcome" where
  "str_encode s =
     (if \<forall>c \<in> set s. scalar c then Ret (concat (map utf8_char s))
      else Raise (ValueError ''surrogates not allowed''))"

definition cont :: "bytes \<Rightarrow> nat \<Rightarrow> bool" where
  "cont bs i \<longleftrightarrow> i < length bs \<and> 128 \<le> bs ! i \<and> bs ! i < 192"

definition second :: "nat \<Rightarrow> nat \<Rightarrow> bytes \<Rightarrow> bool" where
  "second lo hi bs \<longleftrightarrow> 1 < length bs \<and> lo \<le> bs ! 1 \<and> bs ! 1 < hi"

text \<open>The code point at the front of a non-empty byte string and how many bytes it takes.\<close>

definition utf8_step :: "bytes \<Rightarrow> nat \<times> nat" where
  "utf8_step bs =
     (let b = bs ! 0; lo = (\<lambda>i. bs ! i - 128) in
      if b < 128 then (b, 1)
      else if b < 194 then (REPLACEMENT, 1)
      else if b < 224 then (if cont bs 1 then ((b - 192) * 64 + lo 1, 2) else (REPLACEMENT, 1))
      else if b < 240
      then (if \<not> second (if b = 224 then 160 else 128) (if b = 237 then 160 else 192) bs then (REPLACEMENT, 1)
            else if \<not> cont bs 2 then (REPLACEMENT, 2)
            else ((b - 224) * 4096 + lo 1 * 64 + lo 2, 3))
      else if b < 245
      then (if \<not> second (if b = 240 then 144 else 128) (if b = 244 then 144 else 192) bs then (REPLACEMENT, 1)
            else if \<not> cont bs 2 then (REPLACEMENT, 2)
            else if \<not> cont bs 3 then (REPLACEMENT, 3)
            else ((b - 240) * 262144 + lo 1 * 4096 + lo 2 * 64 + lo 3, 4))
      else (REPLACEMENT, 1))"

lemma utf8_step_pos [simp]: "0 < snd (utf8_step bs)"
  by (simp add: utf8_step_def Let_def)

lemma utf8_step_snd: "(c, n) = utf8_step bs \<Longrightarrow> 0 < n"
  using utf8_step_pos [of bs] by (metis snd_conv)

function str_decode :: "bytes \<Rightarrow> str" where
  "str_decode [] = []"
| "str_decode (b # bs) = (case utf8_step (b # bs) of (c, n) \<Rightarrow> c # str_decode (drop n (b # bs)))"
  by pat_completeness auto

termination
  by (relation "measure length") (auto dest!: utf8_step_snd)

section \<open>Decimal numbers\<close>

lemma nat_str_digits: "nat_str n \<noteq> [] \<and> (\<forall>c \<in> set (nat_str n). 48 \<le> c \<and> c < 58)"
proof (induction n rule: nat_str.induct)
  case (1 n)
  then show ?case by (cases "n < 10") (simp_all add: nat_str.simps [of n] ball_Un)
qed

lemma foldl_nat_str: "foldl (\<lambda>a c. a * 10 + (int c - 48)) 0 (nat_str n) = int n"
proof (induction n rule: nat_str.induct)
  case (1 n)
  have "int (n div 10) * 10 + int (n mod 10) = int n" by presburger
  then show ?case using 1 by (cases "n < 10") (simp_all add: nat_str.simps [of n])
qed

lemma strip_digits:
  assumes "\<forall>c \<in> set ds. 48 \<le> c \<and> c < 58"
  shows "py_strip py_space ds = ds"
proof -
  have "dropWhile py_space xs = xs" if "set xs \<subseteq> set ds" for xs
    using that assms by (cases xs) (auto simp: py_space_def)
  then show ?thesis by (simp add: py_strip_def)
qed

lemma int_literal_digits:
  assumes "ds \<noteq> []" and "\<forall>c \<in> set ds. 48 \<le> c \<and> c < 58"
  shows "int_literal ds = Some (foldl (\<lambda>a c. a * 10 + (int c - 48)) 0 ds)"
proof (cases ds)
  case (Cons c cs)
  then have "c \<noteq> 45" "c \<noteq> 43" using assms(2) by auto
  then show ?thesis using strip_digits [OF assms(2)] assms(2) by (simp add: Cons int_literal_def digits_val_def)
qed (simp add: assms(1))

section \<open>The round trip\<close>

lemma utf8_char_nonempty [simp]: "utf8_char c \<noteq> []"
  by (simp add: utf8_char_def)

lemma digits2: fixes c :: nat shows "c div 64 * 64 + c mod 64 = c"
  by simp

lemma digits3: fixes c :: nat shows "c div 4096 * 4096 + c div 64 mod 64 * 64 + c mod 64 = c"
proof -
  have "c div 64 = c div 4096 * 64 + c div 64 mod 64"
    using div_mult_mod_eq [of "c div 64" 64] by (simp add: div_mult2_eq [symmetric])
  then show ?thesis using digits2 [of c] by linarith
qed

lemma digits4: fixes c :: nat shows "c div 262144 * 262144 + c div 4096 mod 64 * 4096 + c div 64 mod 64 * 64 + c mod 64 = c"
proof -
  have "c div 4096 = c div 262144 * 64 + c div 4096 mod 64"
    using div_mult_mod_eq [of "c div 4096" 64] by (simp add: div_mult2_eq [symmetric])
  then show ?thesis using digits3 [of c] by linarith
qed

lemma lead_bounds:
  fixes c :: nat
  shows "128 \<le> c \<Longrightarrow> 2 \<le> c div 64" "c < 2048 \<Longrightarrow> c div 64 < 32" "c < 65536 \<Longrightarrow> c div 4096 < 16"
    "c < 1114112 \<Longrightarrow> c div 262144 < 5"
  using div_le_mono [of 128 c 64] by (auto intro!: less_mult_imp_div_less)

lemma second_bounds:
  fixes c :: nat
  shows "2048 \<le> c \<Longrightarrow> c div 4096 = 0 \<Longrightarrow> 32 \<le> c div 64 mod 64"
    and "c div 4096 = 13 \<Longrightarrow> \<not> (55296 \<le> c \<and> c \<le> 57343) \<Longrightarrow> c div 64 mod 64 < 32"
    and "65536 \<le> c \<Longrightarrow> c div 262144 = 0 \<Longrightarrow> 16 \<le> c div 4096 mod 64"
    and "c < 1114112 \<Longrightarrow> c div 262144 = 4 \<Longrightarrow> c div 4096 mod 64 < 16"
proof -
  define q r where "q = c div 64" and "r = c div 4096"
  have qr: "q = 64 * (c div 4096) + q mod 64" "r = 64 * (c div 262144) + r mod 64"
    using div_mult_mod_eq [of q 64] div_mult_mod_eq [of r 64] by (simp_all add: q_def r_def div_mult2_eq [symmetric])
  have q: "64 * q \<le> c" "c < 64 * q + 64" and r: "4096 * r \<le> c" "c < 4096 * r + 4096"
    using div_mult_mod_eq [of c 64] mod_less_divisor [of 64 c] div_mult_mod_eq [of c 4096] mod_less_divisor [of 4096 c]
    unfolding q_def r_def by linarith+
  show "2048 \<le> c \<Longrightarrow> c div 4096 = 0 \<Longrightarrow> 32 \<le> c div 64 mod 64"
    using qr(1) q unfolding q_def [symmetric] by linarith
  show "c div 4096 = 13 \<Longrightarrow> \<not> (55296 \<le> c \<and> c \<le> 57343) \<Longrightarrow> c div 64 mod 64 < 32"
    using qr(1) q mod_less_divisor [of 64 q] unfolding q_def [symmetric] by linarith
  show "65536 \<le> c \<Longrightarrow> c div 262144 = 0 \<Longrightarrow> 16 \<le> c div 4096 mod 64"
    using qr(2) r unfolding r_def [symmetric] by linarith
  show "c < 1114112 \<Longrightarrow> c div 262144 = 4 \<Longrightarrow> c div 4096 mod 64 < 16"
    using qr(2) r unfolding r_def [symmetric] by linarith
qed

lemma step_2: "2 \<le> h \<Longrightarrow> h < 32 \<Longrightarrow> l < 64 \<Longrightarrow> utf8_step ((192 + h) # (128 + l) # rest) = (h * 64 + l, 2)"
  by (simp add: utf8_step_def Let_def cont_def)

lemma step_3:
  "h < 16 \<Longrightarrow> m < 64 \<Longrightarrow> l < 64 \<Longrightarrow> (h = 0 \<Longrightarrow> 32 \<le> m) \<Longrightarrow> (h = 13 \<Longrightarrow> m < 32) \<Longrightarrow>
    utf8_step ((224 + h) # (128 + m) # (128 + l) # rest) = (h * 4096 + m * 64 + l, 3)"
  by (auto simp: utf8_step_def Let_def cont_def second_def)

lemma step_4:
  "h < 5 \<Longrightarrow> k < 64 \<Longrightarrow> m < 64 \<Longrightarrow> l < 64 \<Longrightarrow> (h = 0 \<Longrightarrow> 16 \<le> k) \<Longrightarrow> (h = 4 \<Longrightarrow> k < 16) \<Longrightarrow>
    utf8_step ((240 + h) # (128 + k) # (128 + m) # (128 + l) # rest) = (h * 262144 + k * 4096 + m * 64 + l, 4)"
  by (auto simp: utf8_step_def Let_def cont_def second_def numeral_3_eq_3)

lemma utf8_step_char:
  assumes "scalar c"
  shows "utf8_step (utf8_char c @ rest) = (c, length (utf8_char c))"
proof -
  have c: "c < 1114112" "\<not> (55296 \<le> c \<and> c \<le> 57343)" using assms by (simp_all add: scalar_def)
  consider "c < 128" | "128 \<le> c" "c < 2048" | "2048 \<le> c" "c < 65536" | "65536 \<le> c" by linarith
  then show ?thesis
  proof cases
    case 1
    then show ?thesis by (simp add: utf8_char_def utf8_step_def)
  next
    case 2
    then have u: "utf8_char c = [192 + c div 64, 128 + c mod 64]" by (simp add: utf8_char_def)
    have "utf8_step (utf8_char c @ rest) = (c div 64 * 64 + c mod 64, 2)"
      unfolding u append_Cons append_Nil using lead_bounds(1,2) [of c] 2 by (intro step_2) simp_all
    then show ?thesis unfolding digits2 by (simp add: u)
  next
    case 3
    then have u: "utf8_char c = [224 + c div 4096, 128 + c div 64 mod 64, 128 + c mod 64]" by (simp add: utf8_char_def)
    have "utf8_step (utf8_char c @ rest) = (c div 4096 * 4096 + c div 64 mod 64 * 64 + c mod 64, 3)"
      unfolding u append_Cons append_Nil using lead_bounds(3) [of c] second_bounds(1,2) [of c] 3 c by (intro step_3) simp_all
    then show ?thesis unfolding digits3 by (simp add: u)
  next
    case 4
    then have u: "utf8_char c = [240 + c div 262144, 128 + c div 4096 mod 64, 128 + c div 64 mod 64, 128 + c mod 64]"
      by (simp add: utf8_char_def)
    have "utf8_step (utf8_char c @ rest) = (c div 262144 * 262144 + c div 4096 mod 64 * 4096 + c div 64 mod 64 * 64 + c mod 64, 4)"
      unfolding u append_Cons append_Nil using lead_bounds(4) [of c] second_bounds(3,4) [of c] 4 c by (intro step_4) simp_all
    then show ?thesis unfolding digits4 by (simp add: u)
  qed
qed

lemma str_decode_char: "scalar c \<Longrightarrow> str_decode (utf8_char c @ bs) = c # str_decode bs"
  using utf8_step_char [of c bs] by (cases "utf8_char c") (simp_all del: str_decode.simps add: str_decode.simps(2))

lemma str_decode_chars: "\<forall>c \<in> set s. scalar c \<Longrightarrow> str_decode (concat (map utf8_char s)) = s"
  by (induction s) (simp_all add: str_decode_char)

lemma str_decode_encode: "str_encode s = Ret bs \<Longrightarrow> str_decode bs = s"
  by (auto simp: str_encode_def str_decode_chars split: if_splits)

lemma utf8_char_bytes: "scalar c \<Longrightarrow> b \<in> set (utf8_char c) \<Longrightarrow> b < 256"
  using lead_bounds(2-4) [of c] by (auto simp: utf8_char_def scalar_def split: if_splits)

end
