(* ===== verification/Tokenizer.thy ===== *)
theory Tokenizer
  imports Utf8 "HOL-Library.AList" "HOL-Library.Product_Lexorder"
begin

text \<open>
  \<^verbatim>\<open>model/tokenizer.py\<close>: byte-level BPE. Dictionaries are association lists in insertion order, which for \<^verbatim>\<open>merges\<close> is the
  merge rank. The split pattern is written out alternative by alternative as \<^verbatim>\<open>re\<close> tries them, over the Unicode classes
  \<^verbatim>\<open>\w\<close>, \<^verbatim>\<open>\d\<close>, \<^verbatim>\<open>\s\<close>, which are parameters (\<open>uni\<close>). Training keeps its incremental pair counts and index, as the
  code does.

  The central result is an exact description of the round trip (\<open>decode_encode_drops_underscores\<close>): decoding what was
  encoded gives back the text without its underscores, because no alternative of the pattern matches \<^verbatim>\<open>_\<close>.
\<close>

record uni =
  is_word :: "nat \<Rightarrow> bool"
  is_digit :: "nat \<Rightarrow> bool"
  is_space :: "nat \<Rightarrow> bool"

section \<open>The split pattern\<close>

definition UNDERSCORE :: nat where
  "UNDERSCORE = 95"

definition is_letter :: "uni \<Rightarrow> nat \<Rightarrow> bool" where
  "is_letter U c \<longleftrightarrow> is_word U c \<and> \<not> is_digit U c \<and> c \<noteq> UNDERSCORE"

definition is_symbol :: "uni \<Rightarrow> nat \<Rightarrow> bool" where
  "is_symbol U c \<longleftrightarrow> \<not> is_space U c \<and> \<not> is_word U c"

definition run_length :: "(nat \<Rightarrow> bool) \<Rightarrow> str \<Rightarrow> nat" where
  "run_length P s = length (takeWhile P s)"

text \<open>\<^verbatim>\<open>'(?:[sdmt]|ll|ve|re)\<close>\<close>

definition match_contraction :: "str \<Rightarrow> nat" where
  "match_contraction s =
     (case s of
        q # c # rest \<Rightarrow>
          if q \<noteq> 39 then 0
          else if c \<in> {115, 100, 109, 116} then 2
          else (case rest of
                  d # _ \<Rightarrow> if (c, d) \<in> {(108, 108), (118, 101), (114, 101)} then 3 else 0
                | [] \<Rightarrow> 0)
      | _ \<Rightarrow> 0)"

text \<open>An optional space, then a non-empty run of \<open>P\<close>: the space is taken if the run follows it, else given back.\<close>

definition match_run :: "(nat \<Rightarrow> bool) \<Rightarrow> str \<Rightarrow> nat" where
  "match_run P s =
     (case s of
        c # rest \<Rightarrow> if c = 32 \<and> 0 < run_length P rest then Suc (run_length P rest) else run_length P s
      | [] \<Rightarrow> 0)"

text \<open>\<^verbatim>\<open>\s+(?!\S)\<close>: the whole run at the end of the text, else all but its last character.\<close>

definition match_trailing :: "uni \<Rightarrow> str \<Rightarrow> nat" where
  "match_trailing U s = (let n = run_length (is_space U) s in if n = length s then n else n - 1)"

definition alternatives :: "uni \<Rightarrow> str \<Rightarrow> nat list" where
  "alternatives U s =
     [match_contraction s, match_run (is_letter U) s, match_run (is_digit U) s, match_run (is_symbol U) s,
      match_trailing U s, run_length (is_space U) s]"

text \<open>The first alternative that matches; 0 when none does.\<close>

definition match_len :: "uni \<Rightarrow> str \<Rightarrow> nat" where
  "match_len U s = (case filter (\<lambda>n. 0 < n) (alternatives U s) of [] \<Rightarrow> 0 | n # _ \<Rightarrow> n)"

function findall :: "uni \<Rightarrow> str \<Rightarrow> str list" where
  "findall U [] = []"
| "findall U (c # s) =
     (let n = match_len U (c # s) in
      if n = 0 then findall U s else take n (c # s) # findall U (drop n (c # s)))"
  by pat_completeness auto

termination
  by (relation "measure (length \<circ> snd)") auto

section \<open>The tokenizer and its tables\<close>

type_synonym pair = "nat \<times> nat"

record bpe =
  merges :: "(pair \<times> nat) list"
  special_tokens :: "(str \<times> nat) list"
  vocab :: "(nat \<times> bytes) list"
  tok_cache :: "(bytes \<times> nat list) list"

definition END_OF_TEXT :: str where
  "END_OF_TEXT = [60, 124, 101, 110, 100, 111, 102, 116, 101, 120, 116, 124, 62]"

definition BYTE_VOCAB_SIZE :: nat where
  "BYTE_VOCAB_SIZE = 256"

fun add_merges :: "(pair \<times> nat) list \<Rightarrow> (nat \<times> bytes) list \<Rightarrow> (nat \<times> bytes) list outcome" where
  "add_merges [] v = Ret v"
| "add_merges (((a, b), new_id) # ms) v =
     (case map_of v a of
        None \<Rightarrow> Raise KeyError
      | Some x \<Rightarrow>
          (case map_of v b of
             None \<Rightarrow> Raise KeyError
           | Some y \<Rightarrow> add_merges ms (AList.update new_id (x @ y) v)))"

fun add_specials :: "(str \<times> nat) list \<Rightarrow> (nat \<times> bytes) list \<Rightarrow> (nat \<times> bytes) list outcome" where
  "add_specials [] v = Ret v"
| "add_specials ((text, tid) # sp) v =
     (case str_encode text of
        Raise e \<Rightarrow> Raise e
      | Ret bs \<Rightarrow> add_specials sp (AList.update tid bs v))"

definition byte_vocab :: "(nat \<times> bytes) list" where
  "byte_vocab = map (\<lambda>i. (i, [i])) [0..<BYTE_VOCAB_SIZE]"

definition new_bpe :: "(pair \<times> nat) list \<Rightarrow> (str \<times> nat) list \<Rightarrow> bpe outcome" where
  "new_bpe ms sp =
     (case add_merges ms byte_vocab of
        Raise e \<Rightarrow> Raise e
      | Ret v \<Rightarrow>
          (case add_specials sp v of
             Raise e \<Rightarrow> Raise e
           | Ret v \<Rightarrow> Ret \<lparr>merges = ms, special_tokens = sp, vocab = v, tok_cache = []\<rparr>))"

definition rank :: "bpe \<Rightarrow> pair \<Rightarrow> nat option" where
  "rank t p = map_of (zip (map fst (merges t)) [0..<length (merges t)]) p"

definition bpe_vocab_size :: "bpe \<Rightarrow> nat" where
  "bpe_vocab_size t = length (vocab t)"

definition eos_id :: "bpe \<Rightarrow> nat outcome" where
  "eos_id t = (case map_of (special_tokens t) END_OF_TEXT of None \<Rightarrow> Raise KeyError | Some i \<Rightarrow> Ret i)"

section \<open>Encoding\<close>

fun apply_merge :: "pair \<Rightarrow> nat \<Rightarrow> nat list \<Rightarrow> nat list" where
  "apply_merge (a, b) new_id (x # y # zs) =
     (if x = a \<and> y = b then new_id # apply_merge (a, b) new_id zs else x # apply_merge (a, b) new_id (y # zs))"
| "apply_merge p new_id ids = ids"

definition pairs :: "nat list \<Rightarrow> pair list" where
  "pairs ids = zip ids (tl ids)"

text \<open>The scan for the available pair of least rank; the first one wins a tie.\<close>

definition better :: "bpe \<Rightarrow> (pair \<times> nat) option \<Rightarrow> pair \<Rightarrow> (pair \<times> nat) option" where
  "better t best p =
     (case rank t p of
        None \<Rightarrow> best
      | Some r \<Rightarrow> (case best of None \<Rightarrow> Some (p, r) | Some (_, br) \<Rightarrow> if r < br then Some (p, r) else best))"

definition best_pair :: "bpe \<Rightarrow> nat list \<Rightarrow> pair option" where
  "best_pair t ids = map_option fst (foldl (better t) None (pairs ids))"

lemma better_either: "better t acc q = Some (p, r) \<Longrightarrow> acc = Some (p, r) \<or> p = q \<and> rank t q = Some r"
  by (auto simp: better_def split: option.splits if_splits)

lemma foldl_better_in:
  "foldl (better t) acc ps = Some (p, r) \<Longrightarrow> acc = Some (p, r) \<or> p \<in> set ps \<and> rank t p = Some r"
proof (induction ps arbitrary: acc)
  case Nil
  then show ?case by simp
next
  case (Cons q ps)
  then show ?case using Cons.IH [of "better t acc q"] better_either [of t acc q p r] by auto
qed

lemma best_pair_in: "best_pair t ids = Some p \<Longrightarrow> p \<in> set (pairs ids)"
  using foldl_better_in [of t None "pairs ids"] by (auto simp: best_pair_def)

lemma length_apply_merge_le: "length (apply_merge p n ids) \<le> length ids"
  by (induction p n ids rule: apply_merge.induct) auto

lemma length_apply_merge: "p \<in> set (pairs ids) \<Longrightarrow> length (apply_merge p n ids) < length ids"
proof (induction p n ids rule: apply_merge.induct)
  case (1 a b n x y zs)
  then show ?case
    using length_apply_merge_le [of "(a, b)" n zs] by (auto simp: pairs_def)
qed (auto simp: pairs_def)

function merge_loop :: "bpe \<Rightarrow> nat list \<Rightarrow> nat list" where
  "merge_loop t ids =
     (if length ids \<le> 1 then ids
      else (case best_pair t ids of
              None \<Rightarrow> ids
            | Some p \<Rightarrow> merge_loop t (apply_merge p (the (map_of (merges t) p)) ids)))"
  by pat_completeness auto

termination
  by (relation "measure (length \<circ> snd)") (auto dest: best_pair_in intro: length_apply_merge)

declare merge_loop.simps [simp del]

definition encode_piece :: "bytes \<Rightarrow> bpe \<Rightarrow> nat list \<times> bpe" where
  "encode_piece piece t =
     (case map_of (tok_cache t) piece of
        Some ids \<Rightarrow> (ids, t)
      | None \<Rightarrow> let ids = merge_loop t piece in (ids, t\<lparr>tok_cache := AList.update piece ids (tok_cache t)\<rparr>))"

fun encode_pieces :: "str list \<Rightarrow> bpe \<Rightarrow> nat list outcome \<times> bpe" where
  "encode_pieces [] t = (Ret [], t)"
| "encode_pieces (s # ss) t =
     (case str_encode s of
        Raise e \<Rightarrow> (Raise e, t)
      | Ret bs \<Rightarrow>
          (case encode_piece bs t of (ids, t) \<Rightarrow> bindS (encode_pieces ss t) (\<lambda>out t. (Ret (ids @ out), t))))"

definition encode_ordinary :: "uni \<Rightarrow> str \<Rightarrow> bpe \<Rightarrow> nat list outcome \<times> bpe" where
  "encode_ordinary U text t = encode_pieces (findall U text) t"

text \<open>\<^verbatim>\<open>_special_re.split\<close>: the text between special tokens and the special tokens themselves, in order. Special tokens are
  non-empty strings.\<close>

function split_special :: "str list \<Rightarrow> str \<Rightarrow> str \<Rightarrow> str list" where
  "split_special sp acc [] = [acc]"
| "split_special sp acc (c # s) =
     (case find (\<lambda>t. t \<noteq> [] \<and> take (length t) (c # s) = t) sp of
        Some t \<Rightarrow> acc # t # split_special sp [] (drop (length t) (c # s))
      | None \<Rightarrow> split_special sp (acc @ [c]) s)"
  by pat_completeness auto

termination
  by (relation "measure (length \<circ> snd \<circ> snd)") (auto simp: find_Some_iff)

fun encode_chunks :: "uni \<Rightarrow> str list \<Rightarrow> bpe \<Rightarrow> nat list outcome \<times> bpe" where
  "encode_chunks U [] t = (Ret [], t)"
| "encode_chunks U (chunk # cs) t =
     (if chunk = [] then encode_chunks U cs t
      else bindS (case map_of (special_tokens t) chunk of Some tid \<Rightarrow> (Ret [tid], t) | None \<Rightarrow> encode_ordinary U chunk t)
             (\<lambda>ids t. bindS (encode_chunks U cs t) (\<lambda>out t. (Ret (ids @ out), t))))"

definition encode :: "uni \<Rightarrow> str \<Rightarrow> bool \<Rightarrow> bpe \<Rightarrow> nat list outcome \<times> bpe" where
  "encode U text allowed_special t =
     (if \<not> allowed_special \<or> special_tokens t = [] then encode_ordinary U text t
      else encode_chunks U (split_special (map fst (special_tokens t)) [] text) t)"

section \<open>Decoding\<close>

fun token_bytes :: "bpe \<Rightarrow> nat list \<Rightarrow> bytes outcome" where
  "token_bytes t [] = Ret []"
| "token_bytes t (i # ids) =
     (case map_of (vocab t) i of
        None \<Rightarrow> Raise KeyError
      | Some bs \<Rightarrow> (case token_bytes t ids of Raise e \<Rightarrow> Raise e | Ret out \<Rightarrow> Ret (bs @ out)))"

definition decode :: "bpe \<Rightarrow> nat list \<Rightarrow> str outcome" where
  "decode t ids = (case token_bytes t ids of Raise e \<Rightarrow> Raise e | Ret buf \<Rightarrow> Ret (str_decode buf))"

section \<open>Training\<close>

definition dict_get :: "('k \<times> int) list \<Rightarrow> 'k \<Rightarrow> int" where
  "dict_get d k = (case map_of d k of None \<Rightarrow> 0 | Some v \<Rightarrow> v)"

definition count_add :: "'k \<Rightarrow> int \<Rightarrow> ('k \<times> int) list \<Rightarrow> ('k \<times> int) list" where
  "count_add k f d = AList.update k (dict_get d k + f) d"

definition count_sub :: "'k \<Rightarrow> int \<Rightarrow> ('k \<times> int) list \<Rightarrow> ('k \<times> int) list" where
  "count_sub k f d = (let n = dict_get d k - f in if n \<le> 0 then AList.delete k d else AList.update k n d)"

fun count_pieces :: "str list \<Rightarrow> (bytes \<times> int) list \<Rightarrow> (bytes \<times> int) list outcome" where
  "count_pieces [] d = Ret d"
| "count_pieces (s # ss) d = (case str_encode s of Raise e \<Rightarrow> Raise e | Ret bs \<Rightarrow> count_pieces ss (count_add bs 1 d))"

type_synonym pair_index = "(pair \<times> int) list \<times> (pair \<Rightarrow> nat set)"

fun add_pairs :: "nat \<Rightarrow> int \<Rightarrow> pair list \<Rightarrow> pair_index \<Rightarrow> pair_index" where
  "add_pairs wi f [] ix = ix"
| "add_pairs wi f (p # ps) (pc, wh) = add_pairs wi f ps (count_add p f pc, wh(p := insert wi (wh p)))"

fun retract_pairs :: "nat \<Rightarrow> int \<Rightarrow> pair list \<Rightarrow> pair_index \<Rightarrow> pair_index" where
  "retract_pairs wi f [] ix = ix"
| "retract_pairs wi f (p # ps) (pc, wh) = retract_pairs wi f ps (count_sub p f pc, wh(p := wh p - {wi}))"

fun index_words :: "nat \<Rightarrow> (nat list \<times> int) list \<Rightarrow> pair_index \<Rightarrow> pair_index" where
  "index_words wi [] ix = ix"
| "index_words wi ((w, f) # wfs) ix = index_words (Suc wi) wfs (add_pairs wi f (pairs w) ix)"

text \<open>A word with its frequency; \<^verbatim>\<open>list(affected)\<close> is enumerated in increasing order.\<close>

type_synonym train_state = "(nat list \<times> int) list \<times> pair_index"

definition rewrite_word :: "pair \<Rightarrow> nat \<Rightarrow> nat \<Rightarrow> train_state \<Rightarrow> train_state" where
  "rewrite_word best new_id wi st =
     (case st of (ws, ix) \<Rightarrow>
        let (w, f) = ws ! wi; w' = apply_merge best new_id w
        in (ws[wi := (w', f)], add_pairs wi f (pairs w') (retract_pairs wi f (pairs w) ix)))"

definition best_count :: "(pair \<times> int) list \<Rightarrow> int \<times> pair" where
  "best_count pc = Max (set (map (\<lambda>(p, c). (c, p)) pc))"

definition merge_best :: "pair \<Rightarrow> nat \<Rightarrow> train_state \<Rightarrow> train_state" where
  "merge_best best new_id st =
     (case fold (rewrite_word best new_id) (sorted_list_of_set (snd (snd st) best)) st of
        (ws, (pc, wh)) \<Rightarrow> (ws, (pc, wh(best := {}))))"

fun train_loop :: "nat \<Rightarrow> int \<Rightarrow> nat \<Rightarrow> train_state \<Rightarrow> (pair \<times> nat) list" where
  "train_loop 0 minf next_id st = []"
| "train_loop (Suc n) minf next_id st =
     (let pc = fst (snd st) in
      if pc = [] then []
      else let (c, best) = best_count pc in
        if c < minf then []
        else (best, next_id) # train_loop n minf (Suc next_id) (merge_best best next_id st))"

definition start_state :: "(bytes \<times> int) list \<Rightarrow> train_state" where
  "start_state d = (d, index_words 0 d ([], \<lambda>_. {}))"

definition train :: "uni \<Rightarrow> str list \<Rightarrow> int \<Rightarrow> str list \<Rightarrow> int \<Rightarrow> bpe outcome" where
  "train U corpus vsize specials minf =
     (let n_merges = vsize - int BYTE_VOCAB_SIZE - int (length specials) in
      if n_merges < 0 then Raise (ValueError ''vocab_size is smaller than the byte tokens plus special tokens'')
      else (case count_pieces (concat (map (findall U) corpus)) [] of
              Raise e \<Rightarrow> Raise e
            | Ret d \<Rightarrow>
                let ms = train_loop (nat n_merges) minf BYTE_VOCAB_SIZE (start_state d);
                    next_id = BYTE_VOCAB_SIZE + length ms
                in new_bpe ms (fold (\<lambda>(k, v) sp. AList.update k v sp) (zip specials [next_id..<next_id + length specials]) [])))"

section \<open>Persistence\<close>

text \<open>The JSON payload; writing and reading the text is the json module's round trip.\<close>

record bpe_payload =
  version :: nat
  p_vocab_size :: nat
  p_special_tokens :: "(str \<times> nat) list"
  p_merges :: "(nat \<times> nat \<times> nat) list"

definition save_payload :: "bpe \<Rightarrow> bpe_payload" where
  "save_payload t =
     \<lparr>version = 1, p_vocab_size = bpe_vocab_size t, p_special_tokens = special_tokens t,
      p_merges = map (\<lambda>((a, b), i). (a, b, i)) (merges t)\<rparr>"

definition dict_of :: "('k \<times> 'v) list \<Rightarrow> ('k \<times> 'v) list" where
  "dict_of kvs = fold (\<lambda>(k, v) d. AList.update k v d) kvs []"

definition load_payload :: "bpe_payload \<Rightarrow> bpe outcome" where
  "load_payload p =
     (if version p \<noteq> 1 then Raise (ValueError ''unsupported tokenizer format'')
      else new_bpe (dict_of (map (\<lambda>(a, b, i). ((a, b), i)) (p_merges p))) (p_special_tokens p))"

section \<open>The pattern misses nothing but the underscore\<close>

definition uni_doc :: "uni \<Rightarrow> bool" where
  "uni_doc U \<longleftrightarrow> is_word U UNDERSCORE \<and> \<not> is_digit U UNDERSCORE \<and> \<not> is_space U UNDERSCORE \<and> is_space U 32 \<and>
     (\<forall>c. is_space U c \<longrightarrow> \<not> is_word U c) \<and> (\<forall>c. is_digit U c \<longrightarrow> is_word U c)"

lemma run_length_le: "run_length P s \<le> length s"
  by (simp add: run_length_def length_takeWhile_le)

lemma run_length_take: "c \<in> set (take (run_length P s) s) \<Longrightarrow> P c"
  by (metis run_length_def set_takeWhileD takeWhile_eq_take)

lemma match_run_le: "match_run P s \<le> length s"
proof (cases s)
  case (Cons c rest)
  then show ?thesis using run_length_le [of P rest] run_length_le [of P s] by (simp add: match_run_def)
qed (simp add: match_run_def)

lemma match_run_chars: "c \<in> set (take (match_run P s) s) \<Longrightarrow> c = 32 \<or> P c"
proof (cases s)
  case (Cons x rest)
  then show "c \<in> set (take (match_run P s) s) \<Longrightarrow> c = 32 \<or> P c"
    using run_length_take [of c P rest] run_length_take [of c P s] by (auto simp: match_run_def split: if_splits)
qed simp

lemma match_trailing_le: "match_trailing U s \<le> run_length (is_space U) s"
  by (simp add: match_trailing_def Let_def)

lemma match_len_alternative: "match_len U s = 0 \<or> match_len U s \<in> set (alternatives U s)"
proof (cases "filter (\<lambda>n. 0 < n) (alternatives U s)")
  case (Cons n ns)
  then have "n \<in> set (filter (\<lambda>n. 0 < n) (alternatives U s))" by simp
  then have "n \<in> set (alternatives U s)" by simp
  then show ?thesis using Cons by (simp add: match_len_def)
qed (simp add: match_len_def)

lemma contraction_chars:
  "c \<in> set (take (match_contraction s) s) \<Longrightarrow> c \<in> {39, 115, 100, 109, 116, 108, 118, 101, 114}"
  by (auto simp: match_contraction_def split: list.splits if_splits)

lemma matched_no_underscore:
  assumes "uni_doc U" and "c \<in> set (take (match_len U s) s)"
  shows "c \<noteq> UNDERSCORE"
proof -
  have "match_len U s \<in> set (alternatives U s)" using match_len_alternative [of U s] assms(2) by auto
  then consider "c \<in> set (take (match_contraction s) s)" | "c \<in> set (take (match_run (is_letter U) s) s)"
    | "c \<in> set (take (match_run (is_digit U) s) s)" | "c \<in> set (take (match_run (is_symbol U) s) s)"
    | "match_len U s \<le> run_length (is_space U) s"
    using assms(2) match_trailing_le [of U s] unfolding alternatives_def by auto
  then show ?thesis
  proof cases
    case 5
    then have "is_space U c"
      using assms(2) run_length_take [of c "is_space U" s] by (meson set_take_subset_set_take subsetD)
    then show ?thesis using assms(1) by (auto simp: uni_doc_def)
  qed (use assms(1) in \<open>auto simp: uni_doc_def is_letter_def is_symbol_def UNDERSCORE_def dest!: match_run_chars contraction_chars\<close>)
qed

lemma match_len_zero:
  assumes "match_len U (c # s) = 0"
  shows "c = UNDERSCORE"
proof (rule ccontr)
  assume ne: "c \<noteq> UNDERSCORE"
  have z: "n = 0" if n: "n \<in> set (alternatives U (c # s))" for n
  proof (rule ccontr)
    assume "n \<noteq> 0"
    then obtain m ms where f: "filter (\<lambda>n. 0 < n) (alternatives U (c # s)) = m # ms"
      using n by (cases "filter (\<lambda>n. 0 < n) (alternatives U (c # s))") (auto simp: filter_empty_conv)
    then have "m \<in> set (filter (\<lambda>n. 0 < n) (alternatives U (c # s)))" by simp
    then have "0 < m" by simp
    then show False using f assms by (simp add: match_len_def)
  qed
  have r: "0 < match_run P (c # s)" if "P c" for P using that by (simp add: match_run_def run_length_def)
  have sp: "0 < run_length (is_space U) (c # s)" if "is_space U c" using that by (simp add: run_length_def)
  have "is_letter U c \<or> is_digit U c \<or> is_symbol U c \<or> is_space U c"
    using ne by (auto simp: is_letter_def is_symbol_def)
  moreover have "match_run (is_letter U) (c # s) = 0" "match_run (is_digit U) (c # s) = 0"
    "match_run (is_symbol U) (c # s) = 0" "run_length (is_space U) (c # s) = 0"
    by (rule z, simp add: alternatives_def)+
  ultimately show False
    using r [of "is_letter U"] r [of "is_digit U"] r [of "is_symbol U"] sp by auto
qed

lemma findall_drops_underscores:
  assumes "uni_doc U"
  shows "concat (findall U s) = filter (\<lambda>c. c \<noteq> UNDERSCORE) s"
  using assms
proof (induction U s rule: findall.induct)
  case (1 U)
  then show ?case by simp
next
  case (2 U c s)
  let ?n = "match_len U (c # s)"
  show ?case
  proof (cases "?n = 0")
    case True
    then show ?thesis using 2 match_len_zero [OF True] by simp
  next
    case False
    have "filter (\<lambda>c. c \<noteq> UNDERSCORE) (take ?n (c # s)) = take ?n (c # s)"
      using matched_no_underscore [OF "2.prems", of _ "c # s"] by (intro filter_True) blast
    then have "filter (\<lambda>c. c \<noteq> UNDERSCORE) (c # s) = take ?n (c # s) @ filter (\<lambda>c. c \<noteq> UNDERSCORE) (drop ?n (c # s))"
      by (metis append_take_drop_id filter_append)
    then show ?thesis using 2(2) [OF refl False "2.prems"] False by (simp add: Let_def)
  qed
qed

section \<open>Merging keeps the bytes\<close>

text \<open>The tables are consistent: every byte stands for itself, every merged id for the bytes of its two parts, and the memo
  holds what the merge loop computes.\<close>

definition merge_ok :: "(nat \<times> bytes) list \<Rightarrow> pair \<times> nat \<Rightarrow> bool" where
  "merge_ok v m \<longleftrightarrow> (\<exists>x y. map_of v (fst (fst m)) = Some x \<and> map_of v (snd (fst m)) = Some y \<and> map_of v (snd m) = Some (x @ y))"

definition bpe_wf :: "bpe \<Rightarrow> bool" where
  "bpe_wf t \<longleftrightarrow>
     (\<forall>i < BYTE_VOCAB_SIZE. map_of (vocab t) i = Some [i]) \<and> (\<forall>m \<in> set (merges t). merge_ok (vocab t) m) \<and>
     (\<forall>(piece, ids) \<in> set (tok_cache t). ids = merge_loop t piece)"

lemma token_bytes_append:
  "token_bytes t (xs @ ys) =
    (case token_bytes t xs of Raise e \<Rightarrow> Raise e
     | Ret x \<Rightarrow> (case token_bytes t ys of Raise e \<Rightarrow> Raise e | Ret y \<Rightarrow> Ret (x @ y)))"
  by (induction xs) (auto split: option.splits outcome.splits)

lemma apply_merge_bytes:
  assumes "merge_ok (vocab t) (p, n)" and "token_bytes t ids = Ret bs"
  shows "token_bytes t (apply_merge p n ids) = Ret bs"
  using assms
proof (induction p n ids arbitrary: bs rule: apply_merge.induct)
  case (1 a b n x y zs)
  obtain u v where ab: "map_of (vocab t) a = Some u" "map_of (vocab t) b = Some v" "map_of (vocab t) n = Some (u @ v)"
    using "1.prems"(1) by (auto simp: merge_ok_def)
  show ?case
  proof (cases "x = a \<and> y = b")
    case True
    then obtain r where "token_bytes t zs = Ret r" "bs = u @ v @ r"
      using "1.prems"(2) ab by (auto split: outcome.splits)
    then show ?thesis using "1.IH"(1) [OF True "1.prems"(1)] True ab by simp
  next
    case False
    then obtain u' r where "map_of (vocab t) x = Some u'" "token_bytes t (y # zs) = Ret r" "bs = u' @ r"
      using "1.prems"(2) by (auto split: outcome.splits option.splits)
    then show ?thesis using "1.IH"(2) [OF False "1.prems"(1)] False by auto
  qed
qed simp_all

lemma rank_merge: "rank t p = Some r \<Longrightarrow> \<exists>n. map_of (merges t) p = Some n"
proof -
  assume "rank t p = Some r"
  then have "p \<in> fst ` set (merges t)" by (auto simp: rank_def dest!: map_of_SomeD set_zip_leftD)
  then show ?thesis by (simp add: map_of_eq_None_iff flip: not_None_eq)
qed

lemma best_pair_merge:
  assumes "best_pair t ids = Some p"
  shows "\<exists>n. map_of (merges t) p = Some n"
  using assms foldl_better_in [of t None "pairs ids"] rank_merge [of t p] by (auto simp: best_pair_def)

lemma merge_loop_bytes:
  assumes "\<forall>m \<in> set (merges t). merge_ok (vocab t) m" and "token_bytes t ids = Ret bs"
  shows "token_bytes t (merge_loop t ids) = Ret bs"
  using assms
proof (induction t ids rule: merge_loop.induct)
  case (1 t ids)
  show ?case
  proof (cases "length ids \<le> 1 \<or> best_pair t ids = None")
    case True
    then show ?thesis using "1.prems" by (auto simp: merge_loop.simps [of t ids] split: option.splits)
  next
    case False
    then obtain p where p: "best_pair t ids = Some p" "\<not> length ids \<le> 1" by auto
    obtain n where n: "map_of (merges t) p = Some n" using best_pair_merge [OF p(1)] by blast
    then have "merge_ok (vocab t) (p, n)" using "1.prems"(1) by (auto dest: map_of_SomeD)
    then have "token_bytes t (merge_loop t (apply_merge p (the (map_of (merges t) p)) ids)) = Ret bs"
      using "1.IH" [OF p(2,1) "1.prems"(1)] apply_merge_bytes [OF _ "1.prems"(2)] n by simp
    then show ?thesis using p by (simp add: merge_loop.simps [of t ids])
  qed
qed

lemma token_bytes_raw: "\<forall>i < BYTE_VOCAB_SIZE. map_of (vocab t) i = Some [i] \<Longrightarrow> \<forall>b \<in> set bs. b < BYTE_VOCAB_SIZE \<Longrightarrow> token_bytes t bs = Ret bs"
  by (induction bs) simp_all

lemma merge_loop_cache: "merge_loop (t\<lparr>tok_cache := c\<rparr>) ids = merge_loop t ids"
proof (induction t ids rule: merge_loop.induct)
  case (1 t ids)
  have r: "rank (t\<lparr>tok_cache := c\<rparr>) = rank t" by (simp add: rank_def [abs_def])
  then have b: "best_pair (t\<lparr>tok_cache := c\<rparr>) ids = best_pair t ids" by (simp add: best_pair_def better_def [abs_def])
  show ?case
    using 1 b by (subst (1 2) merge_loop.simps) (auto split: option.splits)
qed

lemma set_alist_update: "set (AList.update k v al) \<subseteq> insert (k, v) (set al)"
  by (induction al) auto

lemma encode_piece_ok:
  assumes "bpe_wf t" and "\<forall>b \<in> set piece. b < BYTE_VOCAB_SIZE"
  shows "\<exists>ids c. encode_piece piece t = (ids, t\<lparr>tok_cache := c\<rparr>) \<and> bpe_wf (t\<lparr>tok_cache := c\<rparr>) \<and>
    ids = merge_loop t piece \<and> token_bytes t ids = Ret piece"
proof -
  have tb: "token_bytes t (merge_loop t piece) = Ret piece"
    using assms token_bytes_raw [of t piece] by (intro merge_loop_bytes) (simp_all add: bpe_wf_def)
  show ?thesis
  proof (cases "map_of (tok_cache t) piece")
    case (Some ids)
    then have "ids = merge_loop t piece" using assms(1) by (auto simp: bpe_wf_def dest!: map_of_SomeD)
    then show ?thesis using Some assms(1) tb by (intro exI [of _ ids] exI [of _ "tok_cache t"]) (simp add: encode_piece_def)
  next
    case None
    let ?c = "AList.update piece (merge_loop t piece) (tok_cache t)"
    have "set ?c \<subseteq> insert (piece, merge_loop t piece) (set (tok_cache t))" by (rule set_alist_update)
    then have "bpe_wf (t\<lparr>tok_cache := ?c\<rparr>)" using assms(1) by (auto simp: bpe_wf_def merge_loop_cache)
    then show ?thesis
      using None tb by (intro exI [of _ "merge_loop t piece"] exI [of _ ?c]) (simp add: encode_piece_def Let_def)
  qed
qed

lemma token_bytes_cache [simp]: "token_bytes (t\<lparr>tok_cache := c\<rparr>) ids = token_bytes t ids"
  by (induction ids) (auto split: option.splits)

lemma encode_pieces_ok:
  assumes "bpe_wf t" and "\<forall>s \<in> set ss. \<forall>c \<in> set s. scalar c"
  shows "\<exists>ids c. encode_pieces ss t = (Ret ids, t\<lparr>tok_cache := c\<rparr>) \<and> bpe_wf (t\<lparr>tok_cache := c\<rparr>) \<and>
    token_bytes t ids = Ret (concat (map utf8_char (concat ss)))"
  using assms
proof (induction ss arbitrary: t)
  case Nil
  then show ?case by (intro exI [of _ "[]"] exI [of _ "tok_cache t"]) simp
next
  case (Cons s ss)
  let ?bs = "concat (map utf8_char s)"
  have e: "str_encode s = Ret ?bs" using Cons.prems(2) by (simp add: str_encode_def)
  have "\<forall>b \<in> set ?bs. b < BYTE_VOCAB_SIZE" using Cons.prems(2) utf8_char_bytes by (auto simp: BYTE_VOCAB_SIZE_def)
  then obtain ids c where p: "encode_piece ?bs t = (ids, t\<lparr>tok_cache := c\<rparr>)" "bpe_wf (t\<lparr>tok_cache := c\<rparr>)"
    "token_bytes t ids = Ret ?bs"
    using encode_piece_ok [OF Cons.prems(1)] by blast
  obtain out d where o: "encode_pieces ss (t\<lparr>tok_cache := c\<rparr>) = (Ret out, t\<lparr>tok_cache := d\<rparr>)" "bpe_wf (t\<lparr>tok_cache := d\<rparr>)"
    "token_bytes t out = Ret (concat (map utf8_char (concat ss)))"
    using Cons.IH [OF p(2)] Cons.prems(2) by auto
  show ?case
    using e p o by (intro exI [of _ "ids @ out"] exI [of _ d]) (simp add: token_bytes_append)
qed

lemma ordinary_round_trip:
  assumes "uni_doc U" and "bpe_wf t" and "\<forall>c \<in> set text. scalar c"
  shows "\<exists>ids t'. encode_ordinary U text t = (Ret ids, t') \<and> bpe_wf t' \<and> decode t' ids = Ret (filter (\<lambda>c. c \<noteq> UNDERSCORE) text)"
proof -
  have cc: "concat (findall U text) = filter (\<lambda>c. c \<noteq> UNDERSCORE) text" by (rule findall_drops_underscores [OF assms(1)])
  have sc: "\<forall>c \<in> set (concat (findall U text)). scalar c" unfolding cc using assms(3) by simp
  then have "\<forall>s \<in> set (findall U text). \<forall>c \<in> set s. scalar c" by auto
  then obtain ids c where "encode_pieces (findall U text) t = (Ret ids, t\<lparr>tok_cache := c\<rparr>)" "bpe_wf (t\<lparr>tok_cache := c\<rparr>)"
    "token_bytes t ids = Ret (concat (map utf8_char (concat (findall U text))))"
    using encode_pieces_ok [OF assms(2)] by blast
  then show ?thesis
    using str_decode_chars [OF sc] cc by (auto simp: encode_ordinary_def decode_def)
qed

section \<open>Tables of consecutive merges\<close>

text \<open>What training produces: ids \<open>n, n + 1, \<dots>\<close>, each from two parts that already have an id.\<close>

fun consecutive :: "nat \<Rightarrow> (pair \<times> nat) list \<Rightarrow> bool" where
  "consecutive n [] = True"
| "consecutive n (((a, b), i) # ms) = (i = n \<and> a < n \<and> b < n \<and> consecutive (Suc n) ms)"

lemma map_of_update: "map_of (AList.update k v al) = (map_of al)(k \<mapsto> v)"
  by (rule update_conv')

lemma merge_ok_update:
  "merge_ok v m \<Longrightarrow> k \<notin> {fst (fst m), snd (fst m), snd m} \<Longrightarrow> merge_ok (AList.update k x v) m"
  by (auto simp: merge_ok_def map_of_update)

lemma add_merges_ok:
  assumes "consecutive n ms" and "\<forall>i < n. \<exists>x. map_of v i = Some x"
  shows "\<exists>v'. add_merges ms v = Ret v' \<and> (\<forall>i < n. map_of v' i = map_of v i) \<and>
    (\<forall>i < n + length ms. \<exists>x. map_of v' i = Some x) \<and>
    (\<forall>m \<in> set ms. merge_ok v' m \<and> fst (fst m) < n + length ms \<and> snd (fst m) < n + length ms \<and> snd m < n + length ms)"
  using assms
proof (induction ms arbitrary: n v)
  case Nil
  then show ?case by simp
next
  case (Cons m ms)
  obtain a b where m: "m = ((a, b), n)" "a < n" "b < n" "consecutive (Suc n) ms"
    using Cons.prems(1) by (cases m; cases "fst m") auto
  obtain x y where xy: "map_of v a = Some x" "map_of v b = Some y" using Cons.prems(2) m by metis
  let ?v = "AList.update n (x @ y) v"
  have "\<forall>i < Suc n. \<exists>z. map_of ?v i = Some z" using Cons.prems(2) by (auto simp: map_of_update less_Suc_eq)
  from Cons.IH [OF m(4) this] obtain v' where v': "add_merges ms ?v = Ret v'" "\<forall>i < Suc n. map_of v' i = map_of ?v i"
    "\<forall>i < Suc n + length ms. \<exists>z. map_of v' i = Some z"
    "\<forall>m \<in> set ms. merge_ok v' m \<and> fst (fst m) < Suc n + length ms \<and> snd (fst m) < Suc n + length ms \<and> snd m < Suc n + length ms"
    by blast
  have "merge_ok v' m" using v'(2) m xy by (auto simp: merge_ok_def map_of_update)
  then show ?case
    using v' m xy by (intro exI [of _ v']) (auto simp: map_of_update)
qed

lemma add_specials_ok:
  assumes "\<forall>(s, i) \<in> set sp. n \<le> i \<and> (\<forall>c \<in> set s. scalar c)"
  shows "\<exists>v'. add_specials sp v = Ret v' \<and> (\<forall>i < n. map_of v' i = map_of v i)"
  using assms
proof (induction sp arbitrary: v)
  case Nil
  then show ?case by simp
next
  case (Cons x sp)
  obtain s i where x: "x = (s, i)" by (cases x)
  have "str_encode s = Ret (concat (map utf8_char s))" "n \<le> i" using Cons.prems x by (auto simp: str_encode_def)
  then show ?case
    using Cons.IH [of "AList.update i (concat (map utf8_char s)) v"] Cons.prems x by (auto simp: map_of_update)
qed

lemma map_of_byte_vocab: "map_of byte_vocab i = (if i < BYTE_VOCAB_SIZE then Some [i] else None)"
  by (simp add: byte_vocab_def map_of_map_restrict comp_def restrict_map_def)

lemma new_bpe_wf:
  assumes ms: "consecutive BYTE_VOCAB_SIZE ms"
    and sp: "\<forall>(s, i) \<in> set sp. BYTE_VOCAB_SIZE + length ms \<le> i \<and> (\<forall>c \<in> set s. scalar c)"
  shows "\<exists>t. new_bpe ms sp = Ret t \<and> bpe_wf t \<and> merges t = ms \<and> special_tokens t = sp"
proof -
  have "\<forall>i < BYTE_VOCAB_SIZE. \<exists>x. map_of byte_vocab i = Some x" by (simp add: map_of_byte_vocab)
  from add_merges_ok [OF ms this] obtain v where v: "add_merges ms byte_vocab = Ret v"
    "\<forall>i < BYTE_VOCAB_SIZE. map_of v i = map_of byte_vocab i"
    "\<forall>m \<in> set ms. merge_ok v m \<and> fst (fst m) < BYTE_VOCAB_SIZE + length ms \<and> snd (fst m) < BYTE_VOCAB_SIZE + length ms \<and>
      snd m < BYTE_VOCAB_SIZE + length ms" by blast
  obtain v' where v': "add_specials sp v = Ret v'" "\<forall>i < BYTE_VOCAB_SIZE + length ms. map_of v' i = map_of v i"
    using add_specials_ok [OF sp] by blast
  have "\<forall>m \<in> set ms. merge_ok v' m" using v(3) v'(2) by (simp add: merge_ok_def)
  moreover have "\<forall>i < BYTE_VOCAB_SIZE. map_of v' i = Some [i]" using v(2) v'(2) by (simp add: map_of_byte_vocab)
  ultimately show ?thesis using v(1) v'(1) by (simp add: new_bpe_def bpe_wf_def)
qed

section \<open>Incremental pair counts\<close>

declare split_paired_All [simp del] split_paired_Ex [simp del]

text \<open>The reference: count every adjacent pair of every word from scratch.\<close>

definition wcount :: "(nat list \<times> int) list \<Rightarrow> pair \<Rightarrow> int" where
  "wcount ws p = sum_list (map (\<lambda>(w, f). f * int (count_list (pairs w) p)) ws)"

definition all_pairs :: "(nat list \<times> int) list \<Rightarrow> pair set" where
  "all_pairs ws = (\<Union>(w, f) \<in> set ws. set (pairs w))"

fun ref_loop :: "nat \<Rightarrow> int \<Rightarrow> nat \<Rightarrow> (nat list \<times> int) list \<Rightarrow> (pair \<times> nat) list" where
  "ref_loop 0 minf next_id ws = []"
| "ref_loop (Suc n) minf next_id ws =
     (if all_pairs ws = {} then []
      else let (c, best) = Max ((\<lambda>p. (wcount ws p, p)) ` all_pairs ws) in
        if c < minf then []
        else (best, next_id) # ref_loop n minf (Suc next_id) (map (\<lambda>(w, f). (apply_merge best next_id w, f)) ws))"

definition counts :: "('k \<times> int) list \<Rightarrow> ('k \<Rightarrow> int) \<Rightarrow> bool" where
  "counts pc F \<longleftrightarrow> (\<forall>p. map_of pc p = (if 0 < F p then Some (F p) else None)) \<and> (\<forall>p. 0 \<le> F p) \<and> distinct (map fst pc)"

definition index_ok :: "train_state \<Rightarrow> bool" where
  "index_ok st \<longleftrightarrow>
     (case st of (ws, (pc, wh)) \<Rightarrow>
        counts pc (wcount ws) \<and> (\<forall>(w, f) \<in> set ws. 0 < f) \<and>
        (\<forall>p. wh p = {i. i < length ws \<and> p \<in> set (pairs (fst (ws ! i)))}))"

lemma counts_get:
  assumes "counts pc F"
  shows "dict_get pc p = F p"
proof -
  have "map_of pc p = (if 0 < F p then Some (F p) else None)" "0 \<le> F p" using assms by (simp_all add: counts_def)
  then show ?thesis by (cases "0 < F p") (simp_all add: dict_get_def)
qed

lemma counts_add:
  assumes "counts pc F" and "0 < f"
  shows "counts (count_add p f pc) (F(p := F p + f))"
proof -
  have "0 \<le> F p" using assms(1) by (simp add: counts_def)
  then have "0 < F p + f" using assms(2) by simp
  then show ?thesis
    using assms counts_get [OF assms(1), of p] by (auto simp: counts_def count_add_def map_of_update distinct_update)
qed

lemma counts_sub:
  assumes "counts pc F" and "f \<le> F p"
  shows "counts (count_sub p f pc) (F(p := F p - f))"
  using assms counts_get [OF assms(1), of p]
  by (auto simp: counts_def count_sub_def Let_def map_of_update distinct_update distinct_delete delete_conv')

lemma add_pairs_ok:
  assumes "counts pc F" and "0 < f"
  shows "counts (fst (add_pairs wi f ps (pc, wh))) (\<lambda>p. F p + f * int (count_list ps p)) \<and>
    (\<forall>p. snd (add_pairs wi f ps (pc, wh)) p = (if p \<in> set ps then insert wi (wh p) else wh p))"
  using assms
proof (induction ps arbitrary: pc wh F)
  case Nil
  then show ?case by simp
next
  case (Cons q ps)
  have eq: "(\<lambda>p. (F(q := F q + f)) p + f * int (count_list ps p)) = (\<lambda>p. F p + f * int (count_list (q # ps) p))"
    by (auto simp: algebra_simps)
  show ?case
    using Cons.IH [OF counts_add [OF Cons.prems, of q] Cons.prems(2), of "wh(q := insert wi (wh q))"] unfolding eq by (auto simp del: fun_upd_apply simp: fun_upd_def)
qed

lemma retract_pairs_ok:
  assumes "counts pc F" and "\<forall>p. f * int (count_list ps p) \<le> F p" and "0 < f"
  shows "counts (fst (retract_pairs wi f ps (pc, wh))) (\<lambda>p. F p - f * int (count_list ps p)) \<and>
    (\<forall>p. snd (retract_pairs wi f ps (pc, wh)) p = (if p \<in> set ps then wh p - {wi} else wh p))"
  using assms
proof (induction ps arbitrary: pc wh F)
  case Nil
  then show ?case by simp
next
  case (Cons q ps)
  have "f * int (count_list (q # ps) q) \<le> F q" using Cons.prems(2) by blast
  moreover have "0 \<le> f * int (count_list ps q)" using Cons.prems(3) by simp
  ultimately have fq: "f \<le> F q" "f * int (count_list ps q) \<le> F q - f" by (simp_all add: algebra_simps)
  have le: "\<forall>p. f * int (count_list ps p) \<le> (F(q := F q - f)) p"
    using Cons.prems(2) fq(2) by (metis count_list.simps(2) fun_upd_apply)
  have eq: "(\<lambda>p. (F(q := F q - f)) p - f * int (count_list ps p)) = (\<lambda>p. F p - f * int (count_list (q # ps) p))"
    by (auto simp: algebra_simps)
  show ?case
    using Cons.IH [OF counts_sub [OF Cons.prems(1) fq(1)] le Cons.prems(3), of "wh(q := wh q - {wi})"] unfolding eq by (auto simp del: fun_upd_apply simp: fun_upd_def)
qed

lemma sum_list_update_int: "i < length xs \<Longrightarrow> sum_list (xs[i := x]) = sum_list xs - xs ! i + (x :: int)"
  by (induction xs arbitrary: i) (auto split: nat.splits)

lemma wcount_update:
  assumes "i < length ws" and "ws ! i = (w, f)"
  shows "wcount (ws[i := (w', f)]) p = wcount ws p - f * int (count_list (pairs w) p) + f * int (count_list (pairs w') p)"
  using assms by (simp add: wcount_def map_update sum_list_update_int)

lemma wcount_ge:
  assumes "\<forall>(w, f) \<in> set ws. 0 < f" and "(w, f) \<in> set ws"
  shows "f * int (count_list (pairs w) p) \<le> wcount ws p"
proof -
  let ?g = "\<lambda>(w, f). f * int (count_list (pairs w) p)"
  have "0 \<le> x" if "x \<in> set (map ?g ws)" for x using assms(1) that by fastforce
  moreover have "?g (w, f) \<in> set (map ?g ws)" using assms(2) by (metis imageI list.set_map)
  ultimately show ?thesis unfolding wcount_def using member_le_sum_list [of "?g (w, f)" "map ?g ws"] by simp
qed

lemma wcount_pos:
  assumes "\<forall>(w, f) \<in> set ws. 0 < f"
  shows "0 < wcount ws p \<longleftrightarrow> p \<in> all_pairs ws"
proof
  assume "0 < wcount ws p"
  then show "p \<in> all_pairs ws"
  proof (rule contrapos_pp)
    assume "p \<notin> all_pairs ws"
    then have "\<forall>(w, f) \<in> set ws. f * int (count_list (pairs w) p) = 0" by (auto simp: all_pairs_def count_list_0_iff)
    then have "map (\<lambda>(w, f). f * int (count_list (pairs w) p)) ws = map (\<lambda>_. 0) ws" by (intro map_cong) auto
    then have "wcount ws p = sum_list (map (\<lambda>_. 0) ws)" by (simp only: wcount_def)
    then show "\<not> 0 < wcount ws p" by simp
  qed
next
  assume "p \<in> all_pairs ws"
  then obtain w f where wf: "(w, f) \<in> set ws" "p \<in> set (pairs w)" by (auto simp: all_pairs_def)
  then have "0 < count_list (pairs w) p" "0 < f" using assms by (auto simp: count_list_0_iff intro!: gr0I)
  then have "0 < f * int (count_list (pairs w) p)" by simp
  then show "0 < wcount ws p" using wcount_ge [OF assms wf(1), of p] by linarith
qed

lemma rewrite_word_ok:
  assumes ok: "index_ok (ws, ix)" and i: "i < length ws"
  shows "index_ok (rewrite_word best n i (ws, ix)) \<and>
    fst (rewrite_word best n i (ws, ix)) = ws[i := (apply_merge best n (fst (ws ! i)), snd (ws ! i))]"
proof -
  obtain pc wh where ix: "ix = (pc, wh)" by (cases ix)
  obtain w f where w: "ws ! i = (w, f)" by (cases "ws ! i")
  let ?w = "apply_merge best n w" and ?ws = "ws[i := (apply_merge best n w, f)]"
  have inv: "counts pc (wcount ws)" "\<forall>(w, f) \<in> set ws. 0 < f" "\<forall>p. wh p = {i. i < length ws \<and> p \<in> set (pairs (fst (ws ! i)))}"
    using ok ix by (simp_all add: index_ok_def)
  have mem: "(w, f) \<in> set ws" using i w by (metis nth_mem)
  then have f: "0 < f" using inv(2) by auto
  obtain pc1 wh1 where r: "retract_pairs i f (pairs w) (pc, wh) = (pc1, wh1)" by (cases "retract_pairs i f (pairs w) (pc, wh)")
  have "\<forall>p. f * int (count_list (pairs w) p) \<le> wcount ws p" using wcount_ge [OF inv(2) mem] by blast
  from retract_pairs_ok [OF inv(1) this f, of i wh]
  have r': "counts pc1 (\<lambda>p. wcount ws p - f * int (count_list (pairs w) p))" "\<forall>p. wh1 p = (if p \<in> set (pairs w) then wh p - {i} else wh p)"
    using r by simp_all
  obtain pc2 wh2 where a: "add_pairs i f (pairs ?w) (pc1, wh1) = (pc2, wh2)" by (cases "add_pairs i f (pairs ?w) (pc1, wh1)")
  have wc: "wcount ?ws = (\<lambda>p. wcount ws p - f * int (count_list (pairs w) p) + f * int (count_list (pairs ?w) p))"
    by (rule ext) (rule wcount_update [OF i w])
  from add_pairs_ok [OF r'(1) f, of i "pairs ?w" wh1]
  have a': "counts pc2 (wcount ?ws)" "\<forall>p. wh2 p = (if p \<in> set (pairs ?w) then insert i (wh1 p) else wh1 p)"
    using a wc by simp_all
  have "wh2 p = {j. j < length ?ws \<and> p \<in> set (pairs (fst (?ws ! j)))}" for p
    using a'(2) r'(2) inv(3) i w by (auto simp: nth_list_update split: if_splits)
  moreover have "\<forall>(w, f) \<in> set ?ws. 0 < f"
    using inv(2) f set_update_subset_insert [of ws i "(?w, f)"] by auto
  ultimately show ?thesis
    using a' r a w ix by (simp add: rewrite_word_def index_ok_def)
qed

lemma rewrite_words_ok:
  assumes "index_ok st" and "\<forall>i \<in> set is. i < length (fst st)" and "distinct is"
  shows "index_ok (fold (rewrite_word best n) is st) \<and> length (fst (fold (rewrite_word best n) is st)) = length (fst st) \<and>
    (\<forall>j < length (fst st). fst (fold (rewrite_word best n) is st) ! j =
      (if j \<in> set is then (apply_merge best n (fst (fst st ! j)), snd (fst st ! j)) else fst st ! j))"
  using assms
proof (induction "is" arbitrary: st)
  case Nil
  then show ?case by simp
next
  case (Cons i "is")
  obtain ws ix where st: "st = (ws, ix)" by (cases st)
  let ?st = "rewrite_word best n i (ws, ix)"
  have r: "index_ok ?st" "fst ?st = ws[i := (apply_merge best n (fst (ws ! i)), snd (ws ! i))]"
    using rewrite_word_ok [of ws ix i best n] Cons.prems st by simp_all
  have "index_ok (fold (rewrite_word best n) is ?st) \<and> length (fst (fold (rewrite_word best n) is ?st)) = length (fst ?st) \<and>
    (\<forall>j < length (fst ?st). fst (fold (rewrite_word best n) is ?st) ! j =
      (if j \<in> set is then (apply_merge best n (fst (fst ?st ! j)), snd (fst ?st ! j)) else fst ?st ! j))"
    using Cons.prems st r by (intro Cons.IH) auto
  then show ?case
    using st r(2) Cons.prems(2,3) by (auto simp: nth_list_update)
qed

lemma apply_merge_absent: "p \<notin> set (pairs ids) \<Longrightarrow> apply_merge p n ids = ids"
  by (induction p n ids rule: apply_merge.induct) (auto simp: pairs_def)

lemma apply_merge_head: "apply_merge p n (y # zs) = u # us \<Longrightarrow> u = y \<or> u = n"
  by (cases p; cases zs) (auto split: if_splits)

lemma apply_merge_gone:
  assumes "n \<noteq> fst p" and "n \<noteq> snd p"
  shows "p \<notin> set (pairs (apply_merge p n ids))"
  using assms
proof (induction p n ids rule: apply_merge.induct)
  case (1 a b n x y zs)
  show ?case
  proof (cases "x = a \<and> y = b")
    case True
    then show ?thesis
      using "1.IH"(1) [OF True] "1.prems" by (cases "apply_merge (a, b) n zs") (auto simp: pairs_def)
  next
    case False
    obtain u us where u: "apply_merge (a, b) n (y # zs) = u # us"
      by (cases "apply_merge (a, b) n (y # zs)") (cases zs; auto split: if_splits)+
    have "pairs (x # u # us) = (x, u) # pairs (u # us)" by (simp add: pairs_def)
    moreover have "(x, u) \<noteq> (a, b)" using False apply_merge_head [OF u] "1.prems" by auto
    ultimately show ?thesis using "1.IH"(2) [OF False "1.prems"] False u by auto
  qed
qed (auto simp: pairs_def)

lemma merge_best_ok:
  assumes ok: "index_ok st" and fresh: "n \<noteq> fst best" "n \<noteq> snd best"
  shows "index_ok (merge_best best n st) \<and> fst (merge_best best n st) = map (\<lambda>(w, f). (apply_merge best n w, f)) (fst st)"
proof -
  obtain ws pc wh where st: "st = (ws, (pc, wh))" by (cases st) auto
  have wh: "wh best = {i. i < length ws \<and> best \<in> set (pairs (fst (ws ! i)))}" using ok st by (simp add: index_ok_def)
  let ?is = "sorted_list_of_set (wh best)" and ?f = "fold (rewrite_word best n) (sorted_list_of_set (wh best)) st"
  have idx: "set ?is = wh best" "distinct ?is" using wh by simp_all
  have f: "index_ok ?f" "length (fst ?f) = length ws"
    "\<forall>j < length ws. fst ?f ! j = (if j \<in> wh best then (apply_merge best n (fst (ws ! j)), snd (ws ! j)) else ws ! j)"
    using rewrite_words_ok [OF ok, of ?is best n] idx wh st by auto
  have words: "fst ?f = map (\<lambda>(w, f). (apply_merge best n w, f)) ws"
  proof (rule nth_equalityI)
    fix j assume "j < length (fst ?f)"
    then have j: "j < length ws" using f(2) by simp
    show "fst ?f ! j = map (\<lambda>(w, f). (apply_merge best n w, f)) ws ! j"
      using f(3) j wh apply_merge_absent [of best "fst (ws ! j)" n] by (auto simp: case_prod_unfold prod_eq_iff)
  qed (simp add: f(2))
  obtain ws' pc' wh' where f': "?f = (ws', (pc', wh'))" by (metis prod.exhaust)
  have "wh' best = {}"
    using f(1) f' words apply_merge_gone [OF fresh] by (auto simp: index_ok_def case_prod_unfold)
  then have "wh'(best := {}) = wh'" by (simp add: fun_upd_idem)
  then have "merge_best best n st = ?f" using f' st by (simp add: merge_best_def)
  then show ?thesis using f(1) words st by simp
qed

definition ids_below :: "nat \<Rightarrow> (nat list \<times> int) list \<Rightarrow> bool" where
  "ids_below n ws \<longleftrightarrow> (\<forall>(w, f) \<in> set ws. \<forall>x \<in> set w. x < n)"

lemma pairs_parts: "p \<in> set (pairs w) \<Longrightarrow> fst p \<in> set w \<and> snd p \<in> set w"
proof -
  assume "p \<in> set (pairs w)"
  then have "(fst p, snd p) \<in> set (zip w (tl w))" by (simp add: pairs_def)
  from set_zip_leftD [OF this] set_zip_rightD [OF this] show ?thesis by (cases w) auto
qed

lemma set_apply_merge: "set (apply_merge p n w) \<subseteq> insert n (set w)"
  by (induction p n w rule: apply_merge.induct) auto

lemma ids_below_merge: "ids_below n ws \<Longrightarrow> ids_below (Suc n) (map (\<lambda>(w, f). (apply_merge p n w, f)) ws)"
  using set_apply_merge [of p n] by (fastforce simp: ids_below_def)

lemma best_count_ref:
  assumes "index_ok (ws, (pc, wh))"
  shows "set (map (\<lambda>(p, c). (c, p)) pc) = (\<lambda>p. (wcount ws p, p)) ` all_pairs ws"
proof -
  have c: "counts pc (wcount ws)" and pos: "\<forall>(w, f) \<in> set ws. 0 < f" using assms by (simp_all add: index_ok_def)
  have "(p, c) \<in> set pc \<longleftrightarrow> p \<in> all_pairs ws \<and> c = wcount ws p" for p c
    using c wcount_pos [OF pos, of p] map_of_eq_Some_iff [of pc p c] by (auto simp: counts_def split: if_splits)
  then show ?thesis by (auto simp: image_iff)
qed

lemma train_loop_ref:
  assumes "index_ok st" and "ids_below next_id (fst st)"
  shows "train_loop n minf next_id st = ref_loop n minf next_id (fst st) \<and> consecutive next_id (train_loop n minf next_id st)"
  using assms
proof (induction n arbitrary: next_id st)
  case 0
  then show ?case by simp
next
  case (Suc n)
  obtain ws pc wh where st: "st = (ws, (pc, wh))" by (cases st) auto
  have eq: "set (map (\<lambda>(p, c). (c, p)) pc) = (\<lambda>p. (wcount ws p, p)) ` all_pairs ws"
    using best_count_ref Suc.prems(1) st by simp
  have empty: "pc = [] \<longleftrightarrow> all_pairs ws = {}" using arg_cong [OF eq, of "\<lambda>x. x = {}"] by simp
  show ?case
  proof (cases "pc = []")
    case True
    then show ?thesis using empty st by simp
  next
    case False
    obtain c best where b: "best_count pc = (c, best)" by (cases "best_count pc")
    have m: "best_count pc = Max ((\<lambda>p. (wcount ws p, p)) ` all_pairs ws)" by (simp only: best_count_def eq)
    have "best_count pc \<in> set (map (\<lambda>(p, c). (c, p)) pc)" unfolding best_count_def using False by (intro Max_in) auto
    then have "best \<in> all_pairs ws" using b eq by auto
    then have lt: "fst best < next_id" "snd best < next_id"
      using Suc.prems(2) st by (auto simp: all_pairs_def ids_below_def dest!: pairs_parts)
    have mb: "index_ok (merge_best best next_id st)"
      "fst (merge_best best next_id st) = map (\<lambda>(w, f). (apply_merge best next_id w, f)) ws"
      using merge_best_ok [OF Suc.prems(1), of next_id best] lt st by auto
    have "ids_below (Suc next_id) (fst (merge_best best next_id st))"
      using ids_below_merge [of next_id ws best] Suc.prems(2) st mb(2) by simp
    note ih = Suc.IH [OF mb(1) this]
    show ?thesis
      using False empty b m [symmetric] ih mb(2) lt st by (cases best) auto
  qed
qed

lemma index_words_ok:
  assumes "index_ok (ws, ix)" and "\<forall>(w, f) \<in> set us. 0 < f"
  shows "index_ok (ws @ us, index_words (length ws) us ix)"
  using assms
proof (induction us arbitrary: ws ix)
  case Nil
  then show ?case by simp
next
  case (Cons u us)
  obtain w f where u: "u = (w, f)" by (cases u)
  obtain pc wh where ix: "ix = (pc, wh)" by (cases ix)
  have inv: "counts pc (wcount ws)" "\<forall>(w, f) \<in> set ws. 0 < f" "\<forall>p. wh p = {i. i < length ws \<and> p \<in> set (pairs (fst (ws ! i)))}"
    using Cons.prems(1) ix by (simp_all add: index_ok_def)
  have f: "0 < f" using Cons.prems(2) u by simp
  obtain pc2 wh2 where a: "add_pairs (length ws) f (pairs w) (pc, wh) = (pc2, wh2)"
    by (cases "add_pairs (length ws) f (pairs w) (pc, wh)")
  have "counts pc2 (wcount (ws @ [u]))" "\<forall>p. wh2 p = (if p \<in> set (pairs w) then insert (length ws) (wh p) else wh p)"
    using add_pairs_ok [OF inv(1) f, of "length ws" "pairs w" wh] a u by (simp_all add: wcount_def [abs_def])
  then have "index_ok (ws @ [u], (pc2, wh2))"
    using inv f u by (auto simp: index_ok_def nth_append less_Suc_eq split: if_splits)
  from Cons.IH [OF this] show ?case using Cons.prems(2) u ix a by simp
qed

lemma start_state_ok: "\<forall>(w, f) \<in> set d. 0 < f \<Longrightarrow> index_ok (start_state d)"
  using index_words_ok [of "[]" "([], \<lambda>_. {})" d]
  by (simp add: start_state_def index_ok_def counts_def wcount_def)

lemma count_pieces_pos:
  assumes "count_pieces ss d = Ret d'" and "\<forall>(w, f) \<in> set d. 0 < f \<and> (\<forall>b \<in> set w. b < BYTE_VOCAB_SIZE)"
  shows "\<forall>(w, f) \<in> set d'. 0 < f \<and> (\<forall>b \<in> set w. b < BYTE_VOCAB_SIZE)"
  using assms
proof (induction ss arbitrary: d)
  case Nil
  then show ?case by simp
next
  case (Cons s ss)
  obtain bs where e: "str_encode s = Ret bs" "count_pieces ss (count_add bs 1 d) = Ret d'"
    using Cons.prems(1) by (auto split: outcome.splits)
  have b: "\<forall>b \<in> set bs. b < BYTE_VOCAB_SIZE"
    using e(1) by (auto simp: str_encode_def BYTE_VOCAB_SIZE_def split: if_splits dest!: utf8_char_bytes [rotated])
  have "0 \<le> dict_get d bs" using Cons.prems(2) by (auto simp: dict_get_def split: option.splits dest!: map_of_SomeD)
  then have "\<forall>(w, f) \<in> set (count_add bs 1 d). 0 < f \<and> (\<forall>b \<in> set w. b < BYTE_VOCAB_SIZE)"
    using Cons.prems(2) b set_alist_update [of bs "dict_get d bs + 1" d] by (auto simp: count_add_def)
  from Cons.IH [OF e(2) this] show ?case .
qed

lemma count_pieces_ret: "\<forall>s \<in> set ss. \<forall>c \<in> set s. scalar c \<Longrightarrow> \<exists>d'. count_pieces ss d = Ret d'"
  by (induction ss arbitrary: d) (auto simp: str_encode_def)

lemma counted_start:
  assumes "count_pieces ss [] = Ret d"
  shows "index_ok (start_state d)" and "ids_below BYTE_VOCAB_SIZE (fst (start_state d))"
  using count_pieces_pos [OF assms] start_state_ok [of d] by (auto simp: ids_below_def start_state_def)

section \<open>Properties\<close>

text \<open>A character table for the concrete instances: ASCII.\<close>

definition ascii :: uni where
  "ascii = \<lparr>is_word = (\<lambda>c. 48 \<le> c \<and> c \<le> 57 \<or> 65 \<le> c \<and> c \<le> 90 \<or> c = 95 \<or> 97 \<le> c \<and> c \<le> 122),
     is_digit = (\<lambda>c. 48 \<le> c \<and> c \<le> 57), is_space = (\<lambda>c. c = 32 \<or> 9 \<le> c \<and> c \<le> 13)\<rparr>"

lemma ascii_doc: "uni_doc ascii"
  by (auto simp: uni_doc_def ascii_def UNDERSCORE_def)

lemma special_ids:
  assumes "\<forall>s \<in> set specials. \<forall>c \<in> set s. scalar c"
  shows "\<forall>(s, i) \<in> set (fold (\<lambda>(k, v) sp. AList.update k v sp) (zip specials [n..<n + length specials]) []).
    n \<le> i \<and> (\<forall>c \<in> set s. scalar c)"
proof -
  have g: "\<forall>(s, i) \<in> set (fold (\<lambda>(k, v) sp. AList.update k v sp) kvs sp). n \<le> i \<and> (\<forall>c \<in> set s. scalar c)"
    if "\<forall>(s, i) \<in> set kvs. n \<le> i \<and> (\<forall>c \<in> set s. scalar c)" "\<forall>(s, i) \<in> set sp. n \<le> i \<and> (\<forall>c \<in> set s. scalar c)" for kvs sp
    using that
  proof (induction kvs arbitrary: sp)
    case (Cons x kvs)
    obtain s i where x: "x = (s, i)" by (cases x)
    have "\<forall>(s, i) \<in> set (AList.update s i sp). n \<le> i \<and> (\<forall>c \<in> set s. scalar c)"
      using Cons.prems x set_alist_update [of s i sp] by auto
    then show ?case using Cons x by simp
  qed simp
  have "\<forall>(s, i) \<in> set (zip specials [n..<n + length specials]). n \<le> i \<and> (\<forall>c \<in> set s. scalar c)"
    using assms by (auto dest: set_zip_leftD set_zip_rightD)
  from g [OF this, of "[]"] show ?thesis by simp
qed

lemma train_wf:
  assumes "train U corpus vsize specials minf = Ret t" and "\<forall>s \<in> set specials. \<forall>c \<in> set s. scalar c"
  shows "bpe_wf t"
proof -
  obtain d where d: "count_pieces (concat (map (findall U) corpus)) [] = Ret d"
    using assms(1) by (auto simp: train_def Let_def split: if_splits outcome.splits)
  define ms where "ms = train_loop (nat (vsize - int BYTE_VOCAB_SIZE - int (length specials))) minf BYTE_VOCAB_SIZE (start_state d)"
  have "consecutive BYTE_VOCAB_SIZE ms" using train_loop_ref [OF counted_start [OF d]] unfolding ms_def by blast
  from new_bpe_wf [OF this special_ids [OF assms(2)]] show ?thesis
    using assms(1) d by (auto simp: train_def Let_def ms_def split: if_splits)
qed

text \<open>C18: what comes back from a round trip. For any tokenizer training produces and any text of Unicode scalar values,
  encoding (with special tokens off) succeeds and decoding the ids gives the text back without its underscores: merging
  never loses a byte, but the split pattern has no alternative for \<^verbatim>\<open>_\<close>. The test suite claims a lossless round trip for
  arbitrary input.\<close>

theorem decode_encode_drops_underscores:
  assumes "train U corpus vsize specials minf = Ret t" and "\<forall>s \<in> set specials. \<forall>c \<in> set s. scalar c"
    and "uni_doc U" and "\<forall>c \<in> set text. scalar c"
  shows "\<exists>ids t'. encode U text False t = (Ret ids, t') \<and> decode t' ids = Ret (filter (\<lambda>c. c \<noteq> UNDERSCORE) text)"
  using ordinary_round_trip [OF assms(3) train_wf [OF assms(1,2)] assms(4)] by (auto simp: encode_def)

theorem decode_encode_drops_underscores_witness:
  "\<exists>t ids t'. train ascii [] 257 [END_OF_TEXT] 2 = Ret t \<and> encode ascii [97, 95, 98] False t = (Ret ids, t') \<and>
    decode t' ids = Ret [97, 98]"
proof -
  have "\<exists>t. train ascii [] 257 [END_OF_TEXT] 2 = Ret t"
    by (simp add: train_def Let_def BYTE_VOCAB_SIZE_def new_bpe_def str_encode_def scalar_def END_OF_TEXT_def)
  then obtain t where t: "train ascii [] 257 [END_OF_TEXT] 2 = Ret t" by blast
  have "\<exists>ids t'. encode ascii [97, 95, 98] False t = (Ret ids, t') \<and> decode t' ids = Ret (filter (\<lambda>c. c \<noteq> UNDERSCORE) [97, 95, 98])"
    by (rule decode_encode_drops_underscores [OF t _ ascii_doc]) (simp_all add: scalar_def END_OF_TEXT_def)
  then show ?thesis using t by (auto simp: UNDERSCORE_def)
qed

text \<open>C17: the fast trainer learns what the definition of BPE says. Keeping pair counts and an index up to date word by word
  gives exactly the merges of the reference that recounts every pair of every word before each merge, same order and ids.\<close>

theorem train_matches_reference:
  assumes "count_pieces (concat (map (findall U) corpus)) [] = Ret d"
  shows "train_loop n minf BYTE_VOCAB_SIZE (start_state d) = ref_loop n minf BYTE_VOCAB_SIZE d"
  using train_loop_ref [OF counted_start [OF assms]] by (simp add: start_state_def)

theorem train_matches_reference_witness:
  "\<exists>d. count_pieces (concat (map (findall ascii) [[97, 98, 32, 97, 98]])) [] = Ret d \<and>
    train_loop 2 1 BYTE_VOCAB_SIZE (start_state d) = ref_loop 2 1 BYTE_VOCAB_SIZE d"
proof -
  have "concat (findall ascii [97, 98, 32, 97, 98]) = [97, 98, 32, 97, 98]"
    by (simp only: findall_drops_underscores [OF ascii_doc]) (simp add: UNDERSCORE_def)
  then have "\<forall>c \<in> set (concat (findall ascii [97, 98, 32, 97, 98])). scalar c" by (simp only:) (simp add: scalar_def)
  then have "\<exists>d. count_pieces (concat (map (findall ascii) [[97, 98, 32, 97, 98]])) [] = Ret d"
    by (intro count_pieces_ret) auto
  then show ?thesis using train_matches_reference by blast
qed

lemma pairs_apply_merge:
  "q \<in> set (pairs (apply_merge p n w)) \<Longrightarrow> q \<in> set (pairs w) \<or> fst q = n \<or> snd q = n"
proof (induction p n w rule: apply_merge.induct)
  case (1 a b n x y zs)
  show ?case
  proof (cases "x = a \<and> y = b")
    case True
    have "q \<in> set (pairs (x # y # zs))" if "q \<in> set (pairs zs)" using that by (cases zs) (auto simp: pairs_def)
    then show ?thesis
      using "1.IH"(1) [OF True] "1.prems" True by (cases "apply_merge (a, b) n zs") (auto simp: pairs_def)
  next
    case False
    obtain u us where u: "apply_merge (a, b) n (y # zs) = u # us"
      by (cases "apply_merge (a, b) n (y # zs)") (cases zs; auto split: if_splits)+
    have "q = (x, u) \<or> q \<in> set (pairs (u # us))" using "1.prems" False u by (auto simp: pairs_def)
    then show ?thesis
      using "1.IH"(2) [OF False] apply_merge_head [OF u] u by (auto simp: pairs_def)
  qed
qed (auto simp: pairs_def)

lemma ref_loop_distinct:
  assumes "ids_below next_id ws" and "\<forall>p \<in> P. fst p < next_id \<and> snd p < next_id" and "P \<inter> all_pairs ws = {}"
  shows "distinct (map fst (ref_loop n minf next_id ws)) \<and> P \<inter> fst ` set (ref_loop n minf next_id ws) = {}"
  using assms
proof (induction n arbitrary: next_id ws P)
  case 0
  then show ?case by simp
next
  case (Suc n)
  obtain c best where m: "Max ((\<lambda>p. (wcount ws p, p)) ` all_pairs ws) = (c, best)" by (metis prod.exhaust)
  show ?case
  proof (cases "all_pairs ws = {} \<or> c < minf")
    case True
    then show ?thesis using m by auto
  next
    case False
    have "finite (all_pairs ws)" by (auto simp: all_pairs_def)
    then have "(c, best) \<in> (\<lambda>p. (wcount ws p, p)) ` all_pairs ws" using False m Max_in [of "(\<lambda>p. (wcount ws p, p)) ` all_pairs ws"] by auto
    then have best: "best \<in> all_pairs ws" by auto
    then have lt: "fst best < next_id" "snd best < next_id"
      using Suc.prems(1) by (auto simp: all_pairs_def ids_below_def dest!: pairs_parts)
    let ?ws = "map (\<lambda>(w, f). (apply_merge best next_id w, f)) ws"
    have "q \<noteq> best \<and> q \<notin> P" if q: "q \<in> all_pairs ?ws" for q
    proof -
      obtain w f where w: "(w, f) \<in> set ws" "q \<in> set (pairs (apply_merge best next_id w))" using q by (auto simp: all_pairs_def)
      have "q \<noteq> best" using w(2) apply_merge_gone [of next_id best w] lt by auto
      moreover have "q \<in> all_pairs ws \<or> fst q = next_id \<or> snd q = next_id"
        using pairs_apply_merge [OF w(2)] w(1) by (auto simp: all_pairs_def)
      ultimately show ?thesis using Suc.prems(2,3) by fastforce
    qed
    then have gone: "insert best P \<inter> all_pairs ?ws = {}" by blast
    have "\<forall>p \<in> insert best P. fst p < Suc next_id \<and> snd p < Suc next_id" using Suc.prems(2) lt by auto
    from Suc.IH [OF ids_below_merge [OF Suc.prems(1)] this gone]
    show ?thesis using False m best Suc.prems(3) by auto
  qed
qed

lemma dict_of_distinct: "distinct (map fst kvs) \<Longrightarrow> dict_of kvs = kvs"
proof -
  have "fold (\<lambda>(k, v) d. AList.update k v d) kvs d = d @ kvs"
    if "distinct (map fst kvs)" "fst ` set d \<inter> fst ` set kvs = {}" for d :: "('a \<times> 'b) list"
    using that
  proof (induction kvs arbitrary: d)
    case (Cons x kvs)
    obtain k v where x: "x = (k, v)" by (cases x)
    have "AList.update k v d = d @ [(k, v)]" using Cons.prems(2) x by (induction d) auto
    then show ?case using Cons x by auto
  qed simp
  from this [of "[]"] show "distinct (map fst kvs) \<Longrightarrow> dict_of kvs = kvs" by (simp add: dict_of_def)
qed

lemma train_merges_distinct:
  assumes "train U corpus vsize specials minf = Ret t"
  shows "distinct (map fst (merges t))" and "new_bpe (merges t) (special_tokens t) = Ret t"
proof -
  obtain d where d: "count_pieces (concat (map (findall U) corpus)) [] = Ret d"
    using assms(1) by (auto simp: train_def Let_def split: if_splits outcome.splits)
  let ?n = "nat (vsize - int BYTE_VOCAB_SIZE - int (length specials))"
  have tl: "train_loop ?n minf BYTE_VOCAB_SIZE (start_state d) = ref_loop ?n minf BYTE_VOCAB_SIZE d"
    using train_loop_ref [OF counted_start [OF d]] by (simp add: start_state_def)
  obtain sp where nb: "new_bpe (ref_loop ?n minf BYTE_VOCAB_SIZE d) sp = Ret t"
    using assms d tl by (auto simp: train_def Let_def split: if_splits)
  then have t: "merges t = ref_loop ?n minf BYTE_VOCAB_SIZE d" "special_tokens t = sp"
    by (auto simp: new_bpe_def split: outcome.splits)
  show "distinct (map fst (merges t))"
    using ref_loop_distinct [of BYTE_VOCAB_SIZE d "{}" ?n minf] counted_start(2) [OF d] t by (simp add: start_state_def)
  show "new_bpe (merges t) (special_tokens t) = Ret t" using nb t by simp
qed

text \<open>A saved tokenizer loads as itself. The payload written for any trained tokenizer, whatever its memo holds by then,
  loads to the same merges in the same order, the same special tokens and the same vocabulary, with an empty memo.\<close>

theorem save_load_identity:
  assumes "train U corpus vsize specials minf = Ret t"
  shows "load_payload (save_payload (t\<lparr>tok_cache := c\<rparr>)) = Ret t"
proof -
  have "map (\<lambda>(a, b, i). ((a, b), i)) (map (\<lambda>((a, b), i). (a, b, i)) (merges t)) = merges t"
    by (simp add: comp_def case_prod_unfold)
  then show ?thesis
    using train_merges_distinct [OF assms] by (simp add: load_payload_def save_payload_def dict_of_distinct)
qed

theorem save_load_identity_witness:
  "\<exists>t. train ascii [] 257 [END_OF_TEXT] 2 = Ret t \<and> load_payload (save_payload (t\<lparr>tok_cache := [([97], [97])]\<rparr>)) = Ret t"
proof -
  have "\<exists>t. train ascii [] 257 [END_OF_TEXT] 2 = Ret t"
    by (simp add: train_def Let_def BYTE_VOCAB_SIZE_def new_bpe_def str_encode_def scalar_def END_OF_TEXT_def)
  then show ?thesis using save_load_identity by blast
qed

end
