(* ===== verification/Streaming.thy ===== *)
theory Streaming
  imports Tokenizer
begin

text \<open>
  Streaming text from a byte-level tokenizer. Three places of the program share one loop body (\<^verbatim>\<open>_token_stream\<close> of
  \<^verbatim>\<open>engine/server.py\<close>, \<^verbatim>\<open>Generate\<close> of \<^verbatim>\<open>engine/replica.py\<close>, \<^verbatim>\<open>generate_stream\<close> of \<^verbatim>\<open>model/generate.py\<close>): decode everything
  produced so far, hold back a text that ends in a replacement character, otherwise emit what is new. \<open>next_piece\<close> is that
  body. The lemmas show why it is right: a decoded text that does not end in a replacement character is a prefix of
  whatever the longer byte string decodes to (\<open>str_decode_append\<close>), so the emitted pieces concatenate to the text.
\<close>

text \<open>\<open>None\<close>: nothing to emit.\<close>

definition next_piece :: "bpe \<Rightarrow> nat list \<Rightarrow> nat \<Rightarrow> str option outcome" where
  "next_piece tok produced emitted_chars =
     (case decode tok produced of
        Raise x \<Rightarrow> Raise x
      | Ret text \<Rightarrow>
          if text \<noteq> [] \<and> last text = REPLACEMENT then Ret None
          else if length text > emitted_chars then Ret (Some (drop emitted_chars text))
          else Ret None)"

text \<open>The text so far has been emitted: \<open>settled t ids\<close> is the decoded text of the longest prefix of \<open>ids\<close> that does not end in
  a replacement character.\<close>

definition held_back :: "str \<Rightarrow> bool" where
  "held_back text \<longleftrightarrow> text \<noteq> [] \<and> last text = REPLACEMENT"

fun settled_rev :: "bpe \<Rightarrow> nat list \<Rightarrow> str" where
  "settled_rev t [] = []"
| "settled_rev t (i # rev_front) =
     (case decode t (rev (i # rev_front)) of
        Ret text \<Rightarrow> if held_back text then settled_rev t rev_front else text
      | Raise x \<Rightarrow> [])"

definition settled :: "bpe \<Rightarrow> nat list \<Rightarrow> str" where
  "settled t ids = settled_rev t (rev ids)"

section \<open>Decoding is monotone where it matters\<close>

lemma utf8_step_append:
  assumes "a \<noteq> []" and "snd (utf8_step a) < length a \<or> fst (utf8_step a) \<noteq> REPLACEMENT"
  shows "utf8_step (a @ b) = utf8_step a"
proof -
  consider (one) x where "a = [x]" | (two) x y where "a = [x, y]" | (three) x y z where "a = [x, y, z]"
    | (four) x y z w rest where "a = x # y # z # w # rest"
    using assms(1) by (metis list.exhaust)
  then show ?thesis
  proof cases
    case one
    then show ?thesis using assms(2) by (simp add: utf8_step_def Let_def cont_def second_def split: if_splits)
  next
    case two
    then show ?thesis using assms(2) by (auto simp: utf8_step_def Let_def cont_def second_def split: if_splits)
  next
    case three
    then show ?thesis using assms(2) by (auto simp: utf8_step_def Let_def cont_def second_def numeral_3_eq_3 split: if_splits)
  next
    case four
    then show ?thesis by (simp add: utf8_step_def Let_def cont_def second_def numeral_3_eq_3)
  qed
qed

lemma utf8_step_length:
  assumes "a \<noteq> []"
  shows "snd (utf8_step a) \<le> length a"
proof -
  have "Suc 0 \<le> length a" "cont a i \<Longrightarrow> Suc i \<le> length a" "second lo hi a \<Longrightarrow> 2 \<le> length a" for i lo hi
    using assms by (auto simp: cont_def second_def Suc_le_eq)
  from this(1) this(2) [of 1] this(2) [of 2] this(2) [of 3] this(3) show ?thesis
    by (auto simp: utf8_step_def Let_def)
qed

lemma str_decode_append:
  assumes "\<not> held_back (str_decode a)"
  shows "str_decode (a @ b) = str_decode a @ str_decode b"
  using assms
proof (induction a rule: str_decode.induct)
  case (2 x xs)
  obtain c n where st: "utf8_step (x # xs) = (c, n)" by (cases "utf8_step (x # xs)")
  have dec: "str_decode (x # xs) = c # str_decode (drop n (x # xs))" using st by (simp add: str_decode.simps(2))
  have n: "n < length (x # xs) \<or> c \<noteq> REPLACEMENT"
    using 2(2) dec by (auto simp: held_back_def)
  have "utf8_step ((x # xs) @ b) = (c, n)" using utf8_step_append [of "x # xs" b] n st by simp
  then have "str_decode ((x # xs) @ b) = c # str_decode (drop n ((x # xs) @ b))" by (simp add: str_decode.simps(2))
  moreover have "drop n ((x # xs) @ b) = drop n (x # xs) @ b"
    using utf8_step_length [of "x # xs"] st by (simp only: drop_append) simp
  moreover have "\<not> held_back (str_decode (drop n (x # xs)))" using 2(2) dec by (auto simp: held_back_def split: if_splits)
  ultimately show ?case using 2(1) [OF st [symmetric]] dec by (simp del: str_decode.simps)
qed simp

section \<open>The pieces make up the text\<close>

lemma token_bytes_split:
  "token_bytes t (xs @ ys) =
     (case token_bytes t xs of Raise e \<Rightarrow> Raise e
      | Ret a \<Rightarrow> (case token_bytes t ys of Raise e \<Rightarrow> Raise e | Ret b \<Rightarrow> Ret (a @ b)))"
  by (induction xs) (auto split: option.splits outcome.splits)

lemma decode_prefix:
  assumes "decode t (xs @ ys) = Ret text"
  shows "\<exists>front. decode t xs = Ret front \<and> (\<not> held_back front \<longrightarrow> (\<exists>rest. text = front @ rest))"
  using assms by (auto simp: decode_def token_bytes_split str_decode_append split: outcome.splits)

lemma settled_snoc:
  assumes "decode t (ids @ [i]) = Ret text"
  shows "settled t (ids @ [i]) = (if held_back text then settled t ids else text)"
  using assms by (simp add: settled_def)

lemma settled_Nil [simp]: "settled t [] = []"
  by (simp add: settled_def)

text \<open>What has been settled is a prefix of every later text.\<close>

lemma settled_prefix:
  assumes "decode t (ids @ later) = Ret text"
  shows "\<exists>rest. text = settled t ids @ rest"
  using assms
proof (induction ids arbitrary: later rule: rev_induct)
  case (snoc i ids)
  obtain front where f: "decode t (ids @ [i]) = Ret front" "\<not> held_back front \<longrightarrow> (\<exists>rest. text = front @ rest)"
    using decode_prefix [OF snoc.prems] by blast
  show ?case
  proof (cases "held_back front")
    case True
    then show ?thesis using snoc.IH [of "i # later"] snoc.prems settled_snoc [OF f(1)] by simp
  qed (use f settled_snoc [OF f(1)] in simp)
qed simp

lemma next_piece_settled:
  assumes "decode t (ids @ [i]) = Ret text"
  shows "\<exists>piece. next_piece t (ids @ [i]) (length (settled t ids)) = Ret piece \<and>
    settled t (ids @ [i]) = settled t ids @ (case piece of None \<Rightarrow> [] | Some d \<Rightarrow> d)"
proof -
  obtain rest where r: "text = settled t ids @ rest" using settled_prefix [OF assms] by blast
  show ?thesis
    using assms r settled_snoc [OF assms] by (auto simp: next_piece_def held_back_def)
qed

end
