(* ===== verification/Server.thy ===== *)
theory Server
  imports Scheduler Streaming
begin

text \<open>
  \<^verbatim>\<open>engine/server.py\<close>: the engine behind HTTP. \<open>async_engine\<close> is \<^verbatim>\<open>AsyncEngine\<close>: the scheduler, and one \<open>stream\<close> (queue, done
  flag, reason) per request in flight. A connection is the local state of \<^verbatim>\<open>_token_stream\<close> (\<open>conn\<close>), and the server as a whole
  is the step relation \<open>serve\<close>, whose steps are what runs between two suspension points of the event loop: a request
  arrives, the background task makes one turn, a connection makes one turn of its loop, a connection that has left its loop
  finishes its \<^verbatim>\<open>finally\<close>, a client cancels. A step of the scheduler is atomic here. \<open>sv_sent\<close> records the events each client
  received and \<open>sv_log\<close> every token the scheduler emitted. Ids are fresh when a request arrives, as \<^verbatim>\<open>uuid4\<close> makes them. The
  metrics observer is not part of the model, and the HTTP layer appears as the values it returns.
\<close>

record generate_body =
  gb_prompt :: str
  gb_max_tokens :: int
  gb_temperature :: real
  gb_top_k :: "int option"
  gb_top_p :: "real option"
  gb_ignore_eos :: bool
  slo_seconds :: "real option"

definition valid_body :: "generate_body \<Rightarrow> bool" where
  "valid_body b \<longleftrightarrow>
     1 \<le> gb_max_tokens b \<and> gb_max_tokens b \<le> 4096 \<and> 0 \<le> gb_temperature b \<and> gb_temperature b \<le> 2 \<and>
     (case gb_top_k b of None \<Rightarrow> True | Some k \<Rightarrow> 1 \<le> k) \<and> (case gb_top_p b of None \<Rightarrow> True | Some p \<Rightarrow> 0 < p \<and> p \<le> 1)"

record stream =
  st_queue :: "nat list"
  st_done :: bool
  st_reason :: "finish_reason option"

definition new_stream :: stream where
  "new_stream = \<lparr>st_queue = [], st_done = False, st_reason = None\<rparr>"

record async_engine =
  ae_engine :: engine
  ae_streams :: "string \<rightharpoonup> stream"

definition new_async_engine :: "engine \<Rightarrow> async_engine" where
  "new_async_engine e = \<lparr>ae_engine = e, ae_streams = Map.empty\<rparr>"

section \<open>AsyncEngine\<close>

definition deliver_token :: "string \<times> nat \<Rightarrow> (string \<rightharpoonup> stream) \<Rightarrow> (string \<rightharpoonup> stream)" where
  "deliver_token rt ss =
     (case ss (fst rt) of None \<Rightarrow> ss | Some s \<Rightarrow> ss(fst rt \<mapsto> s\<lparr>st_queue := st_queue s @ [snd rt]\<rparr>))"

definition deliver_end :: "request \<Rightarrow> (string \<rightharpoonup> stream) \<Rightarrow> (string \<rightharpoonup> stream)" where
  "deliver_end req ss =
     (case ss (request_id req) of
        None \<Rightarrow> ss
      | Some s \<Rightarrow>
          if finished_as req \<noteq> None \<and> \<not> st_done s
          then ss(request_id req \<mapsto> s\<lparr>st_reason := finished_as req, st_done := True\<rparr>) else ss)"

definition fanout :: "async_engine \<Rightarrow> async_engine" where
  "fanout ae =
     (case drain_emitted (ae_engine ae) of (toks, e) \<Rightarrow>
        let ss = fold deliver_token toks (ae_streams ae) in
        (case drain_finished e of (fin, e) \<Rightarrow> ae\<lparr>ae_engine := e, ae_streams := fold deliver_end fin ss\<rparr>))"

definition submit :: "env \<Rightarrow> request \<Rightarrow> async_engine \<Rightarrow> unit outcome \<times> async_engine" where
  "submit E req ae =
     (let ae = ae\<lparr>ae_streams := (ae_streams ae)(request_id req \<mapsto> new_stream)\<rparr> in
      (case add_request E req (ae_engine ae) of
         (Raise x, e) \<Rightarrow> (Raise x, ae\<lparr>ae_engine := e\<rparr>)
       | (Ret _, e) \<Rightarrow> (Ret (), fanout (ae\<lparr>ae_engine := e\<rparr>))))"

text \<open>\<^verbatim>\<open>cancel\<close> up to its wait, and what follows it.\<close>

definition cancel_begin :: "string \<Rightarrow> async_engine \<Rightarrow> bool \<times> async_engine" where
  "cancel_begin rid ae =
     (case ae_streams ae rid of None \<Rightarrow> False | Some s \<Rightarrow> \<not> st_done s, ae\<lparr>ae_engine := request_cancel rid (ae_engine ae)\<rparr>)"

definition cancel_end :: "async_engine \<Rightarrow> async_engine" where
  "cancel_end ae = fanout ae"

definition release :: "string \<Rightarrow> async_engine \<Rightarrow> async_engine" where
  "release rid ae = ae\<lparr>ae_streams := (ae_streams ae)(rid := None)\<rparr>"

text \<open>One turn of \<^verbatim>\<open>_run\<close>.\<close>

definition run_turn :: "env \<Rightarrow> async_engine \<Rightarrow> unit outcome \<times> async_engine" where
  "run_turn E ae =
     (case (if \<not> has_work (ae_engine ae) then apply_cancellations E (ae_engine ae) else step E (ae_engine ae)) of
        (Raise x, e) \<Rightarrow> (Raise x, ae\<lparr>ae_engine := e\<rparr>)
      | (Ret _, e) \<Rightarrow> (Ret (), fanout (ae\<lparr>ae_engine := e\<rparr>)))"

section \<open>Connections\<close>

datatype event = Start string | Token str | Done string finish_reason nat

datatype reply = Streaming string | Http400 | Http422 | Http429 string

record conn =
  cn_produced :: "nat list"
  cn_emitted :: nat
  cn_open :: bool

record server =
  sv_ae :: async_engine
  sv_tok :: bpe
  sv_conns :: "string \<rightharpoonup> conn"
  sv_sent :: "string \<Rightarrow> event list"
  sv_log :: "(string \<times> nat) list"

definition send :: "string \<Rightarrow> event list \<Rightarrow> server \<Rightarrow> server" where
  "send rid evs sv = sv\<lparr>sv_sent := (sv_sent sv)(rid := sv_sent sv rid @ evs)\<rparr>"

definition handle_generate :: "env \<Rightarrow> uni \<Rightarrow> string \<Rightarrow> generate_body \<Rightarrow> server \<Rightarrow> reply outcome \<times> server" where
  "handle_generate E U rid body sv =
     (if \<not> valid_body body then (Ret Http422, sv)
      else case encode U (gb_prompt body) False (sv_tok sv) of
        (Raise x, tok) \<Rightarrow> (Raise x, sv\<lparr>sv_tok := tok\<rparr>)
      | (Ret ids, tok) \<Rightarrow>
          let sv = sv\<lparr>sv_tok := tok\<rparr> in
          if ids = [] then (Ret Http400, sv)
          else (case perf_counter E (ae_engine (sv_ae sv)) of (now, e) \<Rightarrow>
            let req = new_request ids \<lparr>max_tokens = gb_max_tokens body, temperature = gb_temperature body, top_k = gb_top_k body,
                        top_p = gb_top_p body, ignore_eos = gb_ignore_eos body\<rparr> rid now
                        (map_option (\<lambda>s. now + s) (slo_seconds body));
                rejection = (case newly_finished (snd (add_request E req e)) of [] \<Rightarrow> [] | fin \<Rightarrow> rejection_reason (last fin))
            in (case submit E req ((sv_ae sv)\<lparr>ae_engine := e\<rparr>) of
                  (Raise x, ae) \<Rightarrow> (Raise x, sv\<lparr>sv_ae := ae\<rparr>)
                | (Ret _, ae) \<Rightarrow>
                    if (case ae_streams ae rid of None \<Rightarrow> None | Some s \<Rightarrow> st_reason s) = Some REJECTED
                    then (Ret (Http429 rejection), sv\<lparr>sv_ae := release rid ae\<rparr>)
                    else (Ret (Streaming rid),
                          send rid [Start rid] (sv\<lparr>sv_ae := ae, sv_conns := (sv_conns sv)(rid \<mapsto>
                            \<lparr>cn_produced = [], cn_emitted = 0, cn_open = True\<rparr>)\<rparr>)))))"

text \<open>\<^verbatim>\<open>break\<close>: the final event, then \<^verbatim>\<open>finally\<close> up to the wait inside \<^verbatim>\<open>cancel\<close>.\<close>

definition leave_loop :: "string \<Rightarrow> event list \<Rightarrow> conn \<Rightarrow> server \<Rightarrow> server" where
  "leave_loop rid evs c sv =
     send rid evs (sv\<lparr>sv_conns := (sv_conns sv)(rid \<mapsto> c\<lparr>cn_open := False\<rparr>), sv_ae := snd (cancel_begin rid (sv_ae sv))\<rparr>)"

text \<open>One turn of the loop of \<^verbatim>\<open>_token_stream\<close>; \<open>gone\<close> is what \<^verbatim>\<open>http.is_disconnected()\<close> answers.\<close>

definition stream_turn :: "bool \<Rightarrow> string \<Rightarrow> conn \<Rightarrow> stream \<Rightarrow> server \<Rightarrow> unit outcome \<times> server" where
  "stream_turn gone rid c s sv =
     (let bye = [Done rid (case st_reason s of None \<Rightarrow> CANCELLED | Some q \<Rightarrow> q) (length (cn_produced c))] in
      if gone then (Ret (), leave_loop rid bye c sv)
      else case st_queue s of
        [] \<Rightarrow> if st_done s then (Ret (), leave_loop rid bye c sv) else (Ret (), sv)
      | tid # rest \<Rightarrow>
          let sv = sv\<lparr>sv_ae := (sv_ae sv)\<lparr>ae_streams := (ae_streams (sv_ae sv))(rid \<mapsto> s\<lparr>st_queue := rest\<rparr>)\<rparr>\<rparr>;
              c = c\<lparr>cn_produced := cn_produced c @ [tid]\<rparr>
          in (case next_piece (sv_tok sv) (cn_produced c) (cn_emitted c) of
                Raise x \<Rightarrow> (Raise x, leave_loop rid [] c sv)
              | Ret None \<Rightarrow> (Ret (), sv\<lparr>sv_conns := (sv_conns sv)(rid \<mapsto> c)\<rparr>)
              | Ret (Some piece) \<Rightarrow>
                  (Ret (), send rid [Token piece]
                     (sv\<lparr>sv_conns := (sv_conns sv)(rid \<mapsto> c\<lparr>cn_emitted := cn_emitted c + length piece\<rparr>)\<rparr>))))"

text \<open>The rest of \<^verbatim>\<open>finally\<close>.\<close>

definition stream_close :: "string \<Rightarrow> server \<Rightarrow> server" where
  "stream_close rid sv = sv\<lparr>sv_ae := release rid (cancel_end (sv_ae sv)), sv_conns := (sv_conns sv)(rid := None)\<rparr>"

definition engine_ids :: "engine \<Rightarrow> string set" where
  "engine_ids e = request_id ` set (waiting e) \<union> (request_id \<circ> sq_request) ` set (running e)"

definition fresh :: "string \<Rightarrow> server \<Rightarrow> bool" where
  "fresh rid sv \<longleftrightarrow> sv_conns sv rid = None \<and> ae_streams (sv_ae sv) rid = None \<and> rid \<notin> engine_ids (ae_engine (sv_ae sv)) \<and>
     rid \<notin> fst ` set (sv_log sv) \<and> sv_sent sv rid = [] \<and> (\<forall>r \<in> set (newly_finished (ae_engine (sv_ae sv))). request_id r \<noteq> rid)"

text \<open>The tokens a turn of the background task emits.\<close>

definition turn_tokens :: "env \<Rightarrow> async_engine \<Rightarrow> (string \<times> nat) list" where
  "turn_tokens E ae =
     emitted (snd (if \<not> has_work (ae_engine ae) then apply_cancellations E (ae_engine ae) else step E (ae_engine ae)))"

inductive serve :: "env \<Rightarrow> uni \<Rightarrow> server \<Rightarrow> server \<Rightarrow> bool" for E U where
  arrive: "fresh rid sv \<Longrightarrow> handle_generate E U rid body sv = (r, sv') \<Longrightarrow> serve E U sv sv'"
| turn: "run_turn E (sv_ae sv) = (Ret (), ae) \<Longrightarrow>
    serve E U sv (sv\<lparr>sv_ae := ae, sv_log := sv_log sv @ turn_tokens E (sv_ae sv)\<rparr>)"
| read: "sv_conns sv rid = Some c \<Longrightarrow> cn_open c \<Longrightarrow> ae_streams (sv_ae sv) rid = Some s \<Longrightarrow>
    stream_turn gone rid c s sv = (r, sv') \<Longrightarrow> serve E U sv sv'"
| close: "sv_conns sv rid = Some c \<Longrightarrow> \<not> cn_open c \<Longrightarrow> serve E U sv (stream_close rid sv)"
| cancel: "serve E U sv (sv\<lparr>sv_ae := snd (cancel_begin rid (sv_ae sv))\<rparr>)"

inductive reachable :: "env \<Rightarrow> uni \<Rightarrow> server \<Rightarrow> server \<Rightarrow> bool" for E U sv0 where
  init: "reachable E U sv0 sv0"
| next_step: "reachable E U sv0 sv \<Longrightarrow> serve E U sv sv' \<Longrightarrow> reachable E U sv0 sv'"

section \<open>What the parts leave alone\<close>

lemma encode_pieces_vocab: "encode_pieces ps t = (r, t') \<Longrightarrow> vocab t' = vocab t"
proof (induction ps arbitrary: t r)
  case (Cons p ps)
  then show ?case
    by (auto simp: encode_piece_def Let_def bindS_def split: outcome.splits prod.splits option.splits)
qed simp

lemma decode_vocab: "vocab t' = vocab t \<Longrightarrow> decode t' = decode t"
proof -
  assume v: "vocab t' = vocab t"
  have "token_bytes t' ids = token_bytes t ids" for ids by (induction ids) (auto simp: v split: option.splits outcome.splits)
  then show "decode t' = decode t" by (auto simp: decode_def)
qed

lemma settled_vocab: "vocab t' = vocab t \<Longrightarrow> settled t' ids = settled t ids"
proof -
  assume v: "vocab t' = vocab t"
  have "settled_rev t' xs = settled_rev t xs" for xs by (induction xs) (auto simp: decode_vocab [OF v] split: outcome.splits)
  then show ?thesis by (simp add: settled_def)
qed

definition tokens_for :: "string \<Rightarrow> (string \<times> nat) list \<Rightarrow> nat list" where
  "tokens_for rid toks = map snd (filter (\<lambda>rt. fst rt = rid) toks)"

lemma tokens_for_append [simp]: "tokens_for rid (a @ b) = tokens_for rid a @ tokens_for rid b"
  by (simp add: tokens_for_def)

lemma deliver_tokens:
  "fold deliver_token toks ss rid = map_option (\<lambda>s. s\<lparr>st_queue := st_queue s @ tokens_for rid toks\<rparr>) (ss rid)"
proof (induction toks arbitrary: ss)
  case Nil
  then show ?case by (simp add: tokens_for_def option.map_ident)
next
  case (Cons rt toks)
  have "deliver_token rt ss rid = map_option (\<lambda>s. s\<lparr>st_queue := st_queue s @ tokens_for rid [rt]\<rparr>) (ss rid)"
    by (cases "ss rid") (auto simp: deliver_token_def tokens_for_def split: option.splits)
  then show ?case using Cons.IH tokens_for_append [of rid "[rt]" toks] by (simp add: option.map_comp comp_def)
qed

lemma deliver_ends:
  "\<exists>f. fold deliver_end fin ss rid = map_option f (ss rid) \<and> (\<forall>s. st_queue (f s) = st_queue s)"
proof (induction fin arbitrary: ss)
  case Nil
  then show ?case by (auto intro!: exI [of _ "\<lambda>s. s"] simp: option.map_ident)
next
  case (Cons r fin)
  obtain f where f: "fold deliver_end fin (deliver_end r ss) rid = map_option f (deliver_end r ss rid)"
    "\<forall>s. st_queue (f s) = st_queue s" using Cons.IH by blast
  define g where "g = (\<lambda>s :: stream. if request_id r = rid \<and> finished_as r \<noteq> None \<and> \<not> st_done s
    then s\<lparr>st_reason := finished_as r, st_done := True\<rparr> else s)"
  have "deliver_end r ss rid = map_option g (ss rid)"
    by (cases "ss rid"; cases "ss (request_id r)"; cases "request_id r = rid") (auto simp: deliver_end_def g_def)
  moreover have "\<forall>s. st_queue (g s) = st_queue s" by (simp add: g_def)
  ultimately show ?case using f by (intro exI [of _ "f \<circ> g"]) (simp add: option.map_comp comp_def)
qed

lemma fanout_stream:
  "\<exists>f. ae_streams (fanout ae) rid = map_option f (ae_streams ae rid) \<and>
    (\<forall>s. st_queue (f s) = st_queue s @ tokens_for rid (emitted (ae_engine ae)))"
proof -
  let ?ss = "fold deliver_token (emitted (ae_engine ae)) (ae_streams ae)"
  obtain f where "fold deliver_end (newly_finished (ae_engine ae)) ?ss rid = map_option f (?ss rid)" "\<forall>s. st_queue (f s) = st_queue s"
    using deliver_ends by blast
  then show ?thesis
    by (intro exI [of _ "f \<circ> (\<lambda>s. s\<lparr>st_queue := st_queue s @ tokens_for rid (emitted (ae_engine ae))\<rparr>)"])
      (simp add: fanout_def drain_emitted_def drain_finished_def deliver_tokens option.map_comp)
qed

lemma fanout_engine [simp]: "ae_engine (fanout ae) = (ae_engine ae)\<lparr>emitted := [], newly_finished := []\<rparr>"
  by (simp add: fanout_def drain_emitted_def drain_finished_def Let_def)

lemma add_request_frame:
  assumes "add_request E req e = (r, e')"
  shows "emitted e' = emitted e" "cancel_requested e' = cancel_requested e"
    "engine_ids e' \<subseteq> insert (request_id req) (engine_ids e)"
  using assms
  by (auto simp: add_request_def perf_counter_unfold finish_now_unfold record_finished_def Let_def engine_ids_def
      split: option.splits prod.splits outcome.splits if_splits)

section \<open>Cancellation takes effect\<close>

lemma cancel_running_clears:
  assumes "cancel_running E W ss e = (Ret d, e')" and "mset ss \<subseteq># mset (running e)"
  shows "mset (running e') + mset (filter (\<lambda>s. request_id (sq_request s) \<in> W) ss) = mset (running e)"
  using assms
proof (induction ss arbitrary: e d)
  case (Cons s ss)
  show ?case
  proof (cases "request_id (sq_request s) \<in> W")
    case False
    moreover have "mset ss \<subseteq># mset (running e)"
      using Cons.prems(2) by (metis mset.simps(2) mset_subset_eq_insertD subset_mset.less_imp_le)
    ultimately show ?thesis using Cons.IH Cons.prems(1) by simp
  next
    case True
    obtain r p where f: "free_seq (sq_cache s) e = (r, e\<lparr>e_pool := p\<rparr>)" using free_seq_frame by blast
    obtain e1 d1 where e1: "cancel_running E W ss e1 = (Ret d1, e')" "running e1 = remove1 s (running e)"
      using Cons.prems(1) True f by (auto simp: bindS_eq_Ret finish_now_unfold Let_def record_finished_def)
    have s: "s \<in># mset (running e)" using Cons.prems(2) by (metis insert_subset_eq_iff mset.simps(2))
    moreover have "mset ss \<subseteq># mset (running e1)" using Cons.prems(2) e1(2) by (simp add: insert_subset_eq_iff)
    ultimately show ?thesis using Cons.IH [OF e1(1)] e1(2) True by simp
  qed
qed simp

lemma cancel_waiting_clears:
  assumes "cancel_waiting E W rs e = (d, e')" and "mset rs \<subseteq># mset (waiting e)"
  shows "mset (waiting e') + mset (filter (\<lambda>r. request_id r \<in> W) rs) = mset (waiting e)"
  using assms
proof (induction rs arbitrary: e d)
  case (Cons r rs)
  show ?case
  proof (cases "request_id r \<in> W")
    case False
    moreover have "mset rs \<subseteq># mset (waiting e)"
      using Cons.prems(2) by (metis mset.simps(2) mset_subset_eq_insertD subset_mset.less_imp_le)
    ultimately show ?thesis using Cons.IH Cons.prems(1) by simp
  next
    case True
    obtain e1 d1 where e1: "cancel_waiting E W rs e1 = (d1, e')" "waiting e1 = remove1 r (waiting e)"
      using Cons.prems(1) True by (auto simp: finish_now_unfold Let_def record_finished_def split: prod.splits)
    have s: "r \<in># mset (waiting e)" using Cons.prems(2) by (metis insert_subset_eq_iff mset.simps(2))
    moreover have "mset rs \<subseteq># mset (waiting e1)" using Cons.prems(2) e1(2) by (simp add: insert_subset_eq_iff)
    ultimately show ?thesis using Cons.IH [OF e1(1)] e1(2) True by simp
  qed
qed simp

lemma filter_cleared:
  assumes "mset ys + mset (filter P xs) = mset xs"
  shows "set ys = {x \<in> set xs. \<not> P x}"
proof -
  have "mset xs = mset (filter P xs) + mset (filter (\<lambda>x. \<not> P x) xs)" by (simp flip: multiset_partition)
  then have "mset ys = mset (filter (\<lambda>x. \<not> P x) xs)" using assms by (metis add.commute add_left_imp_eq)
  then have "set ys = set (filter (\<lambda>x. \<not> P x) xs)" by (rule mset_eq_setD)
  then show ?thesis by auto
qed

lemma apply_cancellations_clears:
  assumes "apply_cancellations E e = (Ret d, e')"
  shows "engine_ids e' = engine_ids e - cancel_requested e"
proof (cases "cancel_requested e = {}")
  case True
  then show ?thesis using assms by (simp add: apply_cancellations_def)
next
  case False
  let ?e = "e\<lparr>cancel_requested := {}\<rparr>" and ?W = "cancel_requested e"
  obtain d1 e1 where c1: "cancel_running E ?W (running ?e) ?e = (Ret d1, e1)"
    "(case cancel_waiting E ?W (waiting e1) e1 of (ds, f) \<Rightarrow> (Ret (d1 @ ds), f)) = (Ret d, e')"
    using assms False by (auto simp: apply_cancellations_def Let_def bindS_eq_Ret)
  then obtain d2 where c: "cancel_running E ?W (running ?e) ?e = (Ret d1, e1)" "cancel_waiting E ?W (waiting e1) e1 = (d2, e')"
    by (cases "cancel_waiting E ?W (waiting e1) e1") auto
  have w: "waiting e1 = waiting e" using cancel_running_moves [OF c(1)] by simp
  have r: "running e' = running e1" using cancel_waiting_moves [OF c(2)] by simp
  have "set (running e1) = {s \<in> set (running e). request_id (sq_request s) \<notin> ?W}"
    using filter_cleared [OF cancel_running_clears [OF c(1)]] by simp
  moreover have "set (waiting e') = {s \<in> set (waiting e). request_id s \<notin> ?W}"
    using filter_cleared [OF cancel_waiting_clears [OF c(2)]] w by simp
  ultimately show ?thesis using r by (auto simp: engine_ids_def)
qed

lemma engine_ids_mset: "engine_ids e = set_mset (rids (waiting e) + sids (running e))"
  by (auto simp: engine_ids_def rids_def sids_def)

lemma moves_ids: "moves e d e' \<Longrightarrow> engine_ids e' \<subseteq> engine_ids e"
  unfolding moves_def engine_ids_mset by (metis mset_subset_eq_add_left set_mset_mono)

lemma step_clears:
  assumes "step E e = (Ret d, e')"
  shows "engine_ids e' \<subseteq> engine_ids e - cancel_requested e"
proof -
  obtain d1 e1 where a: "apply_cancellations E e = (Ret d1, e1)" using assms by (auto simp: step_def bindS_eq_Ret)
  have "\<exists>d2. moves e1 d2 e'"
  proof -
    obtain ns d2 e2 where s: "admit_waiting E e1 = (Ret (ns, d2), e2)"
      "(let f = e2\<lparr>running := running e2 @ ns\<rparr> in if running f = [] then (Ret (d1 @ d2), f) else decode_step E (d1 @ d2) f) = (Ret d, e')"
      using assms a by (auto simp: step_def bindS_eq_Ret Let_def)
    let ?f = "e2\<lparr>running := running e2 @ ns\<rparr>"
    have m: "moves e1 d2 ?f"
      using admit_loop_moves [of E "waiting e1" "[]" "[]" e1 ns d2 e2] s(1) by (auto simp: admit_waiting_def moves_def ac_simps)
    show ?thesis
    proof (cases "running ?f = []")
      case True
      then show ?thesis using s(2) m by (auto simp: Let_def)
    next
      case False
      then show ?thesis using s(2) decode_step_moves [of E "d1 @ d2" ?f d e'] moves_trans [OF m] by (fastforce simp: Let_def)
    qed
  qed
  then show ?thesis using moves_ids apply_cancellations_clears [OF a] by blast
qed

section \<open>The invariant\<close>

fun texts :: "event list \<Rightarrow> str" where
  "texts [] = []"
| "texts (Token p # evs) = p @ texts evs"
| "texts (_ # evs) = texts evs"

lemma texts_append [simp]: "texts (a @ b) = texts a @ texts b"
  by (induction a rule: texts.induct) simp_all

text \<open>A connection in step with its stream: what it has read and what is queued are the tokens emitted for it, and what it
  has sent is the settled text of what it has read.\<close>

definition conn_ok :: "server \<Rightarrow> string \<Rightarrow> conn \<Rightarrow> bool" where
  "conn_ok sv rid c \<longleftrightarrow>
     (\<exists>s. ae_streams (sv_ae sv) rid = Some s \<and> cn_produced c @ st_queue s = tokens_for rid (sv_log sv)) \<and>
     (cn_open c \<longrightarrow> (\<exists>text. decode (sv_tok sv) (cn_produced c) = Ret text) \<and> cn_emitted c = length (settled (sv_tok sv) (cn_produced c))) \<and>
     ((\<exists>text. decode (sv_tok sv) (cn_produced c) = Ret text) \<longrightarrow> texts (sv_sent sv rid) = settled (sv_tok sv) (cn_produced c)) \<and>
     (cn_open c \<or> rid \<in> cancel_requested (ae_engine (sv_ae sv)) \<or> rid \<notin> engine_ids (ae_engine (sv_ae sv)))"

definition server_ok :: "server \<Rightarrow> bool" where
  "server_ok sv \<longleftrightarrow> emitted (ae_engine (sv_ae sv)) = [] \<and> (\<forall>rid c. sv_conns sv rid = Some c \<longrightarrow> conn_ok sv rid c)"

lemma fanout_quiet:
  assumes "emitted (ae_engine ae) = []"
  shows "\<exists>f. ae_streams (fanout ae) rid = map_option f (ae_streams ae rid) \<and> (\<forall>s. st_queue (f s) = st_queue s)"
  using fanout_stream [of ae rid] assms by (simp add: tokens_for_def)

text \<open>A step that keeps the connection, the tokens read and queued, the text sent, and does not revive a cancelled request.\<close>

lemma conn_ok_keep:
  assumes "conn_ok sv rid c" and "sv_log sv' = sv_log sv" and "sv_sent sv' rid = sv_sent sv rid" and "vocab (sv_tok sv') = vocab (sv_tok sv)"
    and "\<exists>f. ae_streams (sv_ae sv') rid = map_option f (ae_streams (sv_ae sv) rid) \<and> (\<forall>s. st_queue (f s) = st_queue s)"
    and "cancel_requested (ae_engine (sv_ae sv)) \<subseteq> cancel_requested (ae_engine (sv_ae sv'))"
    and "rid \<in> engine_ids (ae_engine (sv_ae sv')) \<longrightarrow> rid \<in> engine_ids (ae_engine (sv_ae sv))"
  shows "conn_ok sv' rid c"
proof -
  obtain f where f: "ae_streams (sv_ae sv') rid = map_option f (ae_streams (sv_ae sv) rid)" "\<forall>s. st_queue (f s) = st_queue s"
    using assms(5) by blast
  obtain s where "ae_streams (sv_ae sv) rid = Some s" "cn_produced c @ st_queue s = tokens_for rid (sv_log sv)"
    using assms(1) by (auto simp: conn_ok_def)
  then have "\<exists>s. ae_streams (sv_ae sv') rid = Some s \<and> cn_produced c @ st_queue s = tokens_for rid (sv_log sv')"
    using f assms(2) by simp
  moreover have "cn_open c \<or> rid \<in> cancel_requested (ae_engine (sv_ae sv')) \<or> rid \<notin> engine_ids (ae_engine (sv_ae sv'))"
    using assms(1,6,7) by (auto simp: conn_ok_def)
  ultimately show ?thesis
    using assms(1,3) settled_vocab [OF assms(4)] unfolding conn_ok_def decode_vocab [OF assms(4)] by simp
qed

lemma submit_frame:
  assumes "submit E req ae = (r, ae')" and "emitted (ae_engine ae) = []"
  shows "emitted (ae_engine ae') = []" "cancel_requested (ae_engine ae') = cancel_requested (ae_engine ae)"
    "engine_ids (ae_engine ae') \<subseteq> insert (request_id req) (engine_ids (ae_engine ae))"
    "rid \<noteq> request_id req \<Longrightarrow> \<exists>f. ae_streams ae' rid = map_option f (ae_streams ae rid) \<and> (\<forall>s. st_queue (f s) = st_queue s)"
    "\<exists>s. ae_streams ae' (request_id req) = Some s \<and> st_queue s = []"
proof -
  let ?a = "ae\<lparr>ae_streams := (ae_streams ae)(request_id req \<mapsto> new_stream)\<rparr>"
  obtain q e where a: "add_request E req (ae_engine ae) = (q, e)" by (cases "add_request E req (ae_engine ae)")
  note fr = add_request_frame [OF a]
  have ae': "ae' = ?a\<lparr>ae_engine := e\<rparr> \<or> ae' = fanout (?a\<lparr>ae_engine := e\<rparr>)"
    using assms(1) a by (auto simp: submit_def Let_def split: outcome.splits)
  have q: "emitted (ae_engine (?a\<lparr>ae_engine := e\<rparr>)) = []" using fr(1) assms(2) by simp
  have ids: "engine_ids (e\<lparr>emitted := [], newly_finished := []\<rparr>) = engine_ids e" by (simp add: engine_ids_def)
  show "emitted (ae_engine ae') = []" "cancel_requested (ae_engine ae') = cancel_requested (ae_engine ae)"
    "engine_ids (ae_engine ae') \<subseteq> insert (request_id req) (engine_ids (ae_engine ae))"
    using ae' fr assms(2) ids by auto
  have id: "\<exists>f. m = map_option f m \<and> (\<forall>s. st_queue (f s) = st_queue s)" for m :: "stream option"
    by (intro exI [of _ "\<lambda>s. s"]) (simp add: option.map_ident)
  have any: "\<exists>f. ae_streams ae' rid = map_option f (ae_streams ?a rid) \<and> (\<forall>s. st_queue (f s) = st_queue s)" for rid
    using ae' fanout_quiet [OF q, of rid] id by auto
  from any [of rid] show "\<exists>f. ae_streams ae' rid = map_option f (ae_streams ae rid) \<and> (\<forall>s. st_queue (f s) = st_queue s)"
    if "rid \<noteq> request_id req" using that by simp
  from any [of "request_id req"] show "\<exists>s. ae_streams ae' (request_id req) = Some s \<and> st_queue s = []"
    by (auto simp: new_stream_def)
qed

lemma same_streams: "\<exists>f. m = map_option f m \<and> (\<forall>s. st_queue (f s) = st_queue s)" for m :: "stream option"
  by (intro exI [of _ "\<lambda>s. s"]) (simp add: option.map_ident)

text \<open>A fresh request is submitted, then refused or given a connection.\<close>

lemma submit_ok:
  assumes ok: "server_ok sv" and fr: "tokens_for rid (sv_log sv) = []" "texts (sv_sent sv rid) = []" and rid: "request_id req = rid" and vt: "vocab tok = vocab (sv_tok sv)"
    and sub: "submit E req ((sv_ae sv)\<lparr>ae_engine := (ae_engine (sv_ae sv))\<lparr>e_clock := n\<rparr>\<rparr>) = (q, ae)"
    and sv': "sv_conns sv rid = None" "sv' = sv\<lparr>sv_tok := tok, sv_ae := ae\<rparr> \<or> sv' = sv\<lparr>sv_tok := tok, sv_ae := release rid ae\<rparr> \<or>
       (texts evs = [] \<and> sv' = send rid evs (sv\<lparr>sv_tok := tok, sv_ae := ae, sv_conns := (sv_conns sv)(rid \<mapsto>
         \<lparr>cn_produced = [], cn_emitted = 0, cn_open = True\<rparr>)\<rparr>))"
  shows "server_ok sv'"
proof -
  let ?e = "(ae_engine (sv_ae sv))\<lparr>e_clock := n\<rparr>"
  have em: "emitted (ae_engine ((sv_ae sv)\<lparr>ae_engine := ?e\<rparr>)) = []" "engine_ids ?e = engine_ids (ae_engine (sv_ae sv))"
    using ok by (simp_all add: server_ok_def engine_ids_def)
  note sf = submit_frame [OF sub em(1)]
  have st: "\<exists>f. ae_streams ae i = map_option f (ae_streams (sv_ae sv) i) \<and> (\<forall>s. st_queue (f s) = st_queue s)" if "i \<noteq> rid" for i
    using sf(4) [of i] that rid by simp
  have old: "conn_ok sv' i c" if c: "sv_conns sv i = Some c" "i \<noteq> rid" for i c
  proof (rule conn_ok_keep [of sv i c sv'])
    show "conn_ok sv i c" using ok c(1) by (simp add: server_ok_def)
  qed (use sv' st [OF c(2)] c(2) sf(2,3) vt rid em(2) in \<open>auto simp: send_def release_def\<close>)
  have new: "conn_ok sv' rid c" if "sv_conns sv' rid = Some c" for c
    using sv' that fr sf(5) rid by (auto simp: send_def release_def conn_ok_def decode_def)
  have "conn_ok sv' i c" if "sv_conns sv' i = Some c" for i c
  proof (cases "i = rid")
    case False
    then have "sv_conns sv i = Some c" using that sv' by (auto simp: send_def)
    then show ?thesis using old False by simp
  qed (use new that in simp)
  moreover have "emitted (ae_engine (sv_ae sv')) = []" using sv' sf(1) by (auto simp: send_def release_def)
  ultimately show ?thesis by (simp add: server_ok_def)
qed

lemma encode_vocab: "encode U w False t = (r, t') \<Longrightarrow> vocab t' = vocab t"
  using encode_pieces_vocab by (auto simp: encode_def encode_ordinary_def)

lemma new_tok_ok:
  assumes "server_ok sv" and "vocab tok = vocab (sv_tok sv)"
  shows "server_ok (sv\<lparr>sv_tok := tok\<rparr>)"
proof -
  have "conn_ok (sv\<lparr>sv_tok := tok\<rparr>) i c" if "sv_conns sv i = Some c" for i c
    using conn_ok_keep [of sv i c "sv\<lparr>sv_tok := tok\<rparr>"] that assms same_streams [of "ae_streams (sv_ae sv) i"] by (auto simp: server_ok_def)
  then show ?thesis using assms(1) by (simp add: server_ok_def)
qed

lemma arrive_ok:
  assumes ok: "server_ok sv" and fr: "fresh rid sv" and h: "handle_generate E U rid body sv = (r, sv')"
  shows "server_ok sv'"
proof -
  obtain er tok where en: "encode U (gb_prompt body) False (sv_tok sv) = (er, tok)" by (cases "encode U (gb_prompt body) False (sv_tok sv)")
  let ?e = "(ae_engine (sv_ae sv))\<lparr>e_clock := Suc (e_clock (ae_engine (sv_ae sv)))\<rparr>"
  consider (quiet) "sv' = sv" | (enc) "sv' = sv\<lparr>sv_tok := tok\<rparr>"
    | (sub) req q ae where "submit E req ((sv_ae sv)\<lparr>ae_engine := ?e\<rparr>) = (q, ae)" "request_id req = rid"
      "sv' = sv\<lparr>sv_tok := tok, sv_ae := ae\<rparr> \<or> sv' = sv\<lparr>sv_tok := tok, sv_ae := release rid ae\<rparr> \<or>
       sv' = send rid [Start rid] (sv\<lparr>sv_tok := tok, sv_ae := ae, sv_conns := (sv_conns sv)(rid \<mapsto>
         \<lparr>cn_produced = [], cn_emitted = 0, cn_open = True\<rparr>)\<rparr>)"
    using h en by (auto simp: handle_generate_def perf_counter_unfold Let_def new_request_def
        split: if_splits outcome.splits prod.splits)
  then show ?thesis
  proof cases
    case sub
    have "tokens_for rid (sv_log sv) = []" "texts (sv_sent sv rid) = []" "sv_conns sv rid = None"
      using fr by (auto simp: fresh_def tokens_for_def filter_empty_conv)
    from submit_ok [OF ok this(1,2) sub(2) encode_vocab [OF en] sub(1) this(3), of sv' "[Start rid]"] show ?thesis
      using sub(3) by simp
  qed (use ok new_tok_ok [OF ok encode_vocab [OF en]] in simp_all)
qed

text \<open>A turn of the background task: what it emits is appended to the log and to the queues, and it drops what was
  cancelled before it.\<close>

lemma run_turn_frame:
  assumes "run_turn E ae = (Ret (), ae')"
  shows "emitted (ae_engine ae') = []" "engine_ids (ae_engine ae') \<subseteq> engine_ids (ae_engine ae) - cancel_requested (ae_engine ae)"
    "\<exists>f. ae_streams ae' rid = map_option f (ae_streams ae rid) \<and> (\<forall>s. st_queue (f s) = st_queue s @ tokens_for rid (turn_tokens E ae))"
proof -
  obtain d e where e: "(if \<not> has_work (ae_engine ae) then apply_cancellations E (ae_engine ae) else step E (ae_engine ae)) = (Ret d, e)"
    and ae': "ae' = fanout (ae\<lparr>ae_engine := e\<rparr>)"
    using assms by (auto simp: run_turn_def split: prod.splits outcome.splits if_splits)
  have t: "turn_tokens E ae = emitted e" using e by (simp add: turn_tokens_def)
  have "engine_ids e \<subseteq> engine_ids (ae_engine ae) - cancel_requested (ae_engine ae)"
    using e apply_cancellations_clears step_clears by (fastforce split: if_splits)
  then show "engine_ids (ae_engine ae') \<subseteq> engine_ids (ae_engine ae) - cancel_requested (ae_engine ae)"
    by (auto simp: ae' engine_ids_def)
  show "emitted (ae_engine ae') = []" by (simp add: ae')
  show "\<exists>f. ae_streams ae' rid = map_option f (ae_streams ae rid) \<and> (\<forall>s. st_queue (f s) = st_queue s @ tokens_for rid (turn_tokens E ae))"
    using fanout_stream [of "ae\<lparr>ae_engine := e\<rparr>" rid] by (simp add: ae' t)
qed

lemma turn_ok:
  assumes ok: "server_ok sv" and r: "run_turn E (sv_ae sv) = (Ret (), ae)"
  shows "server_ok (sv\<lparr>sv_ae := ae, sv_log := sv_log sv @ turn_tokens E (sv_ae sv)\<rparr>)"
proof -
  note fr = run_turn_frame [OF r]
  have "conn_ok (sv\<lparr>sv_ae := ae, sv_log := sv_log sv @ turn_tokens E (sv_ae sv)\<rparr>) i c" if "sv_conns sv i = Some c" for i c
  proof -
    have c: "conn_ok sv i c" using ok that by (simp add: server_ok_def)
    obtain f where f: "ae_streams ae i = map_option f (ae_streams (sv_ae sv) i)"
      "\<forall>s. st_queue (f s) = st_queue s @ tokens_for i (turn_tokens E (sv_ae sv))" using fr(3) by blast
    have "\<exists>s. ae_streams ae i = Some s \<and> cn_produced c @ st_queue s = tokens_for i (sv_log sv) @ tokens_for i (turn_tokens E (sv_ae sv))"
      using c f by (auto simp: conn_ok_def)
    moreover have "cn_open c \<or> i \<notin> engine_ids (ae_engine ae)" using c fr(2) by (auto simp: conn_ok_def)
    ultimately show ?thesis using c by (auto simp: conn_ok_def)
  qed
  then show ?thesis using fr(1) by (simp add: server_ok_def)
qed

lemma leave_loop_ok:
  assumes "conn_ok sv rid c" and "texts evs = []"
  shows "conn_ok (leave_loop rid evs c sv) rid (c\<lparr>cn_open := False\<rparr>)"
  using assms by (auto simp: conn_ok_def leave_loop_def send_def cancel_begin_def request_cancel_def)

text \<open>Reading one token leaves the connection in step with its stream.\<close>

lemma read_own:
  assumes c: "conn_ok sv rid c" "cn_open c" and s: "ae_streams (sv_ae sv) rid = Some s"
    and t: "stream_turn gone rid c s sv = (r, sv')" and c': "sv_conns sv' rid = Some c'" and old: "sv_conns sv rid = Some c"
  shows "conn_ok sv' rid c'"
proof (cases "gone \<or> st_queue s = []")
  case True
  then show ?thesis
    using t c' c leave_loop_ok [OF c(1)] old
    by (auto simp: stream_turn_def Let_def leave_loop_def send_def split: if_splits list.splits)
next
  case False
  then obtain tid rest where q: "st_queue s = tid # rest" "\<not> gone" by (cases "st_queue s") auto
  let ?sv = "sv\<lparr>sv_ae := (sv_ae sv)\<lparr>ae_streams := (ae_streams (sv_ae sv))(rid \<mapsto> s\<lparr>st_queue := rest\<rparr>)\<rparr>\<rparr>"
  let ?p = "cn_produced c @ [tid]"
  have inv: "cn_emitted c = length (settled (sv_tok sv) (cn_produced c))" "texts (sv_sent sv rid) = settled (sv_tok sv) (cn_produced c)"
    and log: "?p @ rest = tokens_for rid (sv_log sv)"
    using c s q by (auto simp: conn_ok_def)
  show ?thesis
  proof (cases "decode (sv_tok sv) ?p")
    case (Raise x)
    then show ?thesis
      using t q c' log by (auto simp: stream_turn_def Let_def next_piece_def leave_loop_def send_def conn_ok_def cancel_begin_def request_cancel_def)
  next
    case (Ret decoded)
    obtain piece where p: "next_piece (sv_tok sv) ?p (cn_emitted c) = Ret piece"
      "settled (sv_tok sv) ?p = settled (sv_tok sv) (cn_produced c) @ (case piece of None \<Rightarrow> [] | Some d \<Rightarrow> d)"
      using next_piece_settled [OF Ret] inv(1) by auto
    then show ?thesis
      using t q c' log inv Ret c(2)
      by (cases piece) (auto simp: stream_turn_def Let_def send_def conn_ok_def)
  qed
qed

lemma read_ok:
  assumes ok: "server_ok sv" and c: "sv_conns sv rid = Some c" "cn_open c" and s: "ae_streams (sv_ae sv) rid = Some s"
    and t: "stream_turn gone rid c s sv = (r, sv')"
  shows "server_ok sv'"
proof -
  have fr: "emitted (ae_engine (sv_ae sv')) = emitted (ae_engine (sv_ae sv))" "i \<noteq> rid \<Longrightarrow> sv_conns sv' i = sv_conns sv i"
    "sv_log sv' = sv_log sv" "i \<noteq> rid \<Longrightarrow> sv_sent sv' i = sv_sent sv i" "sv_tok sv' = sv_tok sv"
    "i \<noteq> rid \<Longrightarrow> ae_streams (sv_ae sv') i = ae_streams (sv_ae sv) i"
    "cancel_requested (ae_engine (sv_ae sv)) \<subseteq> cancel_requested (ae_engine (sv_ae sv'))"
    "engine_ids (ae_engine (sv_ae sv')) = engine_ids (ae_engine (sv_ae sv))" for i
    using t by (auto simp: stream_turn_def Let_def leave_loop_def send_def cancel_begin_def request_cancel_def engine_ids_def
        split: if_splits list.splits outcome.splits option.splits)
  have "conn_ok sv' i c'" if "sv_conns sv' i = Some c'" for i c'
  proof (cases "i = rid")
    case True
    then show ?thesis using read_own [OF _ c(2) s t] that ok c(1) by (simp add: server_ok_def)
  next
    case False
    then show ?thesis
      using conn_ok_keep [of sv i c' sv'] that ok fr(2,4,6) [of i] fr(3,5,7,8) same_streams [of "ae_streams (sv_ae sv) i"] by (auto simp: server_ok_def)
  qed
  then show ?thesis using ok fr(1) by (simp add: server_ok_def)
qed

lemma close_ok:
  assumes ok: "server_ok sv"
  shows "server_ok (stream_close rid sv)"
proof -
  let ?sv' = "stream_close rid sv"
  have em: "emitted (ae_engine (sv_ae sv)) = []" using ok by (simp add: server_ok_def)
  have "conn_ok ?sv' i c" if "sv_conns ?sv' i = Some c" for i c
  proof -
    have i: "i \<noteq> rid" "sv_conns sv i = Some c" using that by (auto simp: stream_close_def split: if_splits)
    have "\<exists>f. ae_streams (sv_ae ?sv') i = map_option f (ae_streams (sv_ae sv) i) \<and> (\<forall>s. st_queue (f s) = st_queue s)"
      using fanout_quiet [OF em, of i] i(1) by (simp add: stream_close_def release_def cancel_end_def)
    then show ?thesis
      using conn_ok_keep [of sv i c ?sv'] ok i by (auto simp: server_ok_def stream_close_def release_def cancel_end_def engine_ids_def)
  qed
  then show ?thesis using em by (simp add: server_ok_def stream_close_def release_def cancel_end_def)
qed

lemma serve_ok: "serve E U sv sv' \<Longrightarrow> server_ok sv \<Longrightarrow> server_ok sv'"
proof (induction rule: serve.induct)
  case (cancel sv rid)
  have "conn_ok (sv\<lparr>sv_ae := snd (cancel_begin rid (sv_ae sv))\<rparr>) i c" if "sv_conns sv i = Some c" for i c
    using conn_ok_keep [of sv i c "sv\<lparr>sv_ae := snd (cancel_begin rid (sv_ae sv))\<rparr>"] that cancel same_streams [of "ae_streams (sv_ae sv) i"]
    by (auto simp: server_ok_def cancel_begin_def request_cancel_def engine_ids_def)
  then show ?case using cancel by (simp add: server_ok_def cancel_begin_def request_cancel_def)
qed (use arrive_ok turn_ok read_ok close_ok in blast)+

lemma reachable_ok: "reachable E U sv0 sv \<Longrightarrow> server_ok sv0 \<Longrightarrow> server_ok sv"
  by (induction rule: reachable.induct) (auto intro: serve_ok)

lemma fresh_server_ok: "sv_conns sv = Map.empty \<Longrightarrow> emitted (ae_engine (sv_ae sv)) = [] \<Longrightarrow> server_ok sv"
  by (simp add: server_ok_def)



lemma cancel_waiting_slots: "cancel_waiting E W rs e = (d, e') \<Longrightarrow> max_batch_size e' = max_batch_size e"
  by (induction rs arbitrary: e d) (auto simp: finish_now_unfold record_finished_def Let_def split: prod.splits if_splits)

lemma admit_loop_full:
  "max_batch_size e \<le> length (running e) + length adm \<Longrightarrow> admit_loop E ws adm out e = (Ret (adm, out), e\<lparr>waiting := ws\<rparr>)"
  by (cases ws) auto

text \<open>A server to run: one byte token, no batch slots, so that a request waits until it is cancelled.\<close>

definition demo_server :: server where
  "demo_server =
     \<lparr>sv_ae = new_async_engine (new_engine demo_model (new_rope 16 128 10000) (new_pool [] TINY 4 2 2) 0 0 1 True None 8),
      sv_tok = \<lparr>merges = [], special_tokens = [], vocab = [(97, [97])], tok_cache = [([97], [97])]\<rparr>,
      sv_conns = Map.empty, sv_sent = (\<lambda>_. []), sv_log = []\<rparr>"

definition demo_env :: env where
  "demo_env = \<lparr>clk = real, hash2 = demo_hash, smp = first_sampler\<rparr>"

definition demo_body :: generate_body where
  "demo_body = \<lparr>gb_prompt = [97], gb_max_tokens = 2, gb_temperature = 0, gb_top_k = None, gb_top_p = None, gb_ignore_eos = False,
     slo_seconds = None\<rparr>"

lemma demo_encode: "encode ascii [97] False (sv_tok demo_server) = (Ret [97], sv_tok demo_server)"
proof -
  have "match_len ascii [97] = 1"
    by (simp add: match_len_def alternatives_def match_contraction_def match_run_def run_length_def is_letter_def ascii_def UNDERSCORE_def)
  then show ?thesis
    by (simp add: encode_def encode_ordinary_def encode_piece_def str_encode_def utf8_char_def scalar_def demo_server_def)
qed

lemma demo_arrival:
  "\<exists>sv s. reachable demo_env ascii demo_server sv \<and> sv_conns sv ''a'' = Some \<lparr>cn_produced = [], cn_emitted = 0, cn_open = True\<rparr> \<and>
    ae_streams (sv_ae sv) ''a'' = Some s \<and> waiting (ae_engine (sv_ae sv)) \<noteq> [] \<and> sv_sent sv ''a'' = [Start ''a''] \<and>
    running (ae_engine (sv_ae sv)) = [] \<and> max_batch_size (ae_engine (sv_ae sv)) = 0"
proof -
  obtain r sv where h: "handle_generate demo_env ascii ''a'' demo_body demo_server = (r, sv)" by (cases "handle_generate demo_env ascii ''a'' demo_body demo_server")
  have "fresh ''a'' demo_server" by (simp add: fresh_def demo_server_def new_async_engine_def new_engine_def engine_ids_def)
  then have "reachable demo_env ascii demo_server sv" by (blast intro: reachable.intros serve.arrive h)
  moreover have "sv_conns sv ''a'' = Some \<lparr>cn_produced = [], cn_emitted = 0, cn_open = True\<rparr> \<and>
    (\<exists>s. ae_streams (sv_ae sv) ''a'' = Some s) \<and> waiting (ae_engine (sv_ae sv)) \<noteq> [] \<and> sv_sent sv ''a'' = [Start ''a''] \<and>
    running (ae_engine (sv_ae sv)) = [] \<and> max_batch_size (ae_engine (sv_ae sv)) = 0"
    using h demo_encode
    by (auto simp: handle_generate_def demo_server_def demo_body_def valid_body_def Let_def perf_counter_unfold submit_def
        add_request_def new_async_engine_def new_engine_def fanout_def drain_emitted_def drain_finished_def new_stream_def
        new_request_def send_def)
  ultimately show ?thesis by blast
qed


text \<open>C14: a client that goes away does not keep an engine slot. Once its connection has left the loop (the client
  disconnected, or its stream ended), the next turn of the background task leaves no waiting or running request under its
  id, whatever the other connections do in between.\<close>

theorem server_disconnect_releases:
  assumes "reachable E U sv0 sv" and "sv_conns sv0 = Map.empty" and "emitted (ae_engine (sv_ae sv0)) = []"
    and "sv_conns sv rid = Some c" and "\<not> cn_open c" and "run_turn E (sv_ae sv) = (Ret (), ae)"
  shows "(\<forall>r \<in> set (waiting (ae_engine ae)). request_id r \<noteq> rid) \<and>
    (\<forall>s \<in> set (running (ae_engine ae)). request_id (sq_request s) \<noteq> rid)"
proof -
  have "conn_ok sv rid c"
    using reachable_ok [OF assms(1) fresh_server_ok [OF assms(2,3)]] assms(4) by (simp add: server_ok_def)
  then have "rid \<notin> engine_ids (ae_engine ae)" using run_turn_frame(2) [OF assms(6)] assms(5) by (auto simp: conn_ok_def)
  then show ?thesis by (auto simp: engine_ids_def)
qed

theorem server_disconnect_releases_witness:
  "\<exists>sv ae r. reachable demo_env ascii demo_server sv \<and> r \<in> set (waiting (ae_engine (sv_ae sv))) \<and>
    run_turn demo_env (sv_ae sv) = (Ret (), ae) \<and> (\<forall>r \<in> set (waiting (ae_engine ae)). request_id r \<noteq> ''a'')"
proof -
  obtain sv s where sv: "reachable demo_env ascii demo_server sv"
    "sv_conns sv ''a'' = Some \<lparr>cn_produced = [], cn_emitted = 0, cn_open = True\<rparr>" "ae_streams (sv_ae sv) ''a'' = Some s"
    "waiting (ae_engine (sv_ae sv)) \<noteq> []" "running (ae_engine (sv_ae sv)) = []" "max_batch_size (ae_engine (sv_ae sv)) = 0"
    using demo_arrival by blast
  let ?c = "\<lparr>cn_produced = [], cn_emitted = 0, cn_open = True\<rparr>"
  obtain sv2 where t: "stream_turn True ''a'' ?c s sv = (Ret (), sv2)" by (simp add: stream_turn_def Let_def)
  have r2: "reachable demo_env ascii demo_server sv2" using sv(1) serve.read [OF sv(2) _ sv(3) t] by (auto intro: reachable.next_step)
  have e2: "sv_ae sv2 = snd (cancel_begin ''a'' (sv_ae sv))" "sv_conns sv2 ''a'' = Some (?c\<lparr>cn_open := False\<rparr>)"
    using t by (auto simp: stream_turn_def Let_def leave_loop_def send_def)
  have q: "running (ae_engine (sv_ae sv2)) = []" "max_batch_size (ae_engine (sv_ae sv2)) = 0"
    "waiting (ae_engine (sv_ae sv2)) = waiting (ae_engine (sv_ae sv))"
    using e2 sv by (simp_all add: cancel_begin_def request_cancel_def)
  have "\<exists>d e'. step demo_env e = (Ret d, e')" if e: "running e = []" "max_batch_size e = 0" for e
  proof -
    obtain d1 e1 where c: "cancel_waiting demo_env (cancel_requested e) (waiting e) (e\<lparr>cancel_requested := {}\<rparr>) = (d1, e1)" by force
    have "running e1 = [] \<and> max_batch_size e1 = 0" using c e cancel_waiting_moves [OF c] cancel_waiting_slots [OF c] by simp
    then show ?thesis using c e by (auto simp: step_def apply_cancellations_def admit_waiting_def Let_def admit_loop_full)
  qed
  then obtain ae where turn: "run_turn demo_env (sv_ae sv2) = (Ret (), ae)"
    using q sv(4) by (fastforce simp: run_turn_def has_work_def)
  have "sv_conns demo_server = Map.empty" "emitted (ae_engine (sv_ae demo_server)) = []"
    by (simp_all add: demo_server_def new_async_engine_def new_engine_def)
  from server_disconnect_releases [OF r2 this e2(2) _ turn] have
    "\<forall>r \<in> set (waiting (ae_engine ae)). request_id r \<noteq> ''a''" by simp
  moreover obtain r where "r \<in> set (waiting (ae_engine (sv_ae sv2)))" using q(3) sv(4) by (metis list.set_intros(1) neq_Nil_conv)
  ultimately show ?thesis using r2 turn by blast
qed

end
