(* ===== verification/Service.thy ===== *)
theory Service
  imports Engine_Live Server
begin

text \<open>
  The service from end to end: what an HTTP client reads is what the model says. \<open>traced\<close> follows the requests through the parts of a
  scheduler step: a request keeps its call, and its output grows by exactly the tokens emitted under its id (\<open>grows\<close>), unless it is
  preempted and starts again (\<open>resumes\<close>). \<open>ledger\<close> is the invariant of the server over these: the log of emitted tokens against the
  outputs of the requests (\<open>replayed\<close>), and every connection's stream against its request (\<open>told\<close>). With the invariant of
  \<open>Engine_Correct\<close> and the delivery theorem of \<open>Server\<close> it says what a connection has read.
\<close>

section \<open>Emission follows output\<close>

definition grows :: "(string \<times> nat) list \<Rightarrow> request \<Rightarrow> request \<Rightarrow> bool" where
  "grows ems q q' \<longleftrightarrow> call_of q' = call_of q \<and> output_token_ids q' = output_token_ids q @ tokens_for (request_id q) ems"



lemma tokens_for_Nil [simp]: "tokens_for rid [] = []"
  by (simp add: tokens_for_def)




lemma grows_finish [simp]: "grows ems q (finish x t q') = grows ems q q'"
  by (simp add: grows_def call_of_def)




text \<open>A list of requests traced through a list of steps: each result comes from one of the sources.\<close>

definition traced :: "request list \<Rightarrow> (string \<times> nat) list \<Rightarrow> request list \<Rightarrow> bool" where
  "traced qs ems qs' \<longleftrightarrow> fst ` set ems \<subseteq> request_id ` set qs \<and> (\<forall>q' \<in> set qs'. \<exists>q \<in> set qs. grows ems q q')"







section \<open>Admission, cancellation, one step\<close>





lemma grows_closed: "traced qs ems (q # qs') \<Longrightarrow> traced qs ems (finish x t q # qs')"
  by (simp add: traced_def)







lemma step_seconds_emitted [simp]: "emitted (step_seconds E t n e) = emitted e" "preemptions (step_seconds E t n e) = preemptions e"
  by (simp_all add: step_seconds_def perf_counter_unfold split: option.splits)














section \<open>The ledger of the service\<close>























lemma engine_ok_quiet [simp]:
  "engine_ok H (e\<lparr>e_clock := n\<rparr>) = engine_ok H e" "engine_ok H (e\<lparr>admission_ctl := a\<rparr>) = engine_ok H e"
  "engine_ok H (e\<lparr>e_finished := f\<rparr>) = engine_ok H e" "engine_ok H (e\<lparr>num_finished := k\<rparr>) = engine_ok H e"
  "engine_ok H (e\<lparr>emitted := m\<rparr>) = engine_ok H e" "engine_ok H (e\<lparr>cancel_requested := c\<rparr>) = engine_ok H e"
  by (simp_all add: engine_ok_def logs_ok_def)








section \<open>What a client reads\<close>












end
