(* ===== verification/Static_Cache.thy ===== *)
theory Static_Cache
  imports KV_Protocol "HOL-Library.AList"
begin

text \<open>
  The pre-allocated contiguous cache of \<^verbatim>\<open>engine/kv_cache.py\<close>: \<open>spool\<close> is \<^verbatim>\<open>StaticCachePool\<close>, \<open>scache\<close> is
  \<^verbatim>\<open>StaticKVCache\<close>. Cache objects are shared between the caller and the pool's dictionary \<^verbatim>\<open>_live\<close>, so they
  live in a heap (\<open>sp_objs\<close>) and both sides hold an index; dictionaries are association lists in insertion
  order. Memory is \<open>layer \<Rightarrow> slot \<Rightarrow> position\<close>. The cache is another interpretation of \<open>kv_protocol\<close>; the
  accounting of \<^verbatim>\<open>PoolStats\<close> and the comparison of the two budgets close the theory.
\<close>

record scache =
  sc_slot :: nat
  sc_pos :: nat
  sc_start :: nat

record 'r spool =
  sp_cfg :: nano_config
  sp_num_slots :: nat
  sp_max_seq_len :: nat
  sp_itemsize :: nat
  sp_k :: "'r list list list"
  sp_v :: "'r list list list"
  sp_free :: "nat list"
  sp_live :: "(nat \<times> nat) list"
  sp_expected :: "(nat \<times> nat) list"
  sp_objs :: "scache list"

definition or_default :: "nat option \<Rightarrow> nat \<Rightarrow> nat" where
  "or_default x d = (case x of None \<Rightarrow> d | Some n \<Rightarrow> if n = 0 then d else n)"

definition new_spool :: "'r \<Rightarrow> nano_config \<Rightarrow> nat \<Rightarrow> nat option \<Rightarrow> nat \<Rightarrow> 'r spool" where
  "new_spool zero c num_slots max_seq_len isz =
     (let m = or_default max_seq_len (max_position_embeddings c);
          mem = replicate (num_hidden_layers c) (replicate num_slots (replicate m zero))
      in \<lparr>sp_cfg = c, sp_num_slots = num_slots, sp_max_seq_len = m, sp_itemsize = isz, sp_k = mem, sp_v = mem,
          sp_free = [0..<num_slots], sp_live = [], sp_expected = [], sp_objs = []\<rparr>)"

section \<open>Allocation\<close>

definition static_allocate :: "nat option \<Rightarrow> 'r spool \<Rightarrow> nat option \<times> 'r spool" where
  "static_allocate expected_len p =
     (if sp_free p = [] then (None, p)
      else let slot = last (sp_free p); h = length (sp_objs p)
           in (Some h, p\<lparr>sp_free := butlast (sp_free p),
                 sp_objs := sp_objs p @ [\<lparr>sc_slot = slot, sc_pos = 0, sc_start = 0\<rparr>],
                 sp_live := AList.update slot h (sp_live p),
                 sp_expected := AList.update slot
                   (min (or_default expected_len (sp_max_seq_len p)) (sp_max_seq_len p)) (sp_expected p)\<rparr>))"

definition static_free :: "nat \<Rightarrow> 'r spool \<Rightarrow> 'r spool" where
  "static_free h p =
     (let slot = sc_slot (sp_objs p ! h) in
      if map_of (sp_live p) slot \<noteq> None
      then p\<lparr>sp_live := AList.delete slot (sp_live p), sp_expected := AList.delete slot (sp_expected p),
             sp_free := sp_free p @ [slot]\<rparr>
      else p)"

definition static_reset :: "'r spool \<Rightarrow> 'r spool" where
  "static_reset p = p\<lparr>sp_live := [], sp_expected := [], sp_free := [0..<sp_num_slots p]\<rparr>"

section \<open>The protocol\<close>

definition put_slice :: "nat \<Rightarrow> 'a list \<Rightarrow> 'a list \<Rightarrow> 'a list" where
  "put_slice start rows xs = take start xs @ rows @ drop (start + length rows) xs"

definition static_begin :: "nat \<Rightarrow> 'r spool \<times> nat \<Rightarrow> unit outcome \<times> ('r spool \<times> nat)" where
  "static_begin n st =
     (case st of (p, h) \<Rightarrow>
        let c = sp_objs p ! h; c' = c\<lparr>sc_start := sc_pos c, sc_pos := sc_pos c + n\<rparr>;
            p' = p\<lparr>sp_objs := (sp_objs p)[h := c']\<rparr>
        in (if sc_pos c' > sp_max_seq_len p
            then (Raise (RuntimeError ''sequence exceeded slot capacity''), (p', h))
            else (Ret (), (p', h))))"

definition static_write ::
  "nat \<Rightarrow> 'r list \<Rightarrow> 'r list \<Rightarrow> 'r spool \<times> nat \<Rightarrow> ('r list \<times> 'r list) outcome \<times> ('r spool \<times> nat)" where
  "static_write l k v st =
     (case st of (p, h) \<Rightarrow>
        let c = sp_objs p ! h; slot = sc_slot c; start = sc_start c; n = length k; e = start + n in
        if l \<ge> length (sp_k p) then (Raise IndexError, (p, h))
        else if e > sp_max_seq_len p \<or> length v \<noteq> n then (Raise (RuntimeError ''shape mismatch''), (p, h))
        else let nk = put_slice start k (sp_k p ! l ! slot); nv = put_slice start v (sp_v p ! l ! slot);
                 p' = p\<lparr>sp_k := (sp_k p)[l := (sp_k p ! l)[slot := nk]], sp_v := (sp_v p)[l := (sp_v p ! l)[slot := nv]]\<rparr>
             in (Ret (take e nk, take e nv), (p', h)))"

definition static_update ::
  "nat \<Rightarrow> 'r list \<Rightarrow> 'r list \<Rightarrow> 'r spool \<times> nat \<Rightarrow> ('r list \<times> 'r list) outcome \<times> ('r spool \<times> nat)" where
  "static_update l k v st =
     bindS (if l = 0 then static_begin (length k) st else (Ret (), st)) (\<lambda>_ st. static_write l k v st)"

definition static_len :: "'r spool \<times> nat \<Rightarrow> nat" where
  "static_len st = (case st of (p, h) \<Rightarrow> sc_pos (sp_objs p ! h))"

section \<open>Accounting\<close>

record static_stats =
  slots_total :: nat
  slots_allocated :: nat
  tokens_per_slot :: nat
  tokens_used :: nat
  tokens_reserved :: nat
  ps_bytes_per_token :: nat

definition static_bytes_per_token :: "'r spool \<Rightarrow> nat" where
  "static_bytes_per_token p =
     (let per_layer = 2 * num_key_value_heads (sp_cfg p) * head_dim (sp_cfg p)
      in per_layer * num_hidden_layers (sp_cfg p) * sp_itemsize p)"

definition static_total_bytes :: "'r spool \<Rightarrow> nat" where
  "static_total_bytes p = sp_num_slots p * sp_max_seq_len p * static_bytes_per_token p"

definition static_pool_stats :: "'r spool \<Rightarrow> static_stats outcome" where
  "static_pool_stats p =
     (if \<forall>(slot, _) \<in> set (sp_live p). map_of (sp_expected p) slot \<noteq> None
      then Ret \<lparr>slots_total = sp_num_slots p, slots_allocated = length (sp_live p), tokens_per_slot = sp_max_seq_len p,
             tokens_used = sum_list (map (\<lambda>(_, h). sc_pos (sp_objs p ! h)) (sp_live p)),
             tokens_reserved = sum_list (map (\<lambda>(slot, h). the (map_of (sp_expected p) slot) - sc_pos (sp_objs p ! h)) (sp_live p)),
             ps_bytes_per_token = static_bytes_per_token p\<rparr>
      else Raise KeyError)"

definition tokens_capacity :: "static_stats \<Rightarrow> nat" where
  "tokens_capacity s = slots_total s * tokens_per_slot s"

definition tokens_allocated :: "static_stats \<Rightarrow> nat" where
  "tokens_allocated s = slots_allocated s * tokens_per_slot s"

definition static_internal_fragmentation :: "static_stats \<Rightarrow> int" where
  "static_internal_fragmentation s =
     max 0 (int (tokens_allocated s) - int (tokens_used s) - int (tokens_reserved s))"

definition static_external_fragmentation :: "static_stats \<Rightarrow> int" where
  "static_external_fragmentation s = (int (slots_total s) - int (slots_allocated s)) * int (tokens_per_slot s)"

definition static_utilization :: "static_stats \<Rightarrow> real" where
  "static_utilization s =
     (if tokens_allocated s \<noteq> 0 then real (tokens_used s) / real (tokens_allocated s) else 0)"

definition static_occupancy :: "static_stats \<Rightarrow> real" where
  "static_occupancy s =
     (if tokens_capacity s \<noteq> 0 then real (tokens_used s) / real (tokens_capacity s) else 0)"

definition static_waste_fraction :: "static_stats \<Rightarrow> real" where
  "static_waste_fraction s = 1 - static_utilization s"

definition slots_for_budget :: "nano_config \<Rightarrow> int \<Rightarrow> nat option \<Rightarrow> nat \<Rightarrow> int outcome" where
  "slots_for_budget c budget max_seq_len isz =
     (let m = or_default max_seq_len (max_position_embeddings c);
          per_layer = 2 * num_key_value_heads c * head_dim c;
          bpt = per_layer * num_hidden_layers c * isz
      in if bpt * m = 0 then Raise ZeroDivisionError else Ret (max 0 (budget div int (bpt * m))))"

section \<open>Invariant\<close>

text \<open>Free slots and live slots partition the pool, every live slot's object points back to it, its
  expected length is recorded and both lengths are within the slot.\<close>

definition spool_wf :: "'r spool \<Rightarrow> bool" where
  "spool_wf p \<longleftrightarrow>
     distinct (sp_free p @ map fst (sp_live p)) \<and>
     set (sp_free p) \<union> fst ` set (sp_live p) = {..<sp_num_slots p} \<and>
     distinct (map fst (sp_expected p)) \<and> fst ` set (sp_expected p) = fst ` set (sp_live p) \<and>
     (\<forall>(slot, h) \<in> set (sp_live p). h < length (sp_objs p) \<and> sc_slot (sp_objs p ! h) = slot) \<and>
     (\<forall>(slot, n) \<in> set (sp_expected p). n \<le> sp_max_seq_len p)"

text \<open>The memory has its declared shape.\<close>

definition smem_ok :: "'r spool \<Rightarrow> 'r list list list \<Rightarrow> bool" where
  "smem_ok p mem \<longleftrightarrow> length mem = num_hidden_layers (sp_cfg p) \<and>
     (\<forall>sl \<in> set mem. length sl = sp_num_slots p \<and> (\<forall>rows \<in> set sl. length rows = sp_max_seq_len p))"

definition sobj_ok :: "'r spool \<Rightarrow> nat \<Rightarrow> bool" where
  "sobj_ok p h \<longleftrightarrow> h < length (sp_objs p) \<and> sc_slot (sp_objs p ! h) < sp_num_slots p \<and>
     sc_pos (sp_objs p ! h) \<le> sp_max_seq_len p \<and> smem_ok p (sp_k p) \<and> smem_ok p (sp_v p)"

definition static_ready :: "kv_row spool \<times> nat \<Rightarrow> hist \<Rightarrow> bool" where
  "static_ready st h \<longleftrightarrow>
     (case st of (p, o_id) \<Rightarrow>
        let c = sp_objs p ! o_id; rows = (\<lambda>mem l. take (sc_pos c) (mem ! l ! sc_slot c))
        in sobj_ok p o_id \<and> h = map (\<lambda>l. (rows (sp_k p) l, rows (sp_v p) l)) [0..<num_hidden_layers (sp_cfg p)])"

definition static_mid :: "nat \<Rightarrow> nat \<Rightarrow> kv_row spool \<times> nat \<Rightarrow> hist \<Rightarrow> bool" where
  "static_mid n j st h \<longleftrightarrow>
     (case st of (p, o_id) \<Rightarrow>
        let c = sp_objs p ! o_id;
            rows = (\<lambda>mem l. take (if l < j then sc_pos c else sc_start c) (mem ! l ! sc_slot c))
        in sobj_ok p o_id \<and> sc_pos c = sc_start c + n \<and>
           h = map (\<lambda>l. (rows (sp_k p) l, rows (sp_v p) l)) [0..<num_hidden_layers (sp_cfg p)])"

definition static_fits :: "kv_row spool \<times> nat \<Rightarrow> nat \<Rightarrow> bool" where
  "static_fits st n \<longleftrightarrow> (case st of (p, h) \<Rightarrow> sc_pos (sp_objs p ! h) + n \<le> sp_max_seq_len p \<and> h < length (sp_objs p))"

text \<open>Other slots and other cache objects are untouched.\<close>

definition static_frame :: "kv_row spool \<times> nat \<Rightarrow> kv_row spool \<times> nat \<Rightarrow> bool" where
  "static_frame st st' \<longleftrightarrow>
     (case (st, st') of ((p, h), (q, h')) \<Rightarrow> h' = h \<and>
        length (sp_objs q) = length (sp_objs p) \<and> sc_slot (sp_objs q ! h) = sc_slot (sp_objs p ! h) \<and>
        (\<forall>j. j \<noteq> h \<longrightarrow> sp_objs q ! j = sp_objs p ! j) \<and>
        (\<forall>l slot. slot \<noteq> sc_slot (sp_objs p ! h) \<longrightarrow> sp_k q ! l ! slot = sp_k p ! l ! slot \<and> sp_v q ! l ! slot = sp_v p ! l ! slot))"

section \<open>Slots are never handed out twice\<close>

lemma new_spool_wf: "spool_wf (new_spool z c n m isz)"
  by (auto simp: spool_wf_def new_spool_def Let_def)

lemma update_absent: "k \<notin> fst ` set al \<Longrightarrow> AList.update k v al = al @ [(k, v)]"
  by (induction al) auto

lemma static_allocate_wf:
  assumes "spool_wf p" and "static_allocate e p = (Some h, p')"
  shows "spool_wf p' \<and> h < length (sp_objs p') \<and> sc_pos (sp_objs p' ! h) = 0 \<and>
    sc_slot (sp_objs p' ! h) \<notin> fst ` set (sp_live p)"
proof -
  have "sp_free p \<noteq> []" using assms(2) by (auto simp: static_allocate_def split: if_splits)
  then obtain fs slot where fs: "sp_free p = fs @ [slot]" by (cases "sp_free p" rule: rev_cases) auto
  have new: "slot \<notin> fst ` set (sp_live p)" "slot \<notin> fst ` set (sp_expected p)"
    using assms(1) unfolding spool_wf_def fs by (simp_all only: set_append distinct_append) auto
  have p': "h = length (sp_objs p)"
    "p' = p\<lparr>sp_free := fs, sp_objs := sp_objs p @ [\<lparr>sc_slot = slot, sc_pos = 0, sc_start = 0\<rparr>],
       sp_live := sp_live p @ [(slot, h)],
       sp_expected := sp_expected p @ [(slot, min (or_default e (sp_max_seq_len p)) (sp_max_seq_len p))]\<rparr>"
    using assms(2) new fs by (auto simp: static_allocate_def Let_def update_absent)
  have "spool_wf p'"
    using assms(1) new unfolding spool_wf_def p' fs by (auto simp: nth_append)
  then show ?thesis
    using p' new by simp
qed

lemma delete_keys: "fst ` set (AList.delete k al) = fst ` set al - {k}"
  by (induction al) auto

lemma delete_subset: "set (AList.delete k al) \<subseteq> set al"
  by (auto simp: AList.delete_eq)

lemma distinct_delete: "distinct (map fst al) \<Longrightarrow> distinct (map fst (AList.delete k al))"
  by (simp add: AList.delete_eq distinct_map_filter)

lemma static_free_wf:
  assumes "spool_wf p"
  shows "spool_wf (static_free h p)"
proof (cases "map_of (sp_live p) (sc_slot (sp_objs p ! h))")
  case None
  then show ?thesis using assms by (simp add: static_free_def Let_def)
next
  case (Some o_id)
  let ?slot = "sc_slot (sp_objs p ! h)"
  have live: "?slot \<in> fst ` set (sp_live p)" using Some by (force dest: map_of_SomeD)
  have "static_free h p = p\<lparr>sp_live := AList.delete ?slot (sp_live p),
      sp_expected := AList.delete ?slot (sp_expected p), sp_free := sp_free p @ [?slot]\<rparr>"
    using Some by (simp add: static_free_def Let_def)
  then show ?thesis
    using assms live unfolding spool_wf_def
    by (auto simp: delete_keys distinct_delete dest: subsetD [OF delete_subset])
qed

section \<open>The cache meets the protocol\<close>

lemma length_put_slice [simp]: "start + length rows \<le> length xs \<Longrightarrow> length (put_slice start rows xs) = length xs"
  by (simp add: put_slice_def)

lemma take_put_slice:
  "start \<le> length xs \<Longrightarrow> take (start + length rows) (put_slice start rows xs) = take start xs @ rows"
  by (simp add: put_slice_def)

lemma smem_ok_nth:
  assumes "smem_ok p mem" and "l < num_hidden_layers (sp_cfg p)" and "slot < sp_num_slots p"
  shows "length mem = num_hidden_layers (sp_cfg p)" "length (mem ! l) = sp_num_slots p"
    "length (mem ! l ! slot) = sp_max_seq_len p"
proof -
  show len: "length mem = num_hidden_layers (sp_cfg p)" using assms(1) by (simp add: smem_ok_def)
  then have ml: "mem ! l \<in> set mem" using assms(2) by simp
  with assms(1) show sl: "length (mem ! l) = sp_num_slots p" by (simp add: smem_ok_def)
  then have "mem ! l ! slot \<in> set (mem ! l)" using assms(3) by simp
  with ml assms(1) show "length (mem ! l ! slot) = sp_max_seq_len p" by (auto simp: smem_ok_def)
qed

lemma smem_ok_update:
  assumes "smem_ok p mem" and "l < num_hidden_layers (sp_cfg p)" and "slot < sp_num_slots p"
    and "length rows = sp_max_seq_len p"
  shows "smem_ok p (mem[l := (mem ! l)[slot := rows]])"
proof -
  have "length (mem ! l) = sp_num_slots p" using assms by (simp add: smem_ok_nth)
  moreover have "\<forall>rs \<in> set ((mem ! l)[slot := rows]). length rs = sp_max_seq_len p"
  proof
    fix rs assume "rs \<in> set ((mem ! l)[slot := rows])"
    then have "rs = rows \<or> rs \<in> set (mem ! l)" by (auto dest!: subsetD [OF set_update_subset_insert])
    then show "length rs = sp_max_seq_len p"
      using assms by (auto simp: smem_ok_def)
  qed
  ultimately show ?thesis
    using assms(1) unfolding smem_ok_def by (auto dest!: subsetD [OF set_update_subset_insert])
qed

lemma smem_ok_cong:
  "sp_cfg q = sp_cfg p \<Longrightarrow> sp_num_slots q = sp_num_slots p \<Longrightarrow> sp_max_seq_len q = sp_max_seq_len p \<Longrightarrow>
    smem_ok q mem = smem_ok p mem"
  by (simp add: smem_ok_def)

text \<open>Writing layer \<open>l\<close> of a pass that has written the layers below it.\<close>

lemma static_write_ok:
  assumes md: "static_mid n l (p, o_id) h" and l: "l < length h" and len: "length k = n" "length v = n"
  shows "\<exists>p'. static_write l k v (p, o_id) = (Ret (fst (h ! l) @ k, snd (h ! l) @ v), (p', o_id)) \<and>
    static_mid n (Suc l) (p', o_id) (h[l := (fst (h ! l) @ k, snd (h ! l) @ v)]) \<and>
    static_frame (p, o_id) (p', o_id) \<and> sp_objs p' = sp_objs p \<and> sp_max_seq_len p' = sp_max_seq_len p"
proof -
  let ?c = "sp_objs p ! o_id"
  let ?s = "sc_slot ?c" and ?a = "sc_start ?c" and ?L = "num_hidden_layers (sp_cfg p)"
  let ?nk = "put_slice ?a k (sp_k p ! l ! ?s)" and ?nv = "put_slice ?a v (sp_v p ! l ! ?s)"
  let ?p = "p\<lparr>sp_k := (sp_k p)[l := (sp_k p ! l)[?s := ?nk]], sp_v := (sp_v p)[l := (sp_v p ! l)[?s := ?nv]]\<rparr>"
  have ok: "sobj_ok p o_id" and pos: "sc_pos ?c = ?a + n"
    and h: "h = map (\<lambda>j. (take (if j < l then sc_pos ?c else ?a) (sp_k p ! j ! ?s),
                         take (if j < l then sc_pos ?c else ?a) (sp_v p ! j ! ?s))) [0..<?L]"
    using md by (simp_all add: static_mid_def Let_def)
  have L: "l < ?L" using l h by simp
  have s: "?s < sp_num_slots p" and e: "?a + n \<le> sp_max_seq_len p" and mk: "smem_ok p (sp_k p)" and mv: "smem_ok p (sp_v p)"
    using ok pos by (simp_all add: sobj_ok_def)
  note nk = smem_ok_nth [OF mk L s] and nv = smem_ok_nth [OF mv L s]
  have tk: "take (?a + n) ?nk = take ?a (sp_k p ! l ! ?s) @ k" "take (?a + n) ?nv = take ?a (sp_v p ! l ! ?s) @ v"
    using take_put_slice [of ?a "sp_k p ! l ! ?s" k] take_put_slice [of ?a "sp_v p ! l ! ?s" v] nk(3) nv(3) e len
    by simp_all
  have hl: "h ! l = (take ?a (sp_k p ! l ! ?s), take ?a (sp_v p ! l ! ?s))" using L h by simp
  have run: "static_write l k v (p, o_id) = (Ret (fst (h ! l) @ k, snd (h ! l) @ v), (?p, o_id))"
    using L e len nk(1) tk hl by (simp add: static_write_def Let_def)
  have "smem_ok p (sp_k ?p)" "smem_ok p (sp_v ?p)"
    using smem_ok_update [OF mk L s, of ?nk] smem_ok_update [OF mv L s, of ?nv] nk(3) nv(3) e len by simp_all
  then have ok': "sobj_ok ?p o_id"
    using ok smem_ok_cong [of ?p p] by (simp add: sobj_ok_def)
  have "h[l := (fst (h ! l) @ k, snd (h ! l) @ v)] =
      map (\<lambda>j. (take (if j < Suc l then sc_pos ?c else ?a) (sp_k ?p ! j ! ?s),
                take (if j < Suc l then sc_pos ?c else ?a) (sp_v ?p ! j ! ?s))) [0..<?L]"
    using hl tk pos nk nv s L by (intro nth_equalityI) (auto simp: h nth_list_update less_Suc_eq)
  then have "static_mid n (Suc l) (?p, o_id) (h[l := (fst (h ! l) @ k, snd (h ! l) @ v)])"
    using ok' pos by (simp add: static_mid_def Let_def)
  moreover have "static_frame (p, o_id) (?p, o_id)"
    using nk nv L by (auto simp: static_frame_def nth_list_update)
  ultimately show ?thesis using run by auto
qed

lemma static_begin_ok:
  assumes rd: "static_ready (p, o_id) h" and ft: "static_fits (p, o_id) n"
  shows "\<exists>p'. static_begin n (p, o_id) = (Ret (), (p', o_id)) \<and> static_mid n 0 (p', o_id) h \<and>
    static_frame (p, o_id) (p', o_id) \<and> sc_pos (sp_objs p' ! o_id) = sc_pos (sp_objs p ! o_id) + n \<and>
    o_id < length (sp_objs p') \<and> sp_max_seq_len p' = sp_max_seq_len p"
proof -
  let ?c = "sp_objs p ! o_id"
  let ?p = "p\<lparr>sp_objs := (sp_objs p)[o_id := ?c\<lparr>sc_start := sc_pos ?c, sc_pos := sc_pos ?c + n\<rparr>]\<rparr>"
  have o: "o_id < length (sp_objs p)" "sc_pos ?c + n \<le> sp_max_seq_len p" using ft by (simp_all add: static_fits_def)
  have "static_begin n (p, o_id) = (Ret (), (?p, o_id))"
    using o by (simp add: static_begin_def Let_def)
  moreover have "static_mid n 0 (?p, o_id) h"
    using rd o smem_ok_cong [of ?p p] by (simp add: static_ready_def static_mid_def Let_def sobj_ok_def)
  moreover have "static_frame (p, o_id) (?p, o_id)"
    using o by (simp add: static_frame_def nth_list_update)
  ultimately show ?thesis using o by simp
qed

lemma static_frame_trans:
  "static_frame s t \<Longrightarrow> static_frame t u \<Longrightarrow> static_frame s u"
  by (cases s; cases t; cases u) (simp add: static_frame_def)

lemma static_first:
  assumes rd: "static_ready (p, o_id) h" and ft: "static_fits (p, o_id) n" and h: "h \<noteq> []"
    and len: "length k = n" "length v = n"
  shows "\<exists>s'. solo static_update 0 [k] [v] (p, o_id) = (Ret ([fst (h ! 0) @ k], [snd (h ! 0) @ v]), s') \<and>
    static_mid n 1 s' (h[0 := (fst (h ! 0) @ k, snd (h ! 0) @ v)]) \<and> static_frame (p, o_id) s' \<and>
    (\<forall>m. static_fits (p, o_id) (n + m) \<longrightarrow> static_fits s' m)"
proof -
  obtain p1 where b: "static_begin n (p, o_id) = (Ret (), (p1, o_id))" "static_mid n 0 (p1, o_id) h"
    "static_frame (p, o_id) (p1, o_id)" "sc_pos (sp_objs p1 ! o_id) = sc_pos (sp_objs p ! o_id) + n"
    "o_id < length (sp_objs p1)" "sp_max_seq_len p1 = sp_max_seq_len p"
    using static_begin_ok [OF rd ft] by blast
  obtain p2 where w: "static_write 0 k v (p1, o_id) = (Ret (fst (h ! 0) @ k, snd (h ! 0) @ v), (p2, o_id))"
    "static_mid n (Suc 0) (p2, o_id) (h[0 := (fst (h ! 0) @ k, snd (h ! 0) @ v)])"
    "static_frame (p1, o_id) (p2, o_id)" "sp_objs p2 = sp_objs p1" "sp_max_seq_len p2 = sp_max_seq_len p1"
    using static_write_ok [OF b(2) _ len] h by auto
  show ?thesis
    using b w len static_frame_trans [OF b(3) w(3)]
    by (intro exI [of _ "(p2, o_id)"]) (auto simp: solo_def static_update_def static_fits_def)
qed

lemma static_complete:
  assumes "static_mid n j s h" and "j = length h"
  shows "static_ready s h"
proof -
  obtain p o_id where s: "s = (p, o_id)" by (cases s)
  let ?c = "sp_objs p ! o_id" and ?L = "num_hidden_layers (sp_cfg p)"
  have h: "h = map (\<lambda>l. (take (if l < j then sc_pos ?c else sc_start ?c) (sp_k p ! l ! sc_slot ?c),
                         take (if l < j then sc_pos ?c else sc_start ?c) (sp_v p ! l ! sc_slot ?c))) [0..<?L]"
    using assms(1) s by (simp add: static_mid_def Let_def)
  have "j = ?L" using arg_cong [OF h, of length] assms(2) by simp
  then have "h = map (\<lambda>l. (take (sc_pos ?c) (sp_k p ! l ! sc_slot ?c), take (sc_pos ?c) (sp_v p ! l ! sc_slot ?c))) [0..<?L]"
    unfolding h by (intro map_cong) simp_all
  then show ?thesis
    using assms(1) s by (simp add: static_mid_def static_ready_def Let_def)
qed

interpretation static: kv_protocol "solo static_update" static_len static_ready static_mid static_fits static_frame
proof
  fix s h n and k v :: "kv_row list"
  assume "static_ready s h" "static_fits s n" "h \<noteq> []" "length k = n" "length v = n"
  then show "\<exists>s'. solo static_update 0 [k] [v] s = (Ret ([fst (h ! 0) @ k], [snd (h ! 0) @ v]), s') \<and>
      static_mid n 1 s' (h[0 := (fst (h ! 0) @ k, snd (h ! 0) @ v)]) \<and> static_frame s s' \<and>
      (\<forall>m. static_fits s (n + m) \<longrightarrow> static_fits s' m)"
    by (cases s) (metis static_first)
next
  fix n l s h and k v :: "kv_row list"
  assume a: "static_mid n l s h" "0 < l" "l < length h" "length k = n" "length v = n"
  obtain p o_id where s: "s = (p, o_id)" by (cases s)
  obtain p' where "static_write l k v (p, o_id) = (Ret (fst (h ! l) @ k, snd (h ! l) @ v), (p', o_id))"
    "static_mid n (Suc l) (p', o_id) (h[l := (fst (h ! l) @ k, snd (h ! l) @ v)])"
    "static_frame (p, o_id) (p', o_id)" "sp_objs p' = sp_objs p" "sp_max_seq_len p' = sp_max_seq_len p"
    using static_write_ok a s by blast
  then show "\<exists>s'. solo static_update l [k] [v] s = (Ret ([fst (h ! l) @ k], [snd (h ! l) @ v]), s') \<and>
      static_mid n (Suc l) s' (h[l := (fst (h ! l) @ k, snd (h ! l) @ v)]) \<and> static_frame s s' \<and>
      (\<forall>m. static_fits s m \<longrightarrow> static_fits s' m)"
    using a(2) s by (intro exI [of _ "(p', o_id)"]) (auto simp: solo_def static_update_def static_fits_def)
next
  fix n s h
  assume "static_mid n (length h) s h"
  then show "static_ready s h" by (rule static_complete) simp
next
  fix s h
  assume rd: "static_ready s h" "h \<noteq> []"
  obtain p o_id where s: "s = (p, o_id)" by (cases s)
  have "0 < num_hidden_layers (sp_cfg p)" using rd s by (cases "num_hidden_layers (sp_cfg p)") (auto simp: static_ready_def Let_def)
  then show "static_len s = hist_len h"
    using rd s smem_ok_nth(3) [of p "sp_k p" 0 "sc_slot (sp_objs p ! o_id)"]
    by (auto simp: static_ready_def Let_def static_len_def hist_len_def sobj_ok_def)
next
  fix s t u
  assume "static_frame s t" "static_frame t u"
  then show "static_frame s u" by (rule static_frame_trans)
qed (auto simp: static_frame_def static_fits_def)

section \<open>Properties\<close>

text \<open>C30: the contiguous slab is invisible to the model too. A sequence of passes that fits a slot gives, over a
  freshly allocated static slot, the logits of the growing cache.\<close>

theorem static_equals_contiguous:
  assumes "static_allocate e (new_spool [] c n m isz) = (Some h, p)"
    and "num_hidden_layers c = length (mlayers M)" and "mlayers M \<noteq> []"
    and "sum_list (map length chunks) \<le> sp_max_seq_len p"
  shows "\<exists>out r' st d. run_passes M (solo static_update, static_len) chunks (r, (p, h)) = (out, (r', st)) \<and>
    run_passes M (dyn_update, dyn_len) chunks (r, new_dyn_cache) = (out, (r', d))"
proof -
  let ?h = "empty_hist (length (mlayers M))"
  have hs: "?h \<noteq> []" "length ?h = length (mlayers M)" using assms(3) by (simp_all add: empty_hist_def)
  have n: "n \<noteq> 0" using assms(1) by (auto simp: static_allocate_def new_spool_def Let_def split: if_splits)
  have p: "h = 0" "sp_objs p = [\<lparr>sc_slot = n - 1, sc_pos = 0, sc_start = 0\<rparr>]" "sp_cfg p = c" "sp_num_slots p = n"
    "smem_ok p (sp_k p)" "smem_ok p (sp_v p)"
    using assms(1) n by (auto simp: static_allocate_def new_spool_def Let_def smem_ok_def)
  have rd: "static_ready (p, h) ?h"
    using p n assms(2) by (auto simp: static_ready_def Let_def sobj_ok_def empty_hist_def intro: nth_equalityI)
  have ft: "static_fits (p, h) (sum_list (map length chunks))"
    using p assms(4) by (simp add: static_fits_def)
  obtain out r1 s1 h1 where 1: "run_passes M (solo static_update, static_len) chunks (r, (p, h)) = (out, (r1, s1))"
    "run_passes M (hist_update, hist_len) chunks (r, ?h) = (out, (r1, h1))"
    using static.passes_sim [OF rd ft hs] by blast
  obtain out2 r2 s2 h2 where "run_passes M (dyn_update, dyn_len) chunks (r, new_dyn_cache) = (out2, (r2, s2))"
    "run_passes M (hist_update, hist_len) chunks (r, ?h) = (out2, (r2, h2))"
    using dynk.passes_sim [OF empty_hist_ready _ hs] by blast
  with 1 show ?thesis by auto
qed

theorem static_equals_contiguous_witness:
  "\<exists>h p out r' st d. static_allocate None (new_spool [] TINY 2 (Some 8) 2) = (Some h, p) \<and>
    run_passes demo_model (solo static_update, static_len) [[1, 2, 3], [4]] (new_rope 16 128 10000, (p, h)) =
      (out, (r', st)) \<and>
    run_passes demo_model (dyn_update, dyn_len) [[1, 2, 3], [4]] (new_rope 16 128 10000, new_dyn_cache) = (out, (r', d))"
proof -
  have a: "\<exists>h p. static_allocate None (new_spool [] TINY 2 (Some 8) 2) = (Some h, p :: kv_row spool) \<and> sp_max_seq_len p = 8"
    by (simp add: static_allocate_def new_spool_def Let_def or_default_def)
  then obtain h and p :: "kv_row spool" where p: "static_allocate None (new_spool [] TINY 2 (Some 8) 2) = (Some h, p)"
    "sp_max_seq_len p = 8" by blast
  show ?thesis
    using static_equals_contiguous [OF p(1), of demo_model "[[1, 2, 3], [4]]" "new_rope 16 128 10000"] p
    by (fastforce simp: demo_model_def TINY_def)
qed

text \<open>Slots are exclusive. Allocation and release keep the pool's books: free and live slots partition the
  pool, and a slot that is handed out was not live before.\<close>

theorem static_slots_exclusive:
  assumes "spool_wf p"
  shows "spool_wf (static_free h p) \<and> spool_wf (static_reset p) \<and>
    (case static_allocate e p of
       (None, p') \<Rightarrow> p' = p \<and> fst ` set (sp_live p) = {..<sp_num_slots p}
     | (Some h', p') \<Rightarrow> spool_wf p' \<and> sc_slot (sp_objs p' ! h') \<notin> fst ` set (sp_live p))"
proof -
  have rs: "spool_wf (static_reset p)" using assms by (auto simp: spool_wf_def static_reset_def)
  show ?thesis
  proof (cases "sp_free p = []")
    case True
    then have "static_allocate e p = (None, p)" "fst ` set (sp_live p) = {..<sp_num_slots p}"
      using assms by (simp_all add: static_allocate_def spool_wf_def)
    then show ?thesis using static_free_wf [OF assms] rs by simp
  next
    case False
    then obtain h' p' where "static_allocate e p = (Some h', p')" by (simp add: static_allocate_def Let_def)
    then show ?thesis
      using static_free_wf [OF assms] rs static_allocate_wf [OF assms] by simp
  qed
qed

theorem static_slots_exclusive_witness:
  "spool_wf (static_free 0 (snd (static_allocate None (new_spool (0::nat) TINY 2 (Some 8) 2))))"
proof -
  have "\<exists>p. static_allocate None (new_spool (0::nat) TINY 2 (Some 8) 2) = (Some 0, p)"
    by (simp add: static_allocate_def new_spool_def Let_def)
  then obtain p where p: "static_allocate None (new_spool (0::nat) TINY 2 (Some 8) 2) = (Some 0, p)" by blast
  then have "spool_wf p"
    using static_slots_exclusive [OF new_spool_wf [of "0::nat" TINY 2 "Some 8" 2], of 0 None] by simp
  then show ?thesis
    using p static_slots_exclusive [of p 0 None] by simp
qed

text \<open>Paging never loses capacity. For the same byte budget and a block size that divides the slot
  length, the blocks that fit hold at least as many tokens as the slots that fit.\<close>

theorem paging_keeps_capacity:
  assumes "slots_for_budget c budget m isz = Ret ns" and "blocks_for_budget c budget bs isz = Ret nb"
    and "bs dvd or_default m (max_position_embeddings c)" and "0 \<le> budget"
  shows "ns * int (or_default m (max_position_embeddings c)) \<le> nb * int bs"
proof -
  define w where "w = int (2 * num_key_value_heads c * head_dim c * num_hidden_layers c * isz)"
  define L where "L = int (or_default m (max_position_embeddings c))"
  obtain q where "or_default m (max_position_embeddings c) = bs * q" using assms(3) by (elim dvdE)
  then have L: "L = int bs * int q" by (simp add: L_def)
  have pos: "0 < w" "0 < int bs" "0 < L" and ns: "ns = budget div (w * L)" and nb: "nb = budget div (w * int bs)"
    using assms by (auto simp: slots_for_budget_def blocks_for_budget_def Let_def w_def L_def
        pos_imp_zdiv_nonneg_iff zero_less_mult_iff split: if_splits)
  have "ns = nb div int q"
    unfolding ns nb L using pos by (simp add: zdiv_zmult2_eq [symmetric] mult.assoc)
  moreover have "0 < int q" using pos(2,3) L by (simp add: zero_less_mult_iff)
  ultimately have "ns * int q + nb mod int q = nb" "0 \<le> nb mod int q" by simp_all
  then have "ns * int q \<le> nb" by linarith
  then have "ns * int q * int bs \<le> nb * int bs" using pos(2) by (intro mult_right_mono) auto
  then show ?thesis using L by (simp add: L_def mult.commute mult.left_commute)
qed

theorem paging_keeps_capacity_witness:
  "slots_for_budget TINY 100000 None 2 = Ret 3 \<and> blocks_for_budget TINY 100000 16 2 = Ret 24 \<and>
   3 * int (or_default None (max_position_embeddings TINY)) \<le> 24 * int 16"
proof -
  have "slots_for_budget TINY 100000 None 2 = Ret 3" "blocks_for_budget TINY 100000 16 2 = Ret 24"
    by (simp_all add: slots_for_budget_def blocks_for_budget_def Let_def head_dim_def or_default_def TINY_def NANO_27M_def)
  then show ?thesis
    using paging_keeps_capacity [of TINY 100000 None 2 3 16 24]
    by (simp add: or_default_def TINY_def NANO_27M_def)
qed

end
