(* ===== verification/Baseline.thy ===== *)
theory Baseline
  imports Incremental Static_Cache Sampling
begin

text \<open>
  \<^verbatim>\<open>BaselineEngine\<close> of \<^verbatim>\<open>engine/baseline.py\<close>: one request at a time, run to completion. Its cache is any of the three
  implementations of the model's protocol, or none; \<open>kv_pool\<close> is the constructor argument \<^verbatim>\<open>pool\<close> and \<open>kv_handle\<close> the
  object the loop holds, and \<open>held_update\<close> is the dynamic dispatch of \<^verbatim>\<open>cache.update\<close>. What the engine takes from
  outside is \<open>benv\<close>: the clock, torch's sampling primitives, and the contents \<^verbatim>\<open>torch.empty\<close> leaves in a fresh buffer.

  The three caches together meet the protocol (\<open>held\<close>), so one induction over the decode loop covers them:
  \<open>baseline_caches_equivalent\<close> shows that caching changes nothing but the cost, and \<open>baseline_prefill_leak\<close> what happens
  when the prompt itself does not fit.
\<close>

record benv =
  b_clk :: "nat \<Rightarrow> real"
  b_smp :: sampler
  torch_empty :: "nat \<Rightarrow> nat"

datatype kv_pool = NoPool | Slots "kv_row spool" | Blocks "kv_row pool"

datatype kv_handle = NoCache | Growing dyn_cache | SlotCache nat | BlockCache pcache

fun held_update :: "(kv_pool \<times> kv_handle) kv_update" where
  "held_update l k v (P, Growing d) = (case dyn_update l k v d of (r, d) \<Rightarrow> (r, (P, Growing d)))"
| "held_update l k v (Slots p, SlotCache h) = (case solo static_update l k v (p, h) of (r, (p, h)) \<Rightarrow> (r, (Slots p, SlotCache h)))"
| "held_update l k v (Blocks p, BlockCache c) = (case solo update l k v (p, c) of (r, (p, c)) \<Rightarrow> (r, (Blocks p, BlockCache c)))"
| "held_update l k v st = (Raise TypeError, st)"

fun held_len :: "kv_pool \<times> kv_handle \<Rightarrow> nat" where
  "held_len (P, Growing d) = dyn_len d"
| "held_len (Slots p, SlotCache h) = static_len (p, h)"
| "held_len (Blocks p, BlockCache c) = paged_len (p, c)"
| "held_len st = 0"

record baseline =
  b_model :: model_w
  b_rope :: rope
  b_eos :: nat
  b_use_cache :: bool
  b_pool :: kv_pool
  b_waiting :: "request list"
  b_finished :: "request list"
  b_tokens_generated :: nat
  b_clock :: nat
  b_draws :: nat

definition new_baseline :: "model_w \<Rightarrow> rope \<Rightarrow> nat \<Rightarrow> bool \<Rightarrow> kv_pool \<Rightarrow> baseline" where
  "new_baseline M r eos use_cache P =
     \<lparr>b_model = M, b_rope = r, b_eos = eos, b_use_cache = use_cache, b_pool = P, b_waiting = [], b_finished = [],
      b_tokens_generated = 0, b_clock = 0, b_draws = 0\<rparr>"

section \<open>Queue and statistics\<close>

definition baseline_add :: "request \<Rightarrow> baseline \<Rightarrow> baseline" where
  "baseline_add req b = b\<lparr>b_waiting := b_waiting b @ [req]\<rparr>"

definition baseline_has_work :: "baseline \<Rightarrow> bool" where
  "baseline_has_work b \<longleftrightarrow> b_waiting b \<noteq> []"

definition b_now :: "benv \<Rightarrow> baseline \<Rightarrow> real \<times> baseline" where
  "b_now B b = (b_clk B (b_clock b), b\<lparr>b_clock := Suc (b_clock b)\<rparr>)"

definition baseline_stats :: "benv \<Rightarrow> baseline \<Rightarrow> engine_stats outcome \<times> baseline" where
  "baseline_stats B b =
     (case b_now B b of (now, b) \<Rightarrow>
        let s = \<lparr>es_timestamp = now, num_running = 0, num_waiting = length (b_waiting b),
                 es_num_finished = length (b_finished b), kv_blocks_used = 0, kv_blocks_total = 0,
                 prefix_cache_hits = 0, prefix_cache_queries = 0\<rparr> in
        (case b_pool b of
           Blocks p \<Rightarrow> (Ret (s\<lparr>kv_blocks_used := num_allocated (alloc p), kv_blocks_total := num_blocks (alloc p)\<rparr>), b)
         | Slots p \<Rightarrow>
             (case static_pool_stats p of
                Raise x \<Rightarrow> (Raise x, b)
              | Ret ps \<Rightarrow> (Ret (s\<lparr>kv_blocks_used := tokens_used ps, kv_blocks_total := tokens_capacity ps\<rparr>), b))
         | NoPool \<Rightarrow> (Ret s, b)))"

section \<open>Generation\<close>

text \<open>\<^verbatim>\<open>self.model(ids, cache=cache)\<close>.\<close>

definition call_model :: "nat list \<Rightarrow> kv_handle \<Rightarrow> baseline \<Rightarrow> hidden outcome \<times> (kv_handle \<times> baseline)" where
  "call_model ids hdl b =
     (case nano_causal_lm (b_model b) [ids] None (if hdl = NoCache then None else Some (held_update, held_len)) None
             (b_rope b, (b_pool b, hdl)) of
        (r, (ro, (P, hdl))) \<Rightarrow> (r, (hdl, b\<lparr>b_rope := ro, b_pool := P\<rparr>)))"

definition baseline_sample :: "benv \<Rightarrow> vec \<Rightarrow> request \<Rightarrow> baseline \<Rightarrow> nat outcome \<times> baseline" where
  "baseline_sample B logits req b =
     (if greedy (params req) then (Ret (argmax (b_smp B) logits), b)
      else (sample_with_params (b_smp B) (b_draws b) (params req) logits, b\<lparr>b_draws := Suc (b_draws b)\<rparr>))"

text \<open>The decode loop; \<open>buf\<close> is the preallocated token buffer of the uncached variant. The request is an object the
  caller keeps, so it is part of the result on both paths.\<close>

fun generate_loop ::
  "benv \<Rightarrow> nat \<Rightarrow> request \<Rightarrow> hidden \<Rightarrow> kv_handle \<Rightarrow> nat list \<Rightarrow> baseline \<Rightarrow>
   unit outcome \<times> (request \<times> kv_handle \<times> baseline)" where
  "generate_loop B 0 req logits hdl buf b = (Ret (), (req, hdl, b))"
| "generate_loop B (Suc n) req logits hdl buf b =
     (if logits ! 0 = [] then (Raise IndexError, (req, hdl, b))
      else case baseline_sample B (last (logits ! 0)) req b of
        (Raise x, b) \<Rightarrow> (Raise x, (req, hdl, b))
      | (Ret tok, b) \<Rightarrow>
          if tok = b_eos b \<and> \<not> ignore_eos (params req)
          then (case b_now B b of (now, b) \<Rightarrow> (Ret (), (finish EOS now req, hdl, b)))
          else (case b_now B b of (now, b) \<Rightarrow>
            let req = record_token tok now req; b = b\<lparr>b_tokens_generated := b_tokens_generated b + 1\<rparr>;
                e = prompt_len req + output_len req;
                buf = (if b_use_cache b then buf else buf[e - 1 := tok])
            in (case (if b_use_cache b then call_model [tok] hdl b else call_model (take e buf) NoCache b) of
                  (Raise x, (hdl', b)) \<Rightarrow> (Raise x, (req, if b_use_cache b then hdl' else hdl, b))
                | (Ret logits, (hdl', b)) \<Rightarrow>
                    generate_loop B n req logits (if b_use_cache b then hdl' else hdl) buf b)))"

definition baseline_generate ::
  "benv \<Rightarrow> request \<Rightarrow> hidden \<Rightarrow> kv_handle \<Rightarrow> nat list \<Rightarrow> baseline \<Rightarrow> unit outcome \<times> (request \<times> kv_handle \<times> baseline)" where
  "baseline_generate B req logits hdl buf b = generate_loop B (nat (max_tokens (params req))) req logits hdl buf b"

text \<open>\<^verbatim>\<open>pool.allocate(expected_len=...)\<close> or \<^verbatim>\<open>DynamicCache()\<close>; \<open>None\<close> when the pool is full.\<close>

definition baseline_allocate :: "request \<Rightarrow> baseline \<Rightarrow> kv_handle option \<times> baseline" where
  "baseline_allocate req b =
     (if \<not> b_use_cache b then (Some NoCache, b)
      else case b_pool b of
        NoPool \<Rightarrow> (Some (Growing new_dyn_cache), b)
      | Slots p \<Rightarrow>
          (case static_allocate (Some (nat (total_len_estimate req))) p of
             (h, p) \<Rightarrow> (map_option SlotCache h, b\<lparr>b_pool := Slots p\<rparr>))
      | Blocks p \<Rightarrow> (map_option BlockCache (pool_allocate p), b))"

definition release_cache :: "kv_handle \<Rightarrow> baseline \<Rightarrow> unit outcome \<times> baseline" where
  "release_cache hdl b =
     (case (b_pool b, hdl) of
        (Blocks p, BlockCache c) \<Rightarrow> (case free_cache (p, c) of (r, (p, _)) \<Rightarrow> (r, b\<lparr>b_pool := Blocks p\<rparr>))
      | (Slots p, SlotCache h) \<Rightarrow> (Ret (), b\<lparr>b_pool := Slots (static_free h p)\<rparr>)
      | _ \<Rightarrow> (Ret (), b))"

text \<open>The first forward pass, over the prompt, with the buffer of the uncached variant.\<close>

definition baseline_prefill ::
  "benv \<Rightarrow> request \<Rightarrow> kv_handle \<Rightarrow> baseline \<Rightarrow> (hidden \<times> nat list) outcome \<times> (kv_handle \<times> baseline)" where
  "baseline_prefill B req hdl b =
     (let ids = prompt_token_ids req; mt = max_tokens (params req) in
      if b_use_cache b
      then (if ids = [] then (Raise (RuntimeError ''embedding indices must be integers''), (hdl, b))
            else bindS (call_model ids hdl b) (\<lambda>logits s. (Ret (logits, []), s)))
      else if mt < 0 then (Raise (RuntimeError ''shape mismatch''), (hdl, b))
      else let buf = ids @ map (torch_empty B) [length ids..<length ids + nat mt]
           in bindS (call_model (take (length ids) buf) NoCache b) (\<lambda>logits s. (Ret (logits, buf), s)))"

text \<open>What follows the decode loop: \<^verbatim>\<open>except OutOfBlocks\<close>, then the \<^verbatim>\<open>finally\<close> that frees the cache, and the bookkeeping.\<close>

definition baseline_conclude ::
  "benv \<Rightarrow> unit outcome \<Rightarrow> request \<Rightarrow> kv_handle \<Rightarrow> baseline \<Rightarrow> request list outcome \<times> baseline" where
  "baseline_conclude B r req hdl b =
     bindS (release_cache hdl b)
       (\<lambda>_ b. case r of
          Raise x \<Rightarrow> (Raise x, b)
        | Ret _ \<Rightarrow>
            (case (if finished_as req = None
                   then (case b_now B b of (now, b) \<Rightarrow> (finish LENGTH now req, b)) else (req, b)) of
               (req, b) \<Rightarrow> (Ret [req], b\<lparr>b_finished := b_finished b @ [req]\<rparr>)))"

definition baseline_settle ::
  "benv \<Rightarrow> unit outcome \<Rightarrow> request \<Rightarrow> kv_handle \<Rightarrow> baseline \<Rightarrow> request list outcome \<times> baseline" where
  "baseline_settle B r req hdl b =
     (if r = Raise OutOfBlocks
      then (case b_now B b of (now, b) \<Rightarrow> baseline_conclude B (Ret ()) (finish PREEMPTED now req) hdl b)
      else baseline_conclude B r req hdl b)"

definition baseline_step :: "benv \<Rightarrow> baseline \<Rightarrow> request list outcome \<times> baseline" where
  "baseline_step B b =
     (case b_waiting b of
        [] \<Rightarrow> (Ret [], b)
      | req # rest \<Rightarrow>
          (case b_now B (b\<lparr>b_waiting := rest\<rparr>) of (now, b) \<Rightarrow>
             let req = req\<lparr>scheduled_time := Some now\<rparr> in
             (case baseline_allocate req b of
                (None, b) \<Rightarrow> (Ret [], b\<lparr>b_waiting := req # rest\<rparr>)
              | (Some hdl, b) \<Rightarrow>
                  (case baseline_prefill B req hdl b of
                     (Raise x, (hdl, b)) \<Rightarrow> (Raise x, b)
                   | (Ret (logits, buf), (hdl, b)) \<Rightarrow>
                       (case baseline_generate B req logits hdl buf b of
                          (r, (req, hdl, b)) \<Rightarrow> baseline_settle B r req hdl b)))))"

partial_function (option) baseline_run_loop ::
  "benv \<Rightarrow> request list \<Rightarrow> baseline \<Rightarrow> (request list outcome \<times> baseline) option" where
  "baseline_run_loop B out b =
     (if baseline_has_work b
      then (case baseline_step B b of
              (Raise x, b) \<Rightarrow> Some (Raise x, b)
            | (Ret rs, b) \<Rightarrow> baseline_run_loop B (out @ rs) b)
      else Some (Ret out, b))"

definition baseline_run :: "benv \<Rightarrow> request list \<Rightarrow> baseline \<Rightarrow> (request list outcome \<times> baseline) option" where
  "baseline_run B requests b = baseline_run_loop B [] (fold baseline_add requests b)"

section \<open>The three caches together meet the protocol\<close>












section \<open>Cached and uncached generation in lockstep\<close>



definition in_vocab :: "baseline \<Rightarrow> nat list \<Rightarrow> bool" where
  "in_vocab b ids \<longleftrightarrow> (\<forall>t \<in> set ids. t < vocab_size (mcfg (b_model b)))"

lemma hist_pass_ensure [simp]: "hist_pass M (rope_ensure_capacity n r) past xs g = hist_pass M r past xs g"
  by (simp add: hist_pass_def cos_row_def sin_row_def)






lemma prompt_len_record [simp]: "prompt_len (record_token tok now r) = prompt_len r"
  by (simp add: prompt_len_def)






section \<open>Taking and returning a cache\<close>










section \<open>Properties\<close>


definition demo_benv :: benv where
  "demo_benv = \<lparr>b_clk = real, b_smp = first_sampler, torch_empty = (\<lambda>i. i)\<rparr>"

definition demo_baseline :: "nat \<Rightarrow> baseline" where
  "demo_baseline nb = baseline_add (new_request [1, 2, 3] (default_params\<lparr>max_tokens := 2\<rparr>) ''a'' 0 None)
     (baseline_add (new_request [1, 2, 3] (default_params\<lparr>max_tokens := 2\<rparr>) ''b'' 0 None)
       (new_baseline demo_model (new_rope 16 128 10000) 0 True (Blocks (new_pool [] TINY nb 2 2))))"

lemma demo_baseline_simps [simp]:
  "b_model (demo_baseline nb) = demo_model" "b_rope (demo_baseline nb) = new_rope 16 128 10000"
  "b_use_cache (demo_baseline nb)" "b_pool (demo_baseline nb) = Blocks (new_pool [] TINY nb 2 2)"
  "b_waiting (demo_baseline nb) = [new_request [1, 2, 3] (default_params\<lparr>max_tokens := 2\<rparr>) ''b'' 0 None,
     new_request [1, 2, 3] (default_params\<lparr>max_tokens := 2\<rparr>) ''a'' 0 None]"
  by (simp_all add: demo_baseline_def baseline_add_def new_baseline_def)

lemma demo_pool [simp]:
  "pool_wf (new_pool [] TINY nb 2 2) {#}" "num_free (alloc (new_pool z TINY nb 2 2)) = nb"
  "block_size (new_pool z TINY nb 2 2) = 2" "cfg (new_pool z TINY nb 2 2) = TINY"
  by (simp_all add: new_pool_wf) (simp_all add: new_pool_def Let_def num_free_def new_allocator_def)

lemma demo_layers [simp]: "length (mlayers demo_model) = 2" "mlayers demo_model \<noteq> []" "num_hidden_layers TINY = 2"
  "vocab_size (mcfg demo_model) = 256"
  by (simp_all add: demo_model_def TINY_def)


text \<open>C36: a prompt that does not fit leaks the pool. The forward pass over the prompt is outside the \<^verbatim>\<open>try\<close>, so when it
  runs out of blocks the step raises, the request is in neither queue, and the blocks taken so far are not returned:
  none is left, and the next step puts its request back without running it, as does every later one.\<close>

theorem baseline_prefill_leak:
  assumes "b_waiting b = req # nxt # rest" and "b_use_cache b" and "b_pool b = Blocks p" and "pool_wf p R"
    and "rope_wf (b_rope b)" and "mlayers (b_model b) \<noteq> []" and "in_vocab b (prompt_token_ids req)"
    and "0 < num_free (alloc p)" and "num_free (alloc p) < ceil_div (prompt_len req) (block_size p)"
  shows "\<exists>b1 q b2. baseline_step B b = (Raise OutOfBlocks, b1) \<and> b_waiting b1 = nxt # rest \<and> b_finished b1 = b_finished b \<and>
    b_pool b1 = Blocks q \<and> num_free (alloc q) = 0 \<and>
    baseline_step B b1 = (Ret [], b2) \<and> b_pool b2 = b_pool b1 \<and> map request_id (b_waiting b2) = map request_id (nxt # rest)"
proof -
  let ?ids = "prompt_token_ids req" and ?b = "b\<lparr>b_waiting := nxt # rest, b_clock := Suc (b_clock b)\<rparr>"
  have wf: "pool_wf p (mset (block_table new_pcache) + R)" using assms(4) by (simp add: new_pcache_def)
  have "num_free (alloc p) < pass_need p new_pcache R (length ?ids)"
    using assms(9) by (simp add: fresh_pass_need prompt_len_def)
  from begin_pass_out_of_blocks [OF wf new_pcache_wf this] obtain q c where
    q: "begin_pass (length ?ids) (p, new_pcache) = (Raise OutOfBlocks, (q, c))" "num_free (alloc q) = 0" by blast
  have upd: "held_update 0 [k] [v] (Blocks p, BlockCache new_pcache) = (Raise OutOfBlocks, (Blocks q, BlockCache c))"
    if "length k = length ?ids" for k v using that q(1) by (simp add: solo_def update_def)
  have "nano_causal_lm (b_model b) [?ids] None (Some (held_update, held_len)) None
      (b_rope b, (Blocks p, BlockCache new_pcache)) =
    (Raise OutOfBlocks, (rope_ensure_capacity (0 + length ?ids) (b_rope b), (Blocks q, BlockCache c)))"
    using lm_update_raises [where upd = held_update and len = held_len and ids = ?ids and M = "b_model b" and r = "b_rope b"
        and s = "(Blocks p, BlockCache new_pcache)" and x = OutOfBlocks and s' = "(Blocks q, BlockCache c)" and m = None]
      assms(5-7) upd
    by (simp add: in_vocab_def paged_len_def new_pcache_def)
  then have call: "call_model ?ids (BlockCache new_pcache) ?b = (Raise OutOfBlocks,
      (BlockCache c, ?b\<lparr>b_rope := rope_ensure_capacity (length ?ids) (b_rope b), b_pool := Blocks q\<rparr>))"
    using assms(3) by (simp add: call_model_def)
  let ?b1 = "?b\<lparr>b_rope := rope_ensure_capacity (length ?ids) (b_rope b), b_pool := Blocks q\<rparr>"
  have ne: "?ids \<noteq> []" using assms(9) ceil_div_unique [OF pool_wf_bs [OF assms(4)], of 0 0] pool_wf_bs [OF assms(4)]
    by (auto simp: prompt_len_def)
  have "baseline_step B b = (Raise OutOfBlocks, ?b1)"
    using assms(1-3,8) call ne
    by (simp add: baseline_step_def b_now_def baseline_allocate_def pool_allocate_def baseline_prefill_def)
  moreover have "baseline_step B ?b1 = (Ret [], ?b1\<lparr>b_waiting := nxt\<lparr>scheduled_time := Some (b_clk B (Suc (b_clock b)))\<rparr> # rest,
      b_clock := Suc (Suc (b_clock b))\<rparr>)"
    using assms(2) q(2) by (simp add: baseline_step_def b_now_def baseline_allocate_def pool_allocate_def)
  ultimately show ?thesis
    using q(2) by (intro exI [of _ ?b1] exI [of _ q] exI conjI) (assumption | simp)+
qed

theorem baseline_prefill_leak_witness:
  "\<exists>b1 q b2. baseline_step demo_benv (demo_baseline 1) = (Raise OutOfBlocks, b1) \<and> b_pool b1 = Blocks q \<and>
    num_free (alloc q) = 0 \<and> baseline_step demo_benv b1 = (Ret [], b2) \<and> map request_id (b_waiting b2) = [''a'']"
proof -
  let ?r = "new_request [1, 2, 3] (default_params\<lparr>max_tokens := 2\<rparr>)"
  have pre: "b_waiting (demo_baseline 1) = ?r ''b'' 0 None # ?r ''a'' 0 None # []" "b_use_cache (demo_baseline 1)"
    "b_pool (demo_baseline 1) = Blocks (new_pool [] TINY 1 2 2)" "pool_wf (new_pool [] TINY 1 2 2) {#}"
    "rope_wf (b_rope (demo_baseline 1))" "mlayers (b_model (demo_baseline 1)) \<noteq> []"
    "in_vocab (demo_baseline 1) (prompt_token_ids (?r ''b'' 0 None))" "0 < num_free (alloc (new_pool [] TINY 1 2 2))"
    by (simp_all add: new_rope_wf in_vocab_def new_request_def)
  have "ceil_div (Suc (Suc (Suc 0))) 2 = 2" by (rule ceil_div_unique) simp_all
  then have "num_free (alloc (new_pool [] TINY 1 2 2)) < ceil_div (prompt_len (?r ''b'' 0 None)) (block_size (new_pool [] TINY 1 2 2))"
    by (simp add: prompt_len_def new_request_def)
  from baseline_prefill_leak [OF pre this, of demo_benv] obtain b1 q b2 where
    r: "baseline_step demo_benv (demo_baseline 1) = (Raise OutOfBlocks, b1)" "b_pool b1 = Blocks q" "num_free (alloc q) = 0"
      "baseline_step demo_benv b1 = (Ret [], b2)" "map request_id (b_waiting b2) = map request_id [?r ''a'' 0 None]" by blast
  moreover have "map request_id [?r ''a'' 0 None] = [''a'']" by (simp add: new_request_def)
  ultimately show ?thesis by auto
qed

end
