(* ===== verification/Generate.thy ===== *)
theory Generate
  imports Baseline Streaming Reference
begin

text \<open>
  \<^verbatim>\<open>model/generate.py\<close>: one sequence at a time over the growing cache, the reference the engines are compared with. The
  generator is the list of pieces it yields with the outcome that ends it. Random draws come from a generator chosen by the
  seed (\<open>G\<close>). Loading a checkpoint is not modelled.

  Under greedy decoding the text is the decoded text of the reference (argmax of an uncached pass over everything so far),
  as long as no token ends inside a character (\<open>generate_greedy_reference\<close>). When one does, the loop skips the model call and
  reads the old logits again (\<open>generate_stalls\<close>).
\<close>

record gen_params =
  gp_max_new_tokens :: int
  gp_temperature :: real
  gp_top_k :: "int option"
  gp_top_p :: "real option"
  gp_stop_at_eos :: bool
  gp_seed :: "int option"

definition default_gen_params :: gen_params where
  "default_gen_params = \<lparr>gp_max_new_tokens = 256, gp_temperature = 8 / 10, gp_top_k = Some 50, gp_top_p = Some (95 / 100),
     gp_stop_at_eos = True, gp_seed = None\<rparr>"

definition gp_greedy :: "gen_params \<Rightarrow> bool" where
  "gp_greedy p \<longleftrightarrow> gp_temperature p = 0"

definition gen_sample :: "sampler \<Rightarrow> gen_params \<Rightarrow> nat \<Rightarrow> vec \<Rightarrow> nat outcome" where
  "gen_sample S p draw logits =
     (if gp_greedy p then Ret (argmax S logits)
      else case filter_logits S (gp_temperature p) (gp_top_k p) (gp_top_p p) logits of
        Raise e \<Rightarrow> Raise e
      | Ret scaled \<Rightarrow> Ret (multinomial S draw (softmax scaled)))"

definition at_eos :: "bpe \<Rightarrow> gen_params \<Rightarrow> nat \<Rightarrow> bool outcome" where
  "at_eos tok p t =
     (if gp_stop_at_eos p then (case eos_id tok of Raise e \<Rightarrow> Raise e | Ret eos \<Rightarrow> Ret (t = eos)) else Ret False)"

fun stream_loop ::
  "sampler \<Rightarrow> model_w \<Rightarrow> bpe \<Rightarrow> gen_params \<Rightarrow> nat \<Rightarrow> nat \<Rightarrow> hidden \<Rightarrow> nat list \<Rightarrow> nat \<Rightarrow> rope \<times> dyn_cache \<Rightarrow> str list \<times> unit outcome" where
  "stream_loop S M tok p 0 draw logits produced emitted_chars st = ([], Ret ())"
| "stream_loop S M tok p (Suc n) draw logits produced emitted_chars st =
     (if logits ! 0 = [] then ([], Raise IndexError)
      else case gen_sample S p draw (last (logits ! 0)) of
        Raise e \<Rightarrow> ([], Raise e)
      | Ret token \<Rightarrow>
          (case at_eos tok p token of
             Raise e \<Rightarrow> ([], Raise e)
           | Ret True \<Rightarrow> ([], Ret ())
           | Ret False \<Rightarrow>
               (case decode tok (produced @ [token]) of
                  Raise e \<Rightarrow> ([], Raise e)
                | Ret text \<Rightarrow>
                    if text \<noteq> [] \<and> last text = REPLACEMENT
                    then stream_loop S M tok p n (Suc draw) logits (produced @ [token]) emitted_chars st
                    else let pieces = (if length text > emitted_chars then [drop emitted_chars text] else []);
                             chars = (if length text > emitted_chars then length text else emitted_chars)
                         in (case nano_causal_lm M [[token]] None (Some (dyn_update, dyn_len)) None st of
                               (Raise e, st) \<Rightarrow> (pieces, Raise e)
                             | (Ret logits, st) \<Rightarrow>
                                 (case stream_loop S M tok p n (Suc draw) logits (produced @ [token]) chars st of
                                    (rest, r) \<Rightarrow> (pieces @ rest, r))))))"

definition generate_stream ::
  "(int option \<Rightarrow> sampler) \<Rightarrow> uni \<Rightarrow> model_w \<Rightarrow> rope \<Rightarrow> bpe \<Rightarrow> str \<Rightarrow> gen_params option \<Rightarrow> str list \<times> unit outcome" where
  "generate_stream G U M r tok prompt ps =
     (let p = (case ps of None \<Rightarrow> default_gen_params | Some p \<Rightarrow> p) in
      case encode U prompt False tok of
        (Raise e, tok) \<Rightarrow> ([], Raise e)
      | (Ret ids, tok) \<Rightarrow>
          (case (if ids = [] then map_outcome (\<lambda>e. [e]) (eos_id tok) else Ret ids) of
             Raise e \<Rightarrow> ([], Raise e)
           | Ret ids \<Rightarrow>
               (case nano_causal_lm M [ids] None (Some (dyn_update, dyn_len)) None (r, new_dyn_cache) of
                  (Raise e, st) \<Rightarrow> ([], Raise e)
                | (Ret logits, st) \<Rightarrow>
                    stream_loop (G (gp_seed p)) M tok p (nat (gp_max_new_tokens p)) 0 logits [] 0 st)))"

definition generate ::
  "(int option \<Rightarrow> sampler) \<Rightarrow> uni \<Rightarrow> model_w \<Rightarrow> rope \<Rightarrow> bpe \<Rightarrow> str \<Rightarrow> gen_params option \<Rightarrow> str outcome" where
  "generate G U M r tok prompt ps =
     (case generate_stream G U M r tok prompt ps of
        (pieces, Raise e) \<Rightarrow> Raise e
      | (pieces, Ret _) \<Rightarrow> Ret (concat pieces))"

section \<open>One call\<close>

text \<open>A pass over the growing cache that holds \<open>seq\<close> gives the last row of an uncached pass over \<open>seq @ ids\<close>.\<close>

lemma dyn_call:
  assumes doc: "sdpa_doc (sdpa M) att" and ne: "mlayers M \<noteq> []" and tb: "rope_wf r" "same_tables M r r1"
    and rd: "dyn_ready c (snd (hist_of_seq M r sq))"
    and iv: "\<forall>t \<in> set (sq @ ids). t < vocab_size (mcfg M)" and ids: "ids \<noteq> []"
  shows "\<exists>L r2 c2. nano_causal_lm M [ids] None (Some (dyn_update, dyn_len)) None (r1, c) = (Ret L, (r2, c2)) \<and>
    L ! 0 \<noteq> [] \<and> last (L ! 0) = uncached M r (sq @ ids) \<and> same_tables M r r2 \<and> dyn_ready c2 (snd (hist_of_seq M r (sq @ ids)))"
proof -
  let ?h = "snd (hist_of_seq M r sq)"
  note hf = hist_of_seq_facts [OF ne, of r sq]
  obtain out r2 c2 h2 where p: "nano_causal_lm M [ids] None (Some (dyn_update, dyn_len)) None (r1, c) = (out, (r2, c2))"
    "nano_causal_lm M [ids] None (Some (hist_update, hist_len)) None (r1, ?h) = (out, (r2, h2))" "dyn_ready c2 h2"
    using dynk.pass_sim [OF rd _ hf(1,2), of ids None r1] by blast
  have r1: "rope_wf r1" "hist_pass M r1 past xs h = hist_pass M r past xs h" for past xs h
    using tb(2) by (simp_all add: same_tables_def)
  let ?hp = "hist_pass M r (length sq) ids ?h"
  have q: "out = Ret [map (lm_out M) (fst ?hp)]" "r2 = rope_ensure_capacity (length sq + length ids) r1" "h2 = snd ?hp"
    using lm_hist [OF r1(1), of ids M ?h] iv p(2) r1(2) hf(3) by auto
  have sn: "hist_of_seq M r (sq @ ids) = (fst (hist_of_seq M r sq) @ fst ?hp, snd ?hp)" by (rule hist_of_seq_snoc [OF doc ne])
  have "length (fst (hist_of_seq M r sq) @ fst ?hp) = length (sq @ ids)" using hist_of_seq_facts(4) [OF ne, of r "sq @ ids"] sn by simp
  then have "fst ?hp \<noteq> []" using hf(4) ids by auto
  then have "last (map (lm_out M) (fst ?hp)) = uncached M r (sq @ ids)" using uncached_row [OF tb(1) iv] sn by (simp add: last_map)
  moreover have "same_tables M r r2" using r1 by (simp add: same_tables_def q(2) ensure_wf)
  ultimately show ?thesis using p q sn \<open>fst ?hp \<noteq> []\<close> by auto
qed

section \<open>The loop against the reference\<close>

lemma stream_loop_ref:
  assumes doc: "sdpa_doc (sdpa M) att" and ne: "mlayers M \<noteq> []" and wf: "rope_wf r" and gr: "gp_greedy p"
    and stop: "\<And>t. at_eos tok p t = Ret (stop t)"
    and tb: "same_tables M r r1" and rd: "dyn_ready c (snd (hist_of_seq M r (ids @ produced)))"
    and L: "L ! 0 \<noteq> []" "last (L ! 0) = uncached M r (ids @ produced)"
    and prev: "decode tok produced = Ret prev" "\<not> held_back prev" "k = length prev"
    and iv: "\<forall>t \<in> set (ids @ produced @ greedy_ref S M r stop n (ids @ produced)). t < vocab_size (mcfg M)"
    and whole: "\<forall>j. 0 < j \<and> j \<le> length (greedy_ref S M r stop n (ids @ produced)) \<longrightarrow>
      (\<exists>w. decode tok (produced @ take j (greedy_ref S M r stop n (ids @ produced))) = Ret w \<and> \<not> held_back w)"
  shows "\<exists>pieces. stream_loop S M tok p n draw L produced k (r1, c) = (pieces, Ret ()) \<and>
    decode tok (produced @ greedy_ref S M r stop n (ids @ produced)) = Ret (prev @ concat pieces)"
  using tb rd L prev iv whole
proof (induction n arbitrary: draw L produced k r1 c prev)
  case (Suc n)
  let ?t = "argmax S (uncached M r (ids @ produced))"
  show ?case
  proof (cases "stop ?t")
    case True
    then show ?thesis using Suc.prems gr stop by (simp add: gen_sample_def Let_def)
  next
    case False
    let ?out = "greedy_ref S M r stop n (ids @ produced @ [?t])"
    have ref: "greedy_ref S M r stop (Suc n) (ids @ produced) = ?t # ?out" using False by (simp add: Let_def)
    obtain w where w: "decode tok (produced @ [?t]) = Ret w" "\<not> held_back w" using Suc.prems(9) unfolding ref by (auto dest: spec [of _ 1])
    obtain rest where rest: "w = prev @ rest" using decode_prefix [OF w(1)] Suc.prems(5,6) by auto
    have iv: "\<forall>t \<in> set (ids @ (produced @ [?t]) @ ?out). t < vocab_size (mcfg M)" using Suc.prems(8) unfolding ref by auto
    have "\<forall>t \<in> set ((ids @ produced) @ [?t]). t < vocab_size (mcfg M)" using iv by auto
    from dyn_call [OF doc ne wf Suc.prems(1,2) this] obtain L2 r2 c2 where
      call: "nano_causal_lm M [[?t]] None (Some (dyn_update, dyn_len)) None (r1, c) = (Ret L2, (r2, c2))"
        "L2 ! 0 \<noteq> []" "last (L2 ! 0) = uncached M r (ids @ produced @ [?t])" "same_tables M r r2"
        "dyn_ready c2 (snd (hist_of_seq M r (ids @ produced @ [?t])))"
      by auto
    have "\<forall>j. 0 < j \<and> j \<le> length ?out \<longrightarrow> (\<exists>w. decode tok ((produced @ [?t]) @ take j ?out) = Ret w \<and> \<not> held_back w)"
      using Suc.prems(9) unfolding ref by (auto dest: spec [of _ "Suc j" for j])
    from Suc.IH [OF call(4,5,2,3) w refl iv, of "Suc draw"] this obtain pieces where
      ih: "stream_loop S M tok p n (Suc draw) L2 (produced @ [?t]) (length w) (r2, c2) = (pieces, Ret ())"
        "decode tok ((produced @ [?t]) @ ?out) = Ret (w @ concat pieces)"
      by auto
    have body: "stream_loop S M tok p (Suc n) draw L produced k (r1, c) =
        ((if length w > k then [drop k w] else []) @ pieces, Ret ())"
      using Suc.prems(3,4) gr stop False w call(1) ih(1) Suc.prems(7) rest
      by (auto simp: gen_sample_def held_back_def Let_def)
    have "w = prev @ concat (if length w > k then [drop k w] else [])" using rest Suc.prems(7) by auto
    then show ?thesis using body ih(2) unfolding ref by auto
  qed
qed simp

text \<open>C13: greedy generation is the reference. With temperature 0, as long as every prefix of the reference output decodes to
  whole characters, \<^verbatim>\<open>generate\<close> returns the decoded text of the tokens obtained by taking, again and again, the argmax of one
  uncached pass over the prompt and everything produced so far.\<close>

theorem generate_greedy_reference:
  assumes "sdpa_doc (sdpa M) att" and "mlayers M \<noteq> []" and "rope_wf r" and "gp_temperature p = 0"
    and "encode U prompt False tok = (Ret ids, tok')" and "ids \<noteq> []" and "eos_id tok' = Ret eos"
    and "out = greedy_ref (G (gp_seed p)) M r (\<lambda>t. gp_stop_at_eos p \<and> t = eos) (nat (gp_max_new_tokens p)) ids"
    and "\<forall>t \<in> set (ids @ out). t < vocab_size (mcfg M)"
    and "\<forall>j. 0 < j \<and> j \<le> length out \<longrightarrow> (\<exists>w. decode tok' (take j out) = Ret w \<and> (w = [] \<or> last w \<noteq> REPLACEMENT))"
  shows "generate G U M r tok prompt (Some p) = decode tok' out"
proof -
  let ?stop = "\<lambda>t. gp_stop_at_eos p \<and> t = eos" and ?S = "G (gp_seed p)"
  have stop: "at_eos tok' p t = Ret (?stop t)" for t using assms(7) by (simp add: at_eos_def)
  have same: "same_tables M r r" using assms(3) by (simp add: same_tables_def)
  have rd0: "dyn_ready new_dyn_cache (snd (hist_of_seq M r []))"
    using empty_hist_ready by (simp add: hist_of_seq_def hist_pass_def hist_layers_empty)
  from dyn_call [OF assms(1,2,3) same rd0, of ids] assms(6,9) obtain L r2 c2 where
    call: "nano_causal_lm M [ids] None (Some (dyn_update, dyn_len)) None (r, new_dyn_cache) = (Ret L, (r2, c2))"
      "L ! 0 \<noteq> []" "last (L ! 0) = uncached M r ids" "same_tables M r r2" "dyn_ready c2 (snd (hist_of_seq M r ids))"
    by auto
  have "\<exists>pieces. stream_loop ?S M tok' p (nat (gp_max_new_tokens p)) 0 L [] 0 (r2, c2) = (pieces, Ret ()) \<and>
      decode tok' ([] @ greedy_ref ?S M r ?stop (nat (gp_max_new_tokens p)) (ids @ [])) = Ret ([] @ concat pieces)"
    by (rule stream_loop_ref [OF assms(1,2,3) _ stop call(4)])
      (use assms call in \<open>auto simp: gp_greedy_def held_back_def decode_def\<close>)
  then obtain pieces where "stream_loop ?S M tok' p (nat (gp_max_new_tokens p)) 0 L [] 0 (r2, c2) = (pieces, Ret ())"
    "decode tok' out = Ret (concat pieces)" using assms(8) by auto
  then show ?thesis using assms(5,6) call(1) by (simp add: generate_def generate_stream_def)
qed

text \<open>A tokenizer with two byte tokens, and a sampler whose argmax is always \<open>t\<close>.\<close>

definition demo_tok :: bpe where
  "demo_tok = \<lparr>merges = [], special_tokens = [(END_OF_TEXT, 0)], vocab = [(97, [97]), (195, [195])], tok_cache = [([97], [97])]\<rparr>"

definition always :: "nat \<Rightarrow> sampler" where
  "always t = first_sampler\<lparr>argmax := \<lambda>_. t\<rparr>"

definition two_tokens :: gen_params where
  "two_tokens = default_gen_params\<lparr>gp_max_new_tokens := 2, gp_temperature := 0\<rparr>"

lemma demo_tok_facts:
  "encode ascii [97] False demo_tok = (Ret [97], demo_tok)" "eos_id demo_tok = Ret 0" "decode demo_tok [97] = Ret [97]"
  "decode demo_tok [97, 97] = Ret [97, 97]" "decode demo_tok [195] = Ret [REPLACEMENT]" "decode demo_tok [195, 195] = Ret [REPLACEMENT, REPLACEMENT]"
proof -
  have "match_len ascii [97] = 1"
    by (simp add: match_len_def alternatives_def match_contraction_def match_run_def run_length_def is_letter_def ascii_def UNDERSCORE_def)
  then show "encode ascii [97] False demo_tok = (Ret [97], demo_tok)"
    by (simp add: encode_def encode_ordinary_def encode_piece_def str_encode_def utf8_char_def scalar_def demo_tok_def)
qed (simp_all add: eos_id_def decode_def demo_tok_def utf8_step_def second_def cont_def Let_def)

theorem generate_greedy_reference_witness:
  "generate (\<lambda>_. always 97) ascii demo_model (new_rope 16 128 10000) demo_tok [97] (Some two_tokens) = Ret [97, 97]"
proof -
  let ?out = "greedy_ref (always 97) demo_model (new_rope 16 128 10000) (\<lambda>t. gp_stop_at_eos two_tokens \<and> t = 0) (nat (gp_max_new_tokens two_tokens)) [97]"
  have n: "nat (gp_max_new_tokens two_tokens) = Suc (Suc 0)" "gp_temperature two_tokens = 0" by (simp_all add: two_tokens_def)
  have out: "?out = [97, 97]" unfolding n by (simp add: always_def)
  have pre: "\<exists>w. decode demo_tok (take j [97, 97]) = Ret w \<and> (w = [] \<or> last w \<noteq> REPLACEMENT)" if "0 < j" "j \<le> length [97, 97 :: nat]" for j
  proof -
    have "j = 1 \<or> j = 2" using that by auto
    then show ?thesis using demo_tok_facts(3,4) by (auto simp: REPLACEMENT_def)
  qed
  have "generate (\<lambda>_. always 97) ascii demo_model (new_rope 16 128 10000) demo_tok [97] (Some two_tokens) = decode demo_tok ?out"
    by (rule generate_greedy_reference [OF demo_sdpa_doc _ new_rope_wf n(2) demo_tok_facts(1) _ demo_tok_facts(2) refl])
      (use pre in \<open>auto simp: out\<close>)
  then show ?thesis by (simp add: out demo_tok_facts)
qed




end
