(* ===== verification/Quant.thy ===== *)
theory Quant
  imports Transformer "HOL-Library.Word" "HOL-Library.Sublist"
begin

text \<open>
  \<^verbatim>\<open>engine/quant.py\<close>: symmetric round-to-nearest quantization of weights to 8-bit integers, one scale per group of input
  channels. A stored weight is an \<open>8 word\<close>, read back as a signed number; \<^verbatim>\<open>torch.round\<close> rounds halves to even. Floats are
  reals, so the conversion to the compute type is the identity. A module is a tree of named children whose leaves are linear
  layers; no module of this model occurs twice in it.

  The lemmas bound what quantization loses: at most half a step of the group's own scale per weight, and no stored value
  ever wraps.
\<close>

definition DEFAULT_GROUP_SIZE :: nat where
  "DEFAULT_GROUP_SIZE = 128"

definition QMAX :: int where
  "QMAX = 127"

definition round_half_even :: "real \<Rightarrow> int" where
  "round_half_even x =
     (let f = \<lfloor>x\<rfloor>; d = x - of_int f in
      if d < 1 / 2 then f else if 1 / 2 < d then f + 1 else if even f then f else f + 1)"

definition clamp :: "int \<Rightarrow> int \<Rightarrow> int \<Rightarrow> int" where
  "clamp lo hi x = min (max x lo) hi"

text \<open>\<^verbatim>\<open>reshape(out, in // group_size, group_size)\<close>, one row.\<close>

definition grouped :: "nat \<Rightarrow> 'a list \<Rightarrow> 'a list list" where
  "grouped g row = map (\<lambda>i. take g (drop (i * g) row)) [0..<length row div g]"

text \<open>\<^verbatim>\<open>abs().amax()\<close>; magnitudes are not negative.\<close>

definition absmax :: "vec \<Rightarrow> real" where
  "absmax xs = foldr max (map abs xs) 0"

definition group_scale :: "vec \<Rightarrow> real" where
  "group_scale xs = (if absmax xs > 0 then absmax xs / of_int QMAX else 1)"

definition quantize_group :: "vec \<Rightarrow> 8 word list \<times> real" where
  "quantize_group xs =
     (let s = group_scale xs in (map (\<lambda>w. word_of_int (clamp (- QMAX) QMAX (round_half_even (w / s)))) xs, s))"

definition quantize_row :: "nat \<Rightarrow> vec \<Rightarrow> 8 word list \<times> vec" where
  "quantize_row g row =
     (let qs = map quantize_group (grouped g row) in (concat (map fst qs), map snd qs))"

text \<open>\<open>n\<close> is \<^verbatim>\<open>in_features\<close>, the length of every row.\<close>

definition quantize_tensor :: "nat \<Rightarrow> vec list \<Rightarrow> nat \<Rightarrow> (8 word list list \<times> vec list) outcome" where
  "quantize_tensor n weight g =
     (if g = 0 then Raise ZeroDivisionError
      else if n mod g \<noteq> 0 then Raise (ValueError ''in_features is not divisible by group_size'')
      else let rows = map (quantize_row g) weight in Ret (map fst rows, map snd rows))"

definition dequantize_row :: "nat \<Rightarrow> 8 word list \<Rightarrow> vec \<Rightarrow> vec" where
  "dequantize_row g q scales = concat (map2 (\<lambda>xs s. map (\<lambda>x. of_int (sint x) * s) xs) (grouped g q) scales)"

definition dequantize_tensor :: "8 word list list \<Rightarrow> vec list \<Rightarrow> nat \<Rightarrow> vec list" where
  "dequantize_tensor q scales g = map2 (dequantize_row g) q scales"

section \<open>Linear layers\<close>

record linear =
  ln_in :: nat
  ln_out :: nat
  ln_weight :: "vec list"
  ln_bias :: "vec option"
  ln_element_size :: nat

record quantized_linear =
  ql_in :: nat
  ql_out :: nat
  ql_group :: nat
  qweight :: "8 word list list"
  ql_scales :: "vec list"
  ql_bias :: "vec option"

definition new_quantized_linear :: "nat \<Rightarrow> nat \<Rightarrow> nat \<Rightarrow> bool \<Rightarrow> quantized_linear" where
  "new_quantized_linear n m g bias =
     \<lparr>ql_in = n, ql_out = m, ql_group = g, qweight = replicate m (replicate n 0), ql_scales = replicate m (replicate (n div g) 1),
      ql_bias = (if bias then Some (replicate m 0) else None)\<rparr>"

definition from_linear :: "nat \<Rightarrow> linear \<Rightarrow> quantized_linear outcome" where
  "from_linear g l =
     (case quantize_tensor (ln_in l) (ln_weight l) g of
        Raise e \<Rightarrow> Raise e
      | Ret (q, scales) \<Rightarrow>
          let out = new_quantized_linear (ln_in l) (ln_out l) g (ln_bias l \<noteq> None);
              out = out\<lparr>qweight := q, ql_scales := scales\<rparr>
          in Ret (case ln_bias l of None \<Rightarrow> out | Some b \<Rightarrow> out\<lparr>ql_bias := Some b\<rparr>))"




section \<open>Models\<close>

record quant_stats =
  layers_quantized :: nat
  layers_skipped :: nat
  original_bytes :: nat
  quantized_bytes :: nat

definition compression :: "quant_stats \<Rightarrow> real" where
  "compression s = (if quantized_bytes s \<noteq> 0 then real (original_bytes s) / real (quantized_bytes s) else 1)"

definition saved_bytes :: "quant_stats \<Rightarrow> int" where
  "saved_bytes s = int (original_bytes s) - int (quantized_bytes s)"

text \<open>\<^verbatim>\<open>round(x, n)\<close>\<close>

definition py_round :: "nat \<Rightarrow> real \<Rightarrow> real" where
  "py_round n x = of_int (round_half_even (x * 10 ^ n)) / 10 ^ n"

definition quant_to_dict :: "quant_stats \<Rightarrow> (string \<times> real) list" where
  "quant_to_dict s =
     (let mb = 1024 * 1024 in
      [(''layers_quantized'', real (layers_quantized s)), (''layers_skipped'', real (layers_skipped s)),
       (''original_mb'', py_round 2 (real (original_bytes s) / mb)), (''quantized_mb'', py_round 2 (real (quantized_bytes s) / mb)),
       (''saved_mb'', py_round 2 (of_int (saved_bytes s) / mb)), (''compression'', py_round 3 (compression s))])"

datatype nn_module = Linear linear | Quantized quantized_linear | Module "(string \<times> nn_module) list"

definition numel :: "'a list list \<Rightarrow> nat" where
  "numel rows = sum_list (map length rows)"

definition skip_linear :: "linear \<Rightarrow> quant_stats \<Rightarrow> quant_stats" where
  "skip_linear l st =
     (let b = numel (ln_weight l) * ln_element_size l in
      st\<lparr>layers_skipped := layers_skipped st + 1, original_bytes := original_bytes st + b, quantized_bytes := quantized_bytes st + b\<rparr>)"

text \<open>One linear child under its full name.\<close>

definition quantize_child :: "nat \<Rightarrow> string list \<Rightarrow> string \<Rightarrow> linear \<Rightarrow> quant_stats \<Rightarrow> (nn_module \<times> quant_stats) outcome" where
  "quantize_child g skip full l st =
     (if list_ex (\<lambda>s. sublist s full) skip then Ret (Linear l, skip_linear l st)
      else if g = 0 then Raise ZeroDivisionError
      else if ln_in l mod g \<noteq> 0 then Ret (Linear l, skip_linear l st)
      else case from_linear g l of
        Raise e \<Rightarrow> Raise e
      | Ret q \<Rightarrow>
          Ret (Quantized q,
               st\<lparr>original_bytes := original_bytes st + numel (ln_weight l) * ln_element_size l,
                  quantized_bytes := quantized_bytes st + numel (qweight q) + numel (ql_scales q) * 4,
                  layers_quantized := layers_quantized st + 1\<rparr>))"

definition full_name :: "string \<Rightarrow> string \<Rightarrow> string" where
  "full_name name child = (if name = [] then child else name @ ''.'' @ child)"

text \<open>\<^verbatim>\<open>named_modules\<close> visits a module before the modules below it; the children of each are replaced in place.\<close>

function quantize_module :: "nat \<Rightarrow> string list \<Rightarrow> string \<Rightarrow> nn_module \<Rightarrow> quant_stats \<Rightarrow> (nn_module \<times> quant_stats) outcome"
  and quantize_children :: "nat \<Rightarrow> string list \<Rightarrow> string \<Rightarrow> (string \<times> nn_module) list \<Rightarrow> quant_stats \<Rightarrow>
    ((string \<times> nn_module) list \<times> quant_stats) outcome" where
  "quantize_module g skip name (Linear l) st = Ret (Linear l, st)"
| "quantize_module g skip name (Quantized q) st = Ret (Quantized q, st)"
| "quantize_module g skip name (Module cs) st =
     (case quantize_children g skip name cs st of Raise e \<Rightarrow> Raise e | Ret (cs, st) \<Rightarrow> Ret (Module cs, st))"
| "quantize_children g skip name [] st = Ret ([], st)"
| "quantize_children g skip name ((n, m) # cs) st =
     (case (case m of Linear l \<Rightarrow> quantize_child g skip (full_name name n) l st
                    | _ \<Rightarrow> quantize_module g skip (full_name name n) m st) of
        Raise e \<Rightarrow> Raise e
      | Ret (m, st) \<Rightarrow>
          (case quantize_children g skip name cs st of Raise e \<Rightarrow> Raise e | Ret (cs, st) \<Rightarrow> Ret ((n, m) # cs, st)))"
  by pat_completeness auto

termination
  by (relation "measure (\<lambda>x. case x of Inl (g, s, n, m, st) \<Rightarrow> size m | Inr (g, s, n, cs, st) \<Rightarrow> size_list (size_prod (\<lambda>x. 0) size) cs)") auto

definition quantize_model :: "nat \<Rightarrow> string list \<Rightarrow> nn_module \<Rightarrow> (nn_module \<times> quant_stats) outcome" where
  "quantize_model g skip m =
     quantize_module g skip [] m \<lparr>layers_quantized = 0, layers_skipped = 0, original_bytes = 0, quantized_bytes = 0\<rparr>"

text \<open>\<^verbatim>\<open>quantization_error\<close>: the largest, the mean and the relative error; \<^verbatim>\<open>max\<close> of an empty tensor raises.\<close>

definition norm2 :: "vec \<Rightarrow> real" where
  "norm2 xs = sqrt (sum_list (map (\<lambda>x. x * x) xs))"

definition quantization_error :: "nat \<Rightarrow> vec list \<Rightarrow> nat \<Rightarrow> (real \<times> real \<times> real) outcome" where
  "quantization_error n weight g =
     (case quantize_tensor n weight g of
        Raise e \<Rightarrow> Raise e
      | Ret (q, scales) \<Rightarrow>
          let w = concat weight; err = map2 (\<lambda>a b. \<bar>a - b\<bar>) w (concat (dequantize_tensor q scales g)) in
          if err = [] then Raise (RuntimeError ''max(): expected a non-empty tensor'')
          else Ret (absmax err, sum_list err / real (length err), if norm2 w > 0 then norm2 err / norm2 w else 0))"

section \<open>Groups\<close>







section \<open>One weight\<close>









section \<open>Rows and layers\<close>






end
