(* ===== verification/Corpus.thy ===== *)
theory Corpus
  imports Tokenizer "HOL-Library.Word"
begin

text \<open>
  \<^verbatim>\<open>model/train/data.py\<close>: a corpus of documents becomes a flat file of 16-bit tokens, and the file becomes random windows. The
  text of a file is a string; \<^verbatim>\<open>read(n)\<close> takes at most \<open>n\<close> characters of what is left. The token file is a list of \<open>16 word\<close>, so
  a token id that does not fit would wrap, and the guard on the vocabulary size is what prevents it. Progress output, the
  elapsed time and the manifest's file are not modelled; random starts are a parameter.

  \<open>stream_documents_split\<close> shows that reading in chunks does not cut a document or a separator, and \<open>prepare_round_trip\<close> what
  the file then holds.
\<close>

definition MAX_VOCAB_FOR_UINT16 :: nat where
  "MAX_VOCAB_FOR_UINT16 = 2 ^ 16"

definition CHUNK_BYTES :: nat where
  "CHUNK_BYTES = 8 * 1024 * 1024"

definition FLUSH_TOKENS :: nat where
  "FLUSH_TOKENS = 8000000"

section \<open>Documents\<close>

text \<open>\<^verbatim>\<open>s.split(sep)\<close>; \<open>acc\<close> is the part being read.\<close>

function split_on :: "str \<Rightarrow> str \<Rightarrow> str \<Rightarrow> str list" where
  "split_on sep acc [] = [acc]"
| "split_on sep acc (c # s) =
     (if sep \<noteq> [] \<and> take (length sep) (c # s) = sep then acc # split_on sep [] (drop (length sep) (c # s))
      else split_on sep (acc @ [c]) s)"
  by pat_completeness auto

termination
proof (relation "measure (\<lambda>(sep, acc, s). length s)")
  fix sep acc s :: str and c
  assume "sep \<noteq> [] \<and> take (length sep) (c # s) = sep"
  then have "0 < length sep" by simp
  then have "length (drop (length sep) (c # s)) < length (c # s)" by simp
  then show "((sep, [], drop (length sep) (c # s)), sep, acc, c # s) \<in> measure (\<lambda>(sep, acc, s). length s)" by simp
qed simp_all

text \<open>Every document but the last, stripped, empty ones left out.\<close>

definition whole_docs :: "str list \<Rightarrow> str list" where
  "whole_docs parts = filter (\<lambda>d. d \<noteq> []) (map (py_strip py_space) parts)"

function read_loop :: "nat option \<Rightarrow> nat \<Rightarrow> str \<Rightarrow> str \<Rightarrow> str list" where
  "read_loop max_bytes done tail text =
     (let want = (case max_bytes of None \<Rightarrow> CHUNK_BYTES | Some m \<Rightarrow> min CHUNK_BYTES (m - done)) in
      if want = 0 \<or> text = [] then whole_docs [tail]
      else let chunk = take want text; parts = split_on END_OF_TEXT [] (tail @ chunk)
           in whole_docs (butlast parts) @ read_loop max_bytes (done + length chunk) (last parts) (drop want text))"
  by pat_completeness auto

termination
  by (relation "measure (\<lambda>(m, d, tail, text). length text)") (auto simp: CHUNK_BYTES_def)

definition stream_documents :: "nat option \<Rightarrow> str \<Rightarrow> str list" where
  "stream_documents max_bytes text = read_loop max_bytes 0 [] text"

section \<open>Tokenising\<close>

record prep =
  pr_pending :: "str option"
  pr_buf :: "nat list"
  pr_file :: "16 word list"
  pr_tokens :: nat
  pr_docs :: nat
  pr_tok :: bpe

definition to_uint16 :: "nat list \<Rightarrow> 16 word list" where
  "to_uint16 ids = map word_of_nat ids"

definition flush :: "prep \<Rightarrow> prep" where
  "flush p = p\<lparr>pr_file := pr_file p @ to_uint16 (pr_buf p), pr_buf := []\<rparr>"

definition prepare_doc :: "uni \<Rightarrow> nat \<Rightarrow> str \<Rightarrow> prep \<Rightarrow> unit outcome \<times> prep" where
  "prepare_doc U eos doc p =
     (case encode U doc False (pr_tok p) of
        (Raise e, tok) \<Rightarrow> (Raise e, p\<lparr>pr_tok := tok\<rparr>)
      | (Ret ids, tok) \<Rightarrow>
          let ids = ids @ [eos];
              p = p\<lparr>pr_tok := tok, pr_buf := pr_buf p @ ids, pr_tokens := pr_tokens p + length ids, pr_docs := pr_docs p + 1\<rparr>
          in (Ret (), if length (pr_buf p) \<ge> FLUSH_TOKENS then flush p else p))"

definition prepare_step :: "uni \<Rightarrow> nat \<Rightarrow> bool \<Rightarrow> str \<Rightarrow> prep \<Rightarrow> unit outcome \<times> prep" where
  "prepare_step U eos drop_last doc p =
     (if drop_last
      then (let p' = p\<lparr>pr_pending := Some doc\<rparr> in
            case pr_pending p of None \<Rightarrow> (Ret (), p') | Some d \<Rightarrow> prepare_doc U eos d p')
      else prepare_doc U eos doc p)"

record manifest =
  mf_tokens :: nat
  mf_documents :: nat
  mf_vocab_size :: nat
  mf_eos_id :: nat
  mf_bytes_per_token :: real
  mf_dropped_first :: bool
  mf_dropped_last :: bool

text \<open>\<open>source_bytes\<close> is the size of the corpus file.\<close>

definition prepare_corpus :: "uni \<Rightarrow> nat \<Rightarrow> str \<Rightarrow> bpe \<Rightarrow> bool \<Rightarrow> bool \<Rightarrow> (16 word list \<times> manifest) outcome" where
  "prepare_corpus U source_bytes corpus tok drop_first drop_last =
     (if bpe_vocab_size tok > MAX_VOCAB_FOR_UINT16 then Raise (ValueError ''vocab_size does not fit in uint16'')
      else case eos_id tok of
        Raise e \<Rightarrow> Raise e
      | Ret eos \<Rightarrow>
          let docs = stream_documents None corpus; docs = (if drop_first then tl docs else docs);
              start = \<lparr>pr_pending = None, pr_buf = [], pr_file = [], pr_tokens = 0, pr_docs = 0, pr_tok = tok\<rparr>
          in (case for_each (prepare_step U eos drop_last) docs start of
                (Raise e, p) \<Rightarrow> Raise e
              | (Ret _, p) \<Rightarrow>
                  let p = (if pr_buf p \<noteq> [] then flush p else p) in
                  Ret (pr_file p,
                       \<lparr>mf_tokens = pr_tokens p, mf_documents = pr_docs p, mf_vocab_size = bpe_vocab_size tok, mf_eos_id = eos,
                        mf_bytes_per_token = real source_bytes / real (max (pr_tokens p) 1), mf_dropped_first = drop_first,
                        mf_dropped_last = drop_last\<rparr>)))"

section \<open>Windows\<close>

record dataset =
  ds_tokens :: "16 word list"
  seq_len :: nat

definition new_dataset :: "16 word list \<Rightarrow> nat \<Rightarrow> dataset outcome" where
  "new_dataset tokens n =
     (if length tokens \<le> n then Raise (ValueError ''too few tokens for seq_len'') else Ret \<lparr>ds_tokens = tokens, seq_len = n\<rparr>)"

definition dataset_len :: "dataset \<Rightarrow> nat" where
  "dataset_len d = length (ds_tokens d)"

text \<open>\<open>randint high k\<close> is the \<open>k\<close>-th number drawn below \<open>high\<close>.\<close>

definition batch :: "(nat \<Rightarrow> nat \<Rightarrow> nat) \<Rightarrow> nat \<Rightarrow> dataset \<Rightarrow> nat list list outcome" where
  "batch randint batch_size d =
     (let high = length (ds_tokens d) - seq_len d; starts = map (randint high) [0..<batch_size]
      in if starts = [] then Raise (ValueError ''need at least one array to stack'')
         else Ret (map (\<lambda>i. map unat (take (seq_len d) (drop i (ds_tokens d)))) starts))"

declare read_loop.simps [simp del]

section \<open>Reading in chunks\<close>

lemma split_acc: "split_on sep acc s = (acc @ hd (split_on sep [] s)) # tl (split_on sep [] s)"
proof (induction s arbitrary: acc rule: length_induct)
  case (1 s)
  show ?case
  proof (cases s)
    case (Cons c s')
    then show ?thesis
      using 1 [rule_format, of s' "acc @ [c]"] 1 [rule_format, of s' "[c]"] by (cases "sep \<noteq> [] \<and> take (length sep) (c # s') = sep") auto
  qed simp
qed

lemma split_nonempty [simp]: "split_on sep acc s \<noteq> []"
  by (subst split_acc) simp

lemma split_single: "split_on sep [] s = [x] \<Longrightarrow> x = s"
proof (induction s arbitrary: x)
  case (Cons c s)
  have no: "\<not> (sep \<noteq> [] \<and> take (length sep) (c # s) = sep)" using Cons.prems by auto
  then have x: "x = c # hd (split_on sep [] s)" "tl (split_on sep [] s) = []"
    using Cons.prems split_acc [of sep "[c]" s] by (auto split: if_splits)
  then have "split_on sep [] s = [hd (split_on sep [] s)]" by (metis list.collapse split_nonempty)
  then show ?case using Cons.IH x(1) by simp
qed simp

lemma split_short: "length s < length sep \<Longrightarrow> split_on sep [] s = [s]"
proof (induction s)
  case (Cons c s)
  then have "split_on sep [] s = [s]" "take (length sep) (c # s) \<noteq> sep" by auto
  then show ?case by (simp add: split_acc [of sep "[c]" s])
qed simp

text \<open>A match that would start in the first part and end in the second leaves the first unsplit from there on.\<close>

lemma split_append:
  "split_on sep [] (s @ t) = butlast (split_on sep [] s) @ split_on sep [] (last (split_on sep [] s) @ t)"
proof (induction s rule: length_induct)
  case (1 s)
  show ?case
  proof (cases s)
    case (Cons c s')
    let ?ps = "split_on sep [] s'"
    show ?thesis
    proof (cases "sep \<noteq> [] \<and> take (length sep) s = sep")
      case True
      then have le: "length sep \<le> length s" by (metis nat_le_linear take_all_iff length_take min.absorb2)
      have "length (drop (length sep) s) < length s" using True Cons by simp
      note ih = 1 [rule_format, OF this]
      have "take (length sep) (s @ t) = sep" "drop (length sep) (s @ t) = drop (length sep) s @ t" using True le by simp_all
      then have "split_on sep [] (s @ t) = [] # split_on sep [] (drop (length sep) s @ t)" using True Cons by simp
      moreover have "split_on sep [] s = [] # split_on sep [] (drop (length sep) s)" using True Cons by simp
      ultimately show ?thesis using ih by simp
    next
      case no: False
      then have sp: "split_on sep [] s = (c # hd ?ps) # tl ?ps" using Cons by (auto simp: split_acc [of sep "[c]" s'])
      show ?thesis
      proof (cases "tl ?ps = []")
        case True
        then have "?ps = [s']" using split_single [of sep s' "hd ?ps"] by (metis list.collapse split_nonempty)
        then show ?thesis using sp Cons by simp
      next
        case more: False
        have "\<not> (sep \<noteq> [] \<and> take (length sep) (s @ t) = sep)"
        proof
          assume m: "sep \<noteq> [] \<and> take (length sep) (s @ t) = sep"
          then have "length s < length sep" using no by (metis linorder_not_le take_append diff_is_0_eq' take0 append_Nil2)
          then have "?ps = [s']" using Cons by (intro split_short) simp
          then show False using more by simp
        qed
        then have "split_on sep [] (s @ t) = (c # hd (split_on sep [] (s' @ t))) # tl (split_on sep [] (s' @ t))"
          using Cons by (auto simp: split_acc [of sep "[c]" "s' @ t"])
        moreover have "split_on sep [] (s' @ t) = butlast ?ps @ split_on sep [] (last ?ps @ t)" using 1 Cons by simp
        ultimately show ?thesis using sp more by (cases ?ps) auto
      qed
    qed
  qed simp
qed

lemma split_last_clean: "split_on sep [] (last (split_on sep [] s)) = [last (split_on sep [] s)]"
proof (induction s rule: length_induct)
  case (1 s)
  show ?case
  proof (cases s)
    case (Cons c s')
    let ?ps = "split_on sep [] s'"
    show ?thesis
    proof (cases "sep \<noteq> [] \<and> take (length sep) s = sep")
      case True
      then have "length (drop (length sep) s) < length s" using Cons by simp
      from 1 [rule_format, OF this] show ?thesis using True Cons by simp
    next
      case no: False
      then have sp: "split_on sep [] s = (c # hd ?ps) # tl ?ps" using Cons by (auto simp: split_acc [of sep "[c]" s'])
      show ?thesis
      proof (cases "tl ?ps = []")
        case True
        then have "?ps = [s']" using split_single [of sep s' "hd ?ps"] by (metis list.collapse split_nonempty)
        then show ?thesis using sp Cons by simp
      next
        case False
        then show ?thesis using sp 1 Cons by (cases ?ps) auto
      qed
    qed
  qed simp
qed

lemma whole_docs_append: "whole_docs (a @ b) = whole_docs a @ whole_docs b"
  by (simp add: whole_docs_def)

lemma read_loop_split:
  assumes "split_on END_OF_TEXT [] tail = [tail]"
  shows "read_loop m d tail t =
    whole_docs (split_on END_OF_TEXT [] (tail @ (case m of None \<Rightarrow> t | Some k \<Rightarrow> take (k - d) t)))"
  using assms
proof (induction m d tail t rule: read_loop.induct)
  case (1 m d tail t)
  let ?want = "case m of None \<Rightarrow> CHUNK_BYTES | Some k \<Rightarrow> min CHUNK_BYTES (k - d)"
  show ?case
  proof (cases "?want = 0 \<or> t = []")
    case True
    then have "tail @ (case m of None \<Rightarrow> t | Some k \<Rightarrow> take (k - d) t) = tail"
      by (auto simp: CHUNK_BYTES_def split: option.splits)
    then show ?thesis using True 1(2) by (simp add: read_loop.simps [of m d tail t])
  next
    case False
    let ?c = "take ?want t" and ?ps = "split_on END_OF_TEXT [] (tail @ take ?want t)"
    let ?rest = "case m of None \<Rightarrow> drop ?want t | Some k \<Rightarrow> take (k - (d + length ?c)) (drop ?want t)"
    have all: "(case m of None \<Rightarrow> t | Some k \<Rightarrow> take (k - d) t) = ?c @ ?rest"
    proof (cases m)
      case (Some k)
      let ?w = "min CHUNK_BYTES (k - d)"
      have "take (k - d) t = take ?w t @ take (k - d - ?w) (drop ?w t)" by (metis append_take_drop_id le_add_diff_inverse min.cobounded2 take_add)
      moreover have "take (k - d - ?w) (drop ?w t) = take (k - (d + length (take ?w t))) (drop ?w t)" by (cases "?w \<le> length t") auto
      ultimately show ?thesis using Some by simp
    qed simp
    have "read_loop m (d + length ?c) (last ?ps) (drop ?want t) = whole_docs (split_on END_OF_TEXT [] (last ?ps @ ?rest))"
      using 1(1) [OF refl False refl refl split_last_clean] by simp
    then have "read_loop m d tail t = whole_docs (butlast ?ps @ split_on END_OF_TEXT [] (last ?ps @ ?rest))"
      using False by (simp add: read_loop.simps [of m d tail t] Let_def whole_docs_append)
    then show ?thesis using split_append [of END_OF_TEXT "tail @ ?c" ?rest] all by simp
  qed
qed

text \<open>Reading in chunks of any size is splitting the whole text, or the whole of its first \<open>m\<close> characters.\<close>

lemma stream_documents_split:
  "stream_documents m t = whole_docs (split_on END_OF_TEXT [] (case m of None \<Rightarrow> t | Some k \<Rightarrow> take k t))"
  using read_loop_split [of "[]" m 0 t] by (simp add: stream_documents_def cong: option.case_cong)

section \<open>What the file holds\<close>

text \<open>Every token id is below the size of the vocabulary, as in a tokenizer whose special tokens are distinct.\<close>

definition dense_ids :: "bpe \<Rightarrow> bool" where
  "dense_ids t \<longleftrightarrow> (\<forall>i \<in> fst ` set (vocab t). i < bpe_vocab_size t)"

lemma token_bytes_known: "token_bytes t ids = Ret b \<Longrightarrow> i \<in> set ids \<Longrightarrow> i \<in> fst ` set (vocab t)"
proof (induction ids arbitrary: b)
  case (Cons j ids)
  then obtain x where x: "map_of (vocab t) j = Some x" by (auto split: option.splits)
  then have "j \<in> fst ` set (vocab t)" by (metis domI dom_map_of_conv_image_fst)
  moreover obtain b' where "token_bytes t ids = Ret b'" using Cons.prems(1) x by (auto split: outcome.splits)
  ultimately show ?case using Cons by auto
qed simp

lemma uint16_reads_back: "\<forall>i \<in> set ids. i < 2 ^ 16 \<Longrightarrow> map unat (to_uint16 ids) = ids"
  by (induction ids) (auto simp: to_uint16_def unat_of_nat take_bit_nat_eq_self)

text \<open>The documents encoded so far, with the text each decodes to.\<close>

definition holds :: "bpe \<Rightarrow> nat \<Rightarrow> str list \<Rightarrow> prep \<Rightarrow> bool" where
  "holds t eos docs p \<longleftrightarrow> bpe_wf (pr_tok p) \<and> vocab (pr_tok p) = vocab t \<and> (\<forall>i \<in> set (pr_buf p). i < 2 ^ 16) \<and>
     (\<exists>idss. list_all2 (\<lambda>ids d. decode t ids = Ret (filter (\<lambda>c. c \<noteq> UNDERSCORE) d)) idss docs \<and>
        map unat (pr_file p) @ pr_buf p = concat (map (\<lambda>ids. ids @ [eos]) idss) \<and>
        pr_tokens p = length (pr_file p) + length (pr_buf p) \<and> pr_docs p = length docs)"

lemma flush_holds: "holds t eos docs p \<Longrightarrow> holds t eos docs (flush p)"
  unfolding holds_def flush_def by (auto simp: uint16_reads_back) (auto simp: to_uint16_def)

lemma same_vocab_decode: "vocab t' = vocab t \<Longrightarrow> decode t' ids = decode t ids"
proof -
  assume v: "vocab t' = vocab t"
  have "token_bytes t' ids = token_bytes t ids" by (induction ids) (auto simp: v split: option.splits outcome.splits)
  then show "decode t' ids = decode t ids" by (simp add: decode_def)
qed

lemma pieces_vocab: "encode_pieces ps t = (r, t') \<Longrightarrow> vocab t' = vocab t"
  by (induction ps arbitrary: t r)
    (auto simp: encode_piece_def Let_def bindS_def split: outcome.splits prod.splits option.splits)

lemma prepare_doc_holds:
  assumes "uni_doc U" and "dense_ids t" and "bpe_vocab_size t \<le> 2 ^ 16" and "eos < 2 ^ 16" and h: "holds t eos docs p"
    and d: "\<forall>c \<in> set d. scalar c"
  shows "\<exists>p'. prepare_doc U eos d p = (Ret (), p') \<and> holds t eos (docs @ [d]) p' \<and> pr_pending p' = pr_pending p"
proof -
  have "bpe_wf (pr_tok p)" using h by (simp add: holds_def)
  from ordinary_round_trip [OF assms(1) this d] obtain ids tok where e: "encode_ordinary U d (pr_tok p) = (Ret ids, tok)" "bpe_wf tok"
    "decode tok ids = Ret (filter (\<lambda>c. c \<noteq> UNDERSCORE) d)"
    by blast
  have v: "vocab tok = vocab t" using e(1) pieces_vocab h by (auto simp: encode_ordinary_def holds_def)
  then have dt: "decode t ids = Ret (filter (\<lambda>c. c \<noteq> UNDERSCORE) d)" using e(3) same_vocab_decode [of tok t] by simp
  then obtain b where "token_bytes t ids = Ret b" by (auto simp: decode_def split: outcome.splits)
  from token_bytes_known [OF this] have "\<forall>i \<in> set ids. i < 2 ^ 16"
    using assms(2,3) unfolding dense_ids_def by (meson order_less_le_trans)
  then have small: "\<forall>i \<in> set (ids @ [eos]). i < 2 ^ 16" using assms(4) by simp
  obtain idss where g: "list_all2 (\<lambda>ids d. decode t ids = Ret (filter (\<lambda>c. c \<noteq> UNDERSCORE) d)) idss docs"
    "map unat (pr_file p) @ pr_buf p = concat (map (\<lambda>ids. ids @ [eos]) idss)"
    "pr_tokens p = length (pr_file p) + length (pr_buf p)" "pr_docs p = length docs" "\<forall>i \<in> set (pr_buf p). i < 2 ^ 16"
    using h by (auto simp: holds_def)
  let ?p = "p\<lparr>pr_tok := tok, pr_buf := pr_buf p @ ids @ [eos], pr_tokens := pr_tokens p + length (ids @ [eos]), pr_docs := pr_docs p + 1\<rparr>"
  have "list_all2 (\<lambda>ids d. decode t ids = Ret (filter (\<lambda>c. c \<noteq> UNDERSCORE) d)) (idss @ [ids]) (docs @ [d])"
    using g(1) dt by (simp add: list_all2_appendI)
  then have "holds t eos (docs @ [d]) ?p"
    unfolding holds_def using g(2-5) e(2) v small by (auto intro!: exI [of _ "idss @ [ids]"])
  then have "holds t eos (docs @ [d]) (if FLUSH_TOKENS \<le> length (pr_buf ?p) then flush ?p else ?p)" using flush_holds by simp
  moreover have "prepare_doc U eos d p = (Ret (), if FLUSH_TOKENS \<le> length (pr_buf ?p) then flush ?p else ?p)"
    using e(1) by (simp add: prepare_doc_def encode_def Let_def)
  ultimately show ?thesis by (auto simp: flush_def)
qed

lemma prepare_all_holds:
  assumes "uni_doc U" and "dense_ids t" and "bpe_vocab_size t \<le> 2 ^ 16" and "eos < 2 ^ 16" and "holds t eos base p"
    and "\<forall>d \<in> set docs. \<forall>c \<in> set d. scalar c"
  shows "\<exists>p'. for_each (prepare_step U eos False) docs p = (Ret (), p') \<and> holds t eos (base @ docs) p'"
  using assms(5,6)
proof (induction docs arbitrary: base p)
  case (Cons d docs)
  obtain q where q: "prepare_doc U eos d p = (Ret (), q)" "holds t eos (base @ [d]) q"
    using prepare_doc_holds [OF assms(1-4) Cons.prems(1), of d] Cons.prems(2) by auto
  show ?case using Cons.IH [OF q(2)] Cons.prems(2) q(1) by (auto simp: prepare_step_def)
qed simp

lemma prepare_but_last_holds:
  assumes "uni_doc U" and "dense_ids t" and "bpe_vocab_size t \<le> 2 ^ 16" and "eos < 2 ^ 16" and "holds t eos base p"
    and "\<forall>d \<in> set (d0 # docs). \<forall>c \<in> set d. scalar c" and "pr_pending p = Some d0"
  shows "\<exists>p'. for_each (prepare_step U eos True) docs p = (Ret (), p') \<and> holds t eos (base @ butlast (d0 # docs)) p'"
  using assms(5-7)
proof (induction docs arbitrary: base p d0)
  case (Cons d docs)
  have "holds t eos base (p\<lparr>pr_pending := Some d\<rparr>)" using Cons.prems(1) by (simp add: holds_def)
  from prepare_doc_holds [OF assms(1-4) this, of d0] Cons.prems(2) obtain q where
    q: "prepare_doc U eos d0 (p\<lparr>pr_pending := Some d\<rparr>) = (Ret (), q)" "holds t eos (base @ [d0]) q" "pr_pending q = Some d"
    by auto
  show ?case using Cons.IH [OF q(2) _ q(3)] Cons.prems(2,3) q(1) by (auto simp: prepare_step_def Let_def)
qed simp

lemma split_chars: "x \<in> set (split_on sep acc s) \<Longrightarrow> set x \<subseteq> set acc \<union> set s"
proof (induction sep acc s rule: split_on.induct)
  case (2 sep acc c s)
  show ?case
  proof (cases "sep \<noteq> [] \<and> take (length sep) (c # s) = sep")
    case True
    then show ?thesis using 2 set_drop_subset [of "length sep" "c # s"] by auto
  next
    case False
    then show ?thesis using 2 by auto
  qed
qed simp

lemma strip_chars: "set (py_strip P s) \<subseteq> set s"
  by (auto simp: py_strip_def dest!: set_dropWhileD)

lemma document_chars:
  assumes "d \<in> set (stream_documents m t)"
  shows "set d \<subseteq> set t"
proof -
  let ?t = "case m of None \<Rightarrow> t | Some k \<Rightarrow> take k t"
  obtain x where x: "x \<in> set (split_on END_OF_TEXT [] ?t)" "d = py_strip py_space x"
    using assms by (auto simp: stream_documents_split whole_docs_def)
  have "set ?t \<subseteq> set t" by (cases m) (auto dest: in_set_takeD)
  then show ?thesis using split_chars [OF x(1)] strip_chars [of py_space x] x(2) by auto
qed

text \<open>C22: the token file is the corpus. For a tokenizer whose ids fit, \<^verbatim>\<open>prepare\<close> succeeds and the 16-bit file reads back, without
  wrap-around, as one block per document of the corpus (split at the separator, stripped, the first and the last dropped when
  asked), each the encoding of its document, which decodes to the document without underscores, followed by the end token;
  and the manifest counts what was written. How the text was cut into chunks does not matter.\<close>

theorem prepare_round_trip:
  assumes "uni_doc U" and "bpe_wf t" and "dense_ids t" and "bpe_vocab_size t \<le> MAX_VOCAB_FOR_UINT16" and "eos_id t = Ret eos"
    and "eos < bpe_vocab_size t" and "\<forall>c \<in> set corpus. scalar c"
    and "docs = filter (\<lambda>d. d \<noteq> []) (map (py_strip py_space) (split_on END_OF_TEXT [] corpus))"
    and "kept = (let ds = (if drop_first then tl docs else docs) in if drop_last then butlast ds else ds)"
  shows "\<exists>file m idss. prepare_corpus U n corpus t drop_first drop_last = Ret (file, m) \<and>
    map unat file = concat (map (\<lambda>ids. ids @ [eos]) idss) \<and>
    list_all2 (\<lambda>ids d. decode t ids = Ret (filter (\<lambda>c. c \<noteq> UNDERSCORE) d)) idss kept \<and>
    mf_tokens m = length file \<and> mf_documents m = length kept"
proof -
  let ?ds = "if drop_first then tl docs else docs"
  let ?start = "\<lparr>pr_pending = None, pr_buf = [], pr_file = [], pr_tokens = 0, pr_docs = 0, pr_tok = t\<rparr>"
  have vs: "bpe_vocab_size t \<le> 2 ^ 16" "eos < 2 ^ 16" using assms(4,6) by (simp_all add: MAX_VOCAB_FOR_UINT16_def)
  have sd: "stream_documents None corpus = docs" using assms(8) by (simp add: stream_documents_split whole_docs_def)
  have sc: "\<forall>d \<in> set ?ds. \<forall>c \<in> set d. scalar c"
    using document_chars [of _ None corpus] assms(7) sd by (auto dest: list.set_sel(2) [rotated] split: if_splits) (metis list.sel(2) list.set_sel(2) subsetD)+
  have h0: "holds t eos [] ?start" using assms(2) by (simp add: holds_def)
  obtain p where p: "for_each (prepare_step U eos drop_last) ?ds ?start = (Ret (), p)" "holds t eos kept p"
  proof (cases "drop_last \<and> ?ds \<noteq> []")
    case True
    then obtain d0 rest where ds: "?ds = d0 # rest" by (cases ?ds) auto
    have "holds t eos [] (?start\<lparr>pr_pending := Some d0\<rparr>)" using h0 by (simp add: holds_def)
    from prepare_but_last_holds [OF assms(1,3) vs this, of d0 rest] sc obtain q where
      "for_each (prepare_step U eos True) rest (?start\<lparr>pr_pending := Some d0\<rparr>) = (Ret (), q)" "holds t eos (butlast (d0 # rest)) q"
      unfolding ds by auto
    then show thesis using that [of q] True ds assms(9) by (simp add: prepare_step_def Let_def)
  next
    case False
    then have k: "kept = ?ds" using assms(9) by (auto simp: Let_def)
    show thesis
    proof (cases drop_last)
      case True
      then have "?ds = []" using False by simp
      then show thesis using that [of ?start] h0 k by simp
    next
      case nd: False
      then show thesis using prepare_all_holds [OF assms(1,3) vs h0 sc] that k by auto
    qed
  qed
  let ?p = "if pr_buf p \<noteq> [] then flush p else p"
  have h: "holds t eos kept ?p" "pr_buf ?p = []" using p(2) flush_holds by (auto simp: flush_def)
  have "prepare_corpus U n corpus t drop_first drop_last = Ret (pr_file ?p, \<lparr>mf_tokens = pr_tokens ?p, mf_documents = pr_docs ?p,
      mf_vocab_size = bpe_vocab_size t, mf_eos_id = eos, mf_bytes_per_token = real n / real (max (pr_tokens ?p) 1),
      mf_dropped_first = drop_first, mf_dropped_last = drop_last\<rparr>)"
    using assms(4,5) p(1) sd by (simp add: prepare_corpus_def Let_def)
  moreover obtain idss where "list_all2 (\<lambda>ids d. decode t ids = Ret (filter (\<lambda>c. c \<noteq> UNDERSCORE) d)) idss kept"
    "map unat (pr_file ?p) = concat (map (\<lambda>ids. ids @ [eos]) idss)" "pr_tokens ?p = length (pr_file ?p)" "pr_docs ?p = length kept"
    using h by (auto simp: holds_def)
  ultimately show ?thesis by auto
qed

theorem prepare_round_trip_witness:
  "\<exists>t file m. train ascii [] 257 [END_OF_TEXT] 2 = Ret t \<and> prepare_corpus ascii 5 ([32, 97] @ END_OF_TEXT @ [98]) t False True = Ret (file, m) \<and>
    mf_documents m = 1 \<and> length file = mf_tokens m"
proof -
  obtain bs where bs: "str_encode END_OF_TEXT = Ret bs" by (simp add: str_encode_def scalar_def END_OF_TEXT_def)
  define t where "t = \<lparr>merges = [], special_tokens = [(END_OF_TEXT, 256)], vocab = AList.update 256 bs byte_vocab, tok_cache = []\<rparr>"
  have tr: "train ascii [] 257 [END_OF_TEXT] 2 = Ret t"
    using bs by (simp add: train_def Let_def BYTE_VOCAB_SIZE_def new_bpe_def t_def)
  have wf: "bpe_wf t" by (rule train_wf [OF tr]) (simp add: scalar_def END_OF_TEXT_def)
  have "map fst byte_vocab = [0..<256]" by (simp add: byte_vocab_def comp_def BYTE_VOCAB_SIZE_def)
  then have keys: "map fst (vocab t) = [0..<256] @ [256]" by (simp add: t_def update_keys)
  then have "length (map fst (vocab t)) = length ([0..<256] @ [256])" by (rule arg_cong)
  then have size: "bpe_vocab_size t = 257" by (simp add: bpe_vocab_size_def)
  have "set (map fst (vocab t)) \<subseteq> {..<257}" unfolding keys by auto
  then have dense: "dense_ids t" using size by (auto simp: dense_ids_def)
  have eos: "eos_id t = Ret 256" by (simp add: eos_id_def t_def)
  let ?text = "[32, 97] @ END_OF_TEXT @ [98]"
  have split: "split_on END_OF_TEXT [] ?text = [[32, 97], [98]]" by (simp add: END_OF_TEXT_def)
  have "\<exists>file m idss. prepare_corpus ascii 5 ?text t False True = Ret (file, m) \<and> map unat file = concat (map (\<lambda>ids. ids @ [256]) idss) \<and>
    list_all2 (\<lambda>ids d. decode t ids = Ret (filter (\<lambda>c. c \<noteq> UNDERSCORE) d)) idss [[97]] \<and> mf_tokens m = length file \<and> mf_documents m = length [[97 :: nat]]"
    by (rule prepare_round_trip [OF ascii_doc wf dense _ eos])
      (use size split in \<open>auto simp: MAX_VOCAB_FOR_UINT16_def scalar_def END_OF_TEXT_def py_strip_def py_space_def\<close>)
  then show ?thesis using tr by fastforce
qed

lemma windows_in_range:
  assumes "new_dataset tokens n = Ret d" and "batch randint b d = Ret ws" and "\<forall>high k. 0 < high \<longrightarrow> randint high k < high"
  shows "length ws = b \<and> (\<forall>w \<in> set ws. length w = n \<and> (\<exists>i. i + n < length tokens \<and> w = map unat (take n (drop i tokens))))"
proof -
  have d: "d = \<lparr>ds_tokens = tokens, seq_len = n\<rparr>" "n < length tokens" using assms(1) by (auto simp: new_dataset_def split: if_splits)
  let ?r = "randint (length tokens - n)"
  have ws: "ws = map (\<lambda>i. map unat (take n (drop i tokens))) (map ?r [0..<b])"
    using assms(2) d(1) by (auto simp: batch_def Let_def split: if_splits)
  have "?r k + n < length tokens" for k using assms(3) d(2) by (metis less_diff_conv zero_less_diff)
  then have "length (map unat (take n (drop (?r k) tokens))) = n \<and>
      (\<exists>i. i + n < length tokens \<and> map unat (take n (drop (?r k) tokens)) = map unat (take n (drop i tokens)))" for k
    by (metis (no_types, lifting) add.commute length_drop length_map length_take less_diff_conv less_or_eq_imp_le min.absorb2)
  then show ?thesis unfolding ws by auto
qed

end
