(* ===== verification/Train.thy ===== *)
theory Train
  imports Corpus Quant "HOL-Library.AList"
begin

text \<open>
  \<^verbatim>\<open>model/train/train.py\<close>: the resumable training loop. The trainer is a record; the output directory is the association list of
  its checkpoint files, in the order a directory listing gives them, with the lines of \<^verbatim>\<open>log.jsonl\<close>. What torch does (random
  generators, the model's loss and its gradient, clipping, AdamW) is the record \<open>torch\<close> of functions, over types of weights
  \<open>'w\<close>, optimizer states \<open>'o\<close>, generator states \<open>'g\<close> and \<open>'r\<close>, and gradients \<open>'d\<close>. Losses are reals, \<open>None\<close> is the infinite
  best loss of a new trainer. The model draws no random numbers in a pass. \<^verbatim>\<open>print\<close>, the wall-clock fields of a log line, device
  placement and compilation are not modelled.

  \<open>resume_matches_straight_run\<close>: a run that is killed and resumed from its newest checkpoint ends with the trainer of a run that
  was not killed. \<open>save_is_atomic\<close> and \<open>prune_keeps_newest\<close> are what it needs from the directory, \<open>cosine_lr_range\<close> bounds the
  schedule.
\<close>

section \<open>Configuration and schedule\<close>

record train_config =
  train_bin :: str
  val_bin :: str
  tc_seq_len :: nat
  micro_batch :: nat
  grad_accum :: nat
  tc_lr :: real
  min_lr :: real
  warmup_steps :: nat
  weight_decay :: real
  betas :: "real \<times> real"
  grad_clip :: real
  max_steps :: nat
  eval_every :: nat
  eval_batches :: nat
  log_every :: nat
  ckpt_every :: nat
  keep_last :: nat
  out_dir :: str
  tc_compile :: bool
  tc_seed :: nat
  tc_device :: string
  tc_dtype :: string
  tc_model :: nano_config

definition tokens_per_step :: "train_config \<Rightarrow> nat" where
  "tokens_per_step c = micro_batch c * grad_accum c * tc_seq_len c"

definition cosine_lr :: "nat \<Rightarrow> train_config \<Rightarrow> real" where
  "cosine_lr s c =
     (if s < warmup_steps c then tc_lr c * (real s + 1) / real (warmup_steps c)
      else if s \<ge> max_steps c then min_lr c
      else let progress = (real s - real (warmup_steps c)) / max 1 (real (max_steps c) - real (warmup_steps c))
           in min_lr c + 0.5 * (tc_lr c - min_lr c) * (1 + cos (pi * progress)))"

section \<open>What torch provides\<close>

record 'p param_group =
  pg_params :: "'p list"
  pg_weight_decay :: real

record ('w, 'o, 'g, 'r, 'd, 'p) torch =
  cuda_available :: bool
  manual_seed :: "nat \<Rightarrow> 'r"
  cuda_manual_seed_all :: "nat \<Rightarrow> 'r"
  generator_seed :: "nat \<Rightarrow> 'g"
  init_model :: "nano_config \<Rightarrow> 'r \<Rightarrow> 'w \<times> 'r"
  parameters :: "'w \<Rightarrow> 'p list"
  requires_grad :: "'p \<Rightarrow> bool"
  param_dim :: "'p \<Rightarrow> nat"
  adamw :: "'p param_group list \<Rightarrow> real \<Rightarrow> real \<times> real \<Rightarrow> 'o"
  set_lr :: "real \<Rightarrow> 'o \<Rightarrow> 'o"
  group_lr :: "'o \<Rightarrow> real"
  randint :: "'g \<Rightarrow> nat \<Rightarrow> nat \<Rightarrow> nat list \<times> 'g"
  model_loss :: "'w \<Rightarrow> nat list list \<Rightarrow> real"
  backward :: "'w \<Rightarrow> nat list list \<Rightarrow> real \<Rightarrow> 'd \<Rightarrow> 'd"
  no_grad :: "'d"
  clip_grad_norm :: "real \<Rightarrow> 'd \<Rightarrow> real \<times> 'd"
  opt_step :: "'o \<Rightarrow> 'd \<Rightarrow> 'w \<Rightarrow> 'w \<times> 'o"
  token_file :: "str \<Rightarrow> 16 word list"

definition build_optimizer :: "('w, 'o, 'g, 'r, 'd, 'p) torch \<Rightarrow> 'w \<Rightarrow> train_config \<Rightarrow> 'o" where
  "build_optimizer T w c =
     (let ps = filter (requires_grad T) (parameters T w);
          decay = filter (\<lambda>p. 2 \<le> param_dim T p) ps; no_decay = filter (\<lambda>p. \<not> 2 \<le> param_dim T p) ps
      in adamw T [\<lparr>pg_params = decay, pg_weight_decay = weight_decay c\<rparr>, \<lparr>pg_params = no_decay, pg_weight_decay = 0\<rparr>]
           (tc_lr c) (betas c))"

section \<open>The trainer\<close>

record ('w, 'o, 'g, 'r) trainer =
  t_cfg :: train_config
  t_model :: 'w
  t_opt :: 'o
  train_data :: dataset
  val_data :: dataset
  data_gen :: 'g
  t_step :: nat
  best_val :: "real option"
  tokens_seen :: nat
  torch_rng :: 'r
  cuda_rng :: "'r option"

definition new_trainer :: "('w, 'o, 'g, 'r, 'd, 'p) torch \<Rightarrow> train_config \<Rightarrow> ('w, 'o, 'g, 'r) trainer outcome" where
  "new_trainer T c =
     (let (w, rng) = init_model T (tc_model c) (manual_seed T (tc_seed c)) in
      case new_dataset (token_file T (train_bin c)) (tc_seq_len c) of
        Raise e \<Rightarrow> Raise e
      | Ret td \<Rightarrow> (case new_dataset (token_file T (val_bin c)) (tc_seq_len c) of
          Raise e \<Rightarrow> Raise e
        | Ret vd \<Rightarrow>
            Ret \<lparr>t_cfg = c, t_model = w, t_opt = build_optimizer T w c, train_data = td, val_data = vd,
                 data_gen = generator_seed T (tc_seed c), t_step = 0, best_val = None, tokens_seen = 0, torch_rng = rng,
                 cuda_rng = (if cuda_available T then Some (cuda_manual_seed_all T (tc_seed c)) else None)\<rparr>))"

text \<open>\<^verbatim>\<open>data.batch(n, device, gen)\<close>, with the generator it advances.\<close>

definition next_batch :: "('w, 'o, 'g, 'r, 'd, 'p) torch \<Rightarrow> nat \<Rightarrow> dataset \<Rightarrow> 'g \<Rightarrow> nat list list outcome \<times> 'g" where
  "next_batch T n d g =
     (batch (\<lambda>high k. fst (randint T g high n) ! k) n d, snd (randint T g (dataset_len d - seq_len d) n))"

text \<open>One micro-batch; the state is the trainer, the accumulated loss and the accumulated gradient.\<close>

definition micro_step ::
  "('w, 'o, 'g, 'r, 'd, 'p) torch \<Rightarrow> nat \<Rightarrow> ('w, 'o, 'g, 'r) trainer \<times> real \<times> 'd \<Rightarrow>
   unit outcome \<times> (('w, 'o, 'g, 'r) trainer \<times> real \<times> 'd)" where
  "micro_step T _ s =
     (case s of (t, acc, grads) \<Rightarrow>
        let k = real (grad_accum (t_cfg t)); (r, g) = next_batch T (micro_batch (t_cfg t)) (train_data t) (data_gen t);
            t = t\<lparr>data_gen := g\<rparr>
        in (case r of
              Raise e \<Rightarrow> (Raise e, (t, acc, grads))
            | Ret tokens \<Rightarrow> (Ret (), (t, acc + model_loss T (t_model t) tokens / k, backward T (t_model t) tokens (1 / k) grads))))"

definition train_step ::
  "('w, 'o, 'g, 'r, 'd, 'p) torch \<Rightarrow> ('w, 'o, 'g, 'r) trainer \<Rightarrow> (real \<times> real) outcome \<times> ('w, 'o, 'g, 'r) trainer" where
  "train_step T t =
     (let c = t_cfg t; t = t\<lparr>t_opt := set_lr T (cosine_lr (t_step t) c) (t_opt t)\<rparr> in
      case for_each (micro_step T) [0..<grad_accum c] (t, 0, no_grad T) of
        (Raise e, (t, _, _)) \<Rightarrow> (Raise e, t)
      | (Ret _, (t, total_loss, grads)) \<Rightarrow>
          let (grad_norm, grads) = clip_grad_norm T (grad_clip c) grads; (w, opt) = opt_step T (t_opt t) grads (t_model t)
          in (Ret (total_loss, grad_norm),
              t\<lparr>t_model := w, t_opt := opt, t_step := t_step t + 1, tokens_seen := tokens_seen t + tokens_per_step c\<rparr>))"

text \<open>The windows come from a generator of their own, seeded with 0 on every call.\<close>

fun eval_loop :: "('w, 'o, 'g, 'r, 'd, 'p) torch \<Rightarrow> ('w, 'o, 'g, 'r) trainer \<Rightarrow> nat \<Rightarrow> 'g \<Rightarrow> real \<Rightarrow> real outcome" where
  "eval_loop T t 0 g acc = Ret acc"
| "eval_loop T t (Suc n) g acc =
     (case next_batch T (micro_batch (t_cfg t)) (val_data t) g of
        (Raise e, _) \<Rightarrow> Raise e
      | (Ret tokens, g) \<Rightarrow> eval_loop T t n g (acc + model_loss T (t_model t) tokens))"

definition evaluate :: "('w, 'o, 'g, 'r, 'd, 'p) torch \<Rightarrow> ('w, 'o, 'g, 'r) trainer \<Rightarrow> real outcome" where
  "evaluate T t =
     (let n = eval_batches (t_cfg t) in
      case eval_loop T t n (generator_seed T 0) 0 of
        Raise e \<Rightarrow> Raise e
      | Ret acc \<Rightarrow> if n = 0 then Raise ZeroDivisionError else Ret (acc / real n))"

section \<open>Checkpoints\<close>

text \<open>\<^verbatim>\<open>to_dict\<close> stores the fields of the configuration; \<^verbatim>\<open>resume\<close> reads the same fields back.\<close>

record ('w, 'o, 'g, 'r) checkpoint =
  ck_step :: nat
  ck_tokens_seen :: nat
  ck_best_val :: "real option"
  ck_model :: 'w
  ck_optimizer :: 'o
  ck_data_generator :: 'g
  ck_torch_rng :: 'r
  ck_cuda_rng :: "'r option"
  ck_config :: train_config

definition state_dict :: "('w, 'o, 'g, 'r, 'd, 'p) torch \<Rightarrow> ('w, 'o, 'g, 'r) trainer \<Rightarrow> ('w, 'o, 'g, 'r) checkpoint" where
  "state_dict T t =
     \<lparr>ck_step = t_step t, ck_tokens_seen = tokens_seen t, ck_best_val = best_val t, ck_model = t_model t,
      ck_optimizer = t_opt t, ck_data_generator = data_gen t, ck_torch_rng = torch_rng t,
      ck_cuda_rng = (if cuda_available T then cuda_rng t else None), ck_config = t_cfg t\<rparr>"

definition load_state_dict ::
  "('w, 'o, 'g, 'r, 'd, 'p) torch \<Rightarrow> ('w, 'o, 'g, 'r) checkpoint \<Rightarrow> ('w, 'o, 'g, 'r) trainer \<Rightarrow> ('w, 'o, 'g, 'r) trainer" where
  "load_state_dict T ck t =
     (let t = t\<lparr>t_step := ck_step ck, tokens_seen := ck_tokens_seen ck, best_val := ck_best_val ck, t_model := ck_model ck,
                t_opt := ck_optimizer ck, data_gen := ck_data_generator ck, torch_rng := ck_torch_rng ck\<rparr>
      in if ck_cuda_rng ck \<noteq> None \<and> cuda_available T then t\<lparr>cuda_rng := ck_cuda_rng ck\<rparr> else t)"

definition resume ::
  "('w, 'o, 'g, 'r, 'd, 'p) torch \<Rightarrow> ('w, 'o, 'g, 'r) checkpoint \<Rightarrow> train_config option \<Rightarrow> ('w, 'o, 'g, 'r) trainer outcome" where
  "resume T ck cfg =
     (case new_trainer T (case cfg of None \<Rightarrow> ck_config ck | Some c \<Rightarrow> c) of
        Raise e \<Rightarrow> Raise e
      | Ret t \<Rightarrow> Ret (load_state_dict T ck t))"

datatype log_line =
    Train_Line nat real real real nat
  | Eval_Line nat real

record 'c disk =
  files :: "(str \<times> 'c) list"
  log_jsonl :: "log_line list"

definition STEP :: str where "STEP = [115, 116, 101, 112, 95]"
definition PT :: str where "PT = [46, 112, 116]"
definition TMP :: str where "TMP = [46, 116, 109, 112]"
definition BEST :: str where "BEST = [98, 101, 115, 116] @ PT"

text \<open>\<^verbatim>\<open>f"step_{n:06d}.pt"\<close>, and the files \<^verbatim>\<open>glob("step_*.pt")\<close> lists.\<close>

definition step_name :: "nat \<Rightarrow> str" where
  "step_name n = (let ds = nat_str n in STEP @ replicate (6 - length ds) 48 @ ds @ PT)"

definition is_step_file :: "str \<Rightarrow> bool" where
  "is_step_file p \<longleftrightarrow> length STEP + length PT \<le> length p \<and> take (length STEP) p = STEP \<and> drop (length p - length PT) p = PT"

definition step_files :: "'c disk \<Rightarrow> str list" where
  "step_files d = filter is_step_file (map fst (files d))"

text \<open>The part of a name before its suffix \<^verbatim>\<open>.pt\<close>, and \<^verbatim>\<open>int(p.stem.split("_")[1])\<close>.\<close>

definition stem :: "str \<Rightarrow> str" where
  "stem p = take (length p - length PT) p"

definition step_number :: "str \<Rightarrow> int option" where
  "step_number p = int_literal (split_on [95] [] (stem p) ! 1)"

text \<open>\<^verbatim>\<open>torch.save(..., tmp)\<close>, then \<^verbatim>\<open>tmp.replace(path)\<close>.\<close>

definition write_tmp :: "str \<Rightarrow> 'c \<Rightarrow> 'c disk \<Rightarrow> 'c disk" where
  "write_tmp name ck d = d\<lparr>files := AList.update (stem name @ TMP) ck (files d)\<rparr>"

definition replace_file :: "str \<Rightarrow> 'c disk \<Rightarrow> 'c disk" where
  "replace_file name d =
     (case map_of (files d) (stem name @ TMP) of
        None \<Rightarrow> d
      | Some ck \<Rightarrow> d\<lparr>files := AList.update name ck (AList.delete (stem name @ TMP) (files d))\<rparr>)"

definition save :: "('w, 'o, 'g, 'r, 'd, 'p) torch \<Rightarrow> str \<Rightarrow> ('w, 'o, 'g, 'r) trainer \<Rightarrow> ('w, 'o, 'g, 'r) checkpoint disk \<Rightarrow> ('w, 'o, 'g, 'r) checkpoint disk" where
  "save T name t d = replace_file name (write_tmp name (state_dict T t) d)"

definition named_ok :: "'c disk \<Rightarrow> bool" where
  "named_ok d \<longleftrightarrow> (\<forall>p \<in> set (step_files d). step_number p \<noteq> None)"

definition prune_checkpoints :: "nat \<Rightarrow> 'c disk \<Rightarrow> unit outcome \<times> 'c disk" where
  "prune_checkpoints keep d =
     (if \<not> named_ok d then (Raise (ValueError ''invalid literal for int()''), d)
      else let ckpts = sort_key (\<lambda>p. the (step_number p)) (step_files d);
               old = (if keep = 0 then [] else take (length ckpts - keep) ckpts)
           in (Ret (), d\<lparr>files := filter (\<lambda>(p, _). p \<notin> set old) (files d)\<rparr>))"

definition latest_checkpoint :: "'c disk \<Rightarrow> str option outcome" where
  "latest_checkpoint d =
     (case step_files d of
        [] \<Rightarrow> Ret None
      | p # ps \<Rightarrow>
          if \<not> named_ok d then Raise (ValueError ''invalid literal for int()'')
          else Ret (Some (foldl (\<lambda>a q. if the (step_number a) < the (step_number q) then q else a) p ps)))"

section \<open>The loop\<close>

definition improves :: "real \<Rightarrow> real option \<Rightarrow> bool" where
  "improves val best \<longleftrightarrow> (case best of None \<Rightarrow> True | Some b \<Rightarrow> val < b)"

text \<open>An evaluation that beats the best one is recorded and saved.\<close>

definition keep_best ::
  "('w, 'o, 'g, 'r, 'd, 'p) torch \<Rightarrow> real \<Rightarrow> ('w, 'o, 'g, 'r) trainer \<times> ('w, 'o, 'g, 'r) checkpoint disk \<Rightarrow>
   ('w, 'o, 'g, 'r) trainer \<times> ('w, 'o, 'g, 'r) checkpoint disk" where
  "keep_best T val s =
     (case s of (t, d) \<Rightarrow>
        if improves val (best_val t) then let t = t\<lparr>best_val := Some val\<rparr> in (t, save T BEST t d) else (t, d))"

definition log_turn ::
  "('w, 'o, 'g, 'r, 'd, 'p) torch \<Rightarrow> real \<times> real \<Rightarrow> ('w, 'o, 'g, 'r) trainer \<times> 'c disk \<Rightarrow> unit outcome \<times> (('w, 'o, 'g, 'r) trainer \<times> 'c disk)" where
  "log_turn T lg s =
     (case s of (t, d) \<Rightarrow>
        let n = log_every (t_cfg t) in
        if n = 0 then (Raise ZeroDivisionError, s)
        else if t_step t mod n = 0
        then (Ret (), (t, d\<lparr>log_jsonl := log_jsonl d @ [Train_Line (t_step t) (py_round 5 (fst lg)) (group_lr T (t_opt t)) (py_round 4 (snd lg)) (tokens_seen t)]\<rparr>))
        else (Ret (), s))"

definition eval_turn ::
  "('w, 'o, 'g, 'r, 'd, 'p) torch \<Rightarrow> ('w, 'o, 'g, 'r) trainer \<times> ('w, 'o, 'g, 'r) checkpoint disk \<Rightarrow>
   unit outcome \<times> (('w, 'o, 'g, 'r) trainer \<times> ('w, 'o, 'g, 'r) checkpoint disk)" where
  "eval_turn T s =
     (let t = fst s; n = eval_every (t_cfg t) in
      if n = 0 then (Raise ZeroDivisionError, s)
      else if t_step t mod n = 0
      then (case evaluate T t of
              Raise e \<Rightarrow> (Raise e, s)
            | Ret val \<Rightarrow> let (t', d) = keep_best T val s
                         in (Ret (), (t', d\<lparr>log_jsonl := log_jsonl d @ [Eval_Line (t_step t) (py_round 5 val)]\<rparr>)))
      else (Ret (), s))"

definition ckpt_turn ::
  "('w, 'o, 'g, 'r, 'd, 'p) torch \<Rightarrow> ('w, 'o, 'g, 'r) trainer \<times> ('w, 'o, 'g, 'r) checkpoint disk \<Rightarrow>
   unit outcome \<times> (('w, 'o, 'g, 'r) trainer \<times> ('w, 'o, 'g, 'r) checkpoint disk)" where
  "ckpt_turn T s =
     (case s of (t, d) \<Rightarrow>
        let n = ckpt_every (t_cfg t) in
        if n = 0 then (Raise ZeroDivisionError, s)
        else if t_step t mod n = 0
        then (case prune_checkpoints (keep_last (t_cfg t)) (save T (step_name (t_step t)) t d) of (r, d) \<Rightarrow> (r, (t, d)))
        else (Ret (), s))"

definition fit_turn ::
  "('w, 'o, 'g, 'r, 'd, 'p) torch \<Rightarrow> ('w, 'o, 'g, 'r) trainer \<times> ('w, 'o, 'g, 'r) checkpoint disk \<Rightarrow>
   unit outcome \<times> (('w, 'o, 'g, 'r) trainer \<times> ('w, 'o, 'g, 'r) checkpoint disk)" where
  "fit_turn T s =
     (case s of (t, d) \<Rightarrow>
        (case train_step T t of
           (Raise e, t) \<Rightarrow> (Raise e, (t, d))
         | (Ret lg, t) \<Rightarrow> bindS (log_turn T lg (t, d)) (\<lambda>_ s. bindS (eval_turn T s) (\<lambda>_ s. ckpt_turn T s))))"

text \<open>A step of the optimizer advances the counter by one and leaves the configuration alone.\<close>

lemma micro_loop:
  assumes "for_each (micro_step T) ns (t, a, g) = (r, (t', a', g'))"
  shows "\<exists>x. t' = t\<lparr>data_gen := x\<rparr>"
proof -
  let ?I = "\<lambda>s. \<exists>x. fst s = t\<lparr>data_gen := x\<rparr>"
  have "?I (t', a', g')"
  proof (rule for_each_invariant [of ns ?I "micro_step T" "(t, a, g)" r])
    show "?I (t, a, g)" by (intro exI [of _ "data_gen t"]) simp
    show "\<And>n s r s'. n \<in> set ns \<Longrightarrow> ?I s \<Longrightarrow> micro_step T n s = (r, s') \<Longrightarrow> ?I s'"
      by (auto simp: micro_step_def Let_def split: prod.splits outcome.splits)
  qed fact
  then show ?thesis by simp
qed

lemma train_step_frame:
  assumes "train_step T t = (r, t')"
  shows "\<exists>w opt g s n. t' = t\<lparr>t_model := w, t_opt := opt, data_gen := g, t_step := s, tokens_seen := n\<rparr> \<and>
           (is_ret r \<longrightarrow> s = t_step t + 1 \<and> n = tokens_seen t + tokens_per_step (t_cfg t))"
proof -
  define u where "u = t\<lparr>t_opt := set_lr T (cosine_lr (t_step t) (t_cfg t)) (t_opt t)\<rparr>"
  obtain q t1 a g where f: "for_each (micro_step T) [0..<grad_accum (t_cfg t)] (u, 0, no_grad T) = (q, (t1, a, g))" by (metis prod_cases4)
  obtain x where t1: "t1 = u\<lparr>data_gen := x\<rparr>" using micro_loop [OF f] by auto
  show ?thesis
  proof (cases q)
    case (Raise e)
    then have r: "r = Raise e" "t' = t1" using assms f by (simp_all add: train_step_def Let_def u_def)
    then have "t' = t\<lparr>t_model := t_model t, t_opt := t_opt u, data_gen := x, t_step := t_step t, tokens_seen := tokens_seen t\<rparr>"
      using t1 by (cases t) (simp add: u_def)
    then show ?thesis using r(1) by (metis is_ret.simps(2))
  next
    case (Ret y)
    obtain n' g' where c: "clip_grad_norm T (grad_clip (t_cfg t)) g = (n', g')" by force
    obtain w opt where o: "opt_step T (t_opt t1) g' (t_model t1) = (w, opt)" by force
    have "r = Ret (a, n')" "t' = t1\<lparr>t_model := w, t_opt := opt, t_step := t_step t1 + 1, tokens_seen := tokens_seen t1 + tokens_per_step (t_cfg t)\<rparr>"
      using assms f Ret c o by (simp_all add: train_step_def Let_def u_def)
    then show ?thesis using t1 by (cases t) (auto simp: u_def)
  qed
qed

lemma eval_turn_frame: "eval_turn T (t, d) = (r, (t', d')) \<Longrightarrow> \<exists>b. t' = t\<lparr>best_val := b\<rparr>"
  by (cases t) (auto simp: eval_turn_def keep_best_def Let_def split: outcome.splits if_splits)

lemma fit_turn_frame:
  assumes "fit_turn T (t, d) = (Ret x, (t', d'))"
  shows "t_step t' = t_step t + 1 \<and> t_cfg t' = t_cfg t \<and> train_data t' = train_data t \<and> val_data t' = val_data t \<and> cuda_rng t' = cuda_rng t"
proof -
  obtain r u where u: "train_step T t = (r, u)" by force
  then obtain lg where r: "r = Ret lg" using assms by (cases r) (auto simp: fit_turn_def)
  obtain w opt g n where ue: "u = t\<lparr>t_model := w, t_opt := opt, data_gen := g, t_step := t_step t + 1, tokens_seen := n\<rparr>"
    using train_step_frame [OF u] r by auto
  obtain y v e where v: "log_turn T lg (u, d) = (Ret y, (u, v))" "bindS (eval_turn T (u, v)) (\<lambda>_ s. ckpt_turn T s) = (Ret x, (t', d'))"
    using assms u r by (auto simp: fit_turn_def bindS_eq_Ret log_turn_def Let_def split: if_splits)
  then obtain z u' v' where ev: "eval_turn T (u, v) = (Ret z, (u', v'))" "ckpt_turn T (u', v') = (Ret x, (t', d'))"
    by (auto simp: bindS_eq_Ret)
  moreover obtain b where "u' = u\<lparr>best_val := b\<rparr>" using eval_turn_frame [OF ev(1)] by auto
  ultimately have "t' = u\<lparr>best_val := b\<rparr>" by (auto simp: ckpt_turn_def Let_def split: prod.splits if_splits)
  then show ?thesis using ue by simp
qed

lemma bindS_cong [fundef_cong]:
  "r = r' \<Longrightarrow> (\<And>a s. r' = (Ret a, s) \<Longrightarrow> f a s = g a s) \<Longrightarrow> bindS r f = bindS r' g"
  by (auto simp: bindS_def split: prod.splits outcome.splits)

function fit_loop ::
  "('w, 'o, 'g, 'r, 'd, 'p) torch \<Rightarrow> ('w, 'o, 'g, 'r) trainer \<times> ('w, 'o, 'g, 'r) checkpoint disk \<Rightarrow>
   unit outcome \<times> (('w, 'o, 'g, 'r) trainer \<times> ('w, 'o, 'g, 'r) checkpoint disk)" where
  "fit_loop T (t, d) =
     (if t_step t < max_steps (t_cfg t) then bindS (fit_turn T (t, d)) (\<lambda>_ s. fit_loop T s) else (Ret (), (t, d)))"
  by pat_completeness auto

termination
  by (relation "measure (\<lambda>(T, t, d). max_steps (t_cfg t) - t_step t)") (auto dest: fit_turn_frame)

declare fit_loop.simps [simp del]

definition fit ::
  "('w, 'o, 'g, 'r, 'd, 'p) torch \<Rightarrow> ('w, 'o, 'g, 'r) trainer \<times> ('w, 'o, 'g, 'r) checkpoint disk \<Rightarrow>
   unit outcome \<times> (('w, 'o, 'g, 'r) trainer \<times> ('w, 'o, 'g, 'r) checkpoint disk)" where
  "fit T s =
     bindS (fit_loop T s)
       (\<lambda>_ (t, d). let d = save T (step_name (t_step t)) t d in
          case evaluate T t of Raise e \<Rightarrow> (Raise e, (t, d)) | Ret val \<Rightarrow> (Ret (), keep_best T val (t, d)))"

section \<open>The learning rate\<close>

lemma cosine_lr_range:
  assumes "0 \<le> min_lr c" and "min_lr c \<le> tc_lr c"
  shows "0 \<le> cosine_lr s c \<and> cosine_lr s c \<le> tc_lr c \<and> (warmup_steps c \<le> s \<longrightarrow> min_lr c \<le> cosine_lr s c)"
proof -
  have "0 \<le> 0.5 * (tc_lr c - min_lr c) * (1 + cos x) \<and> 0.5 * (tc_lr c - min_lr c) * (1 + cos x) \<le> tc_lr c - min_lr c" for x
  proof -
    have "0 \<le> 1 + cos x" "(1 + cos x) / 2 \<le> 1" using cos_ge_minus_one [of x] cos_le_one [of x] by (linarith, simp)
    then show ?thesis using assms mult_left_mono [of "(1 + cos x) / 2" 1 "tc_lr c - min_lr c"] by (auto simp: mult.assoc)
  qed
  note cos = this
  show ?thesis
  proof (cases "s < warmup_steps c")
    case True
    then have "(real s + 1) / real (warmup_steps c) \<le> 1" by simp
    then have "tc_lr c * ((real s + 1) / real (warmup_steps c)) \<le> tc_lr c" using assms by (intro mult_left_le) auto
    then show ?thesis using True assms by (simp add: cosine_lr_def)
  next
    case False
    define x where "x = pi * ((real s - real (warmup_steps c)) / max 1 (real (max_steps c) - real (warmup_steps c)))"
    have "cosine_lr s c = (if s \<ge> max_steps c then min_lr c else min_lr c + 0.5 * (tc_lr c - min_lr c) * (1 + cos x))"
      using False by (simp add: cosine_lr_def Let_def x_def)
    then show ?thesis using cos [of x] False assms by (auto split: if_splits)
  qed
qed

section \<open>The directory\<close>

lemma split_clean: "\<forall>c \<in> set s. c \<noteq> 95 \<Longrightarrow> split_on [95] acc s = [acc @ s]"
  by (induction s arbitrary: acc) auto

lemma step_name_file [simp]: "is_step_file (step_name n)"
  by (simp add: is_step_file_def step_name_def STEP_def PT_def Let_def)

lemma step_number_name [simp]: "step_number (step_name n) = Some (int n)"
proof -
  let ?ds = "replicate (6 - length (nat_str n)) 48 @ nat_str n"
  have digits: "?ds \<noteq> []" "\<forall>c \<in> set ?ds. 48 \<le> c \<and> c < 58" using nat_str_digits [of n] by auto
  have zeros: "foldl (\<lambda>a c. a * 10 + (int c - 48)) 0 (replicate k 48) = 0" for k by (induction k) auto
  have "stem (step_name n) = STEP @ ?ds" by (simp add: stem_def step_name_def Let_def PT_def)
  moreover have "split_on [95] [] (STEP @ ?ds) = [[115, 116, 101, 112], ?ds]"
  proof -
    have "split_on [95] [] ?ds = [?ds]" using digits(2) by (subst split_clean) fastforce+
    then show ?thesis by (simp add: STEP_def)
  qed
  moreover have "int_literal ?ds = Some (int n)"
    using int_literal_digits [OF digits] foldl_nat_str [of n] zeros by simp
  ultimately show ?thesis by (simp add: step_number_def)
qed

lemma step_name_inject [simp]: "step_name m = step_name n \<longleftrightarrow> m = n"
  by (metis of_nat_eq_iff option.inject step_number_name)

lemma tmp_not_step [simp]: "\<not> is_step_file (p @ TMP)"
  by (simp add: is_step_file_def TMP_def PT_def)

lemma best_not_step [simp]: "\<not> is_step_file BEST"
  by (simp add: is_step_file_def BEST_def STEP_def PT_def)

lemma BEST_not_tmp [simp]: "BEST \<noteq> p @ TMP"
proof
  assume "BEST = p @ TMP"
  then have "last BEST = last (p @ TMP)" by simp
  then show False by (simp add: BEST_def PT_def TMP_def)
qed

lemma step_name_not_tmp: "is_step_file p \<Longrightarrow> p \<noteq> q @ TMP"
  using tmp_not_step by blast

text \<open>A save shows either nothing or the whole new file: after the first half of it no file but the temporary one has changed.\<close>

lemma save_is_atomic:
  assumes "is_step_file name \<or> name = BEST"
  shows "q \<noteq> stem name @ TMP \<Longrightarrow> map_of (files (write_tmp name ck d)) q = map_of (files d) q"
    and "map_of (files (save T name t d)) =
           (map_of (files d))(stem name @ TMP := None, name \<mapsto> state_dict T t)"
proof -
  show "q \<noteq> stem name @ TMP \<Longrightarrow> map_of (files (write_tmp name ck d)) q = map_of (files d) q"
    by (simp add: write_tmp_def update_conv')
  show "map_of (files (save T name t d)) = (map_of (files d))(stem name @ TMP := None, name \<mapsto> state_dict T t)"
    by (simp add: save_def replace_file_def write_tmp_def update_conv' delete_conv')
qed

lemma save_files:
  "files (save T name t d) =
     AList.update name (state_dict T t) (AList.delete (stem name @ TMP) (AList.update (stem name @ TMP) (state_dict T t) (files d)))"
  by (simp add: save_def replace_file_def write_tmp_def update_conv')

lemma save_distinct: "distinct (map fst (files d)) \<Longrightarrow> distinct (map fst (files (save T name t d)))"
  unfolding save_files by (intro distinct_update distinct_delete)

lemma update_key_set: "set (map fst (AList.update k v al)) = insert k (set (map fst al))"
  by (simp only: update_keys) auto

lemma delete_key_set: "set (map fst (AList.delete k al)) = set (map fst al) - {k}"
  by (simp only: delete_keys set_removeAll)

lemma save_step_files:
  "set (step_files (save T name t d)) = set (step_files d) \<union> (if is_step_file name then {name} else {})"
proof -
  have "set (map fst (files (save T name t d))) = insert name (set (map fst (files d)) - {stem name @ TMP})"
    unfolding save_files update_key_set delete_key_set by auto
  then show ?thesis unfolding step_files_def set_filter by auto
qed

lemma max_is_last:
  assumes "sorted (map f xs)" and "distinct xs" and "p \<in> set xs" and "\<And>q. q \<in> set xs \<Longrightarrow> q \<noteq> p \<Longrightarrow> (f q :: int) < f p"
  shows "p = last xs"
proof -
  have ne: "xs \<noteq> []" using assms(3) by auto
  then have "f p \<le> f (last xs)" using assms(1,3) by (auto simp: in_set_conv_nth last_conv_nth sorted_iff_nth_mono)
  then show ?thesis using assms(4) [of "last xs"] ne by force
qed

lemma map_of_kept: "q \<notin> A \<Longrightarrow> map_of (filter (\<lambda>(p, _). p \<notin> A) al) q = map_of al q"
  by (induction al) auto

lemma prune_effect:
  assumes ok: "named_ok d"
  defines "xs \<equiv> sort_key (\<lambda>p. the (step_number p)) (step_files d)"
  obtains old where "prune_checkpoints keep d = (Ret (), d\<lparr>files := filter (\<lambda>(p, _). p \<notin> set old) (files d)\<rparr>)"
    and "old = (if keep = 0 then [] else take (length xs - keep) xs)" and "set old \<subseteq> set (step_files d)"
proof -
  define old where "old = (if keep = 0 then [] else take (length xs - keep) xs)"
  have "prune_checkpoints keep d = (Ret (), d\<lparr>files := filter (\<lambda>(p, _). p \<notin> set old) (files d)\<rparr>)"
    using ok by (auto simp: prune_checkpoints_def Let_def xs_def old_def)
  moreover have "set old \<subseteq> set (step_files d)" using set_take_subset [of "length xs - keep" xs] by (auto simp: old_def xs_def)
  ultimately show ?thesis using that old_def by blast
qed

lemma step_files_kept: "step_files (d\<lparr>files := filter (\<lambda>(p, _). p \<notin> A) (files d)\<rparr>) = filter (\<lambda>p. p \<notin> A) (step_files d)"
proof -
  have "map fst (filter (\<lambda>(p, _). p \<notin> A) al) = filter (\<lambda>p. p \<notin> A) (map fst al)" for al :: "(str \<times> 'a) list"
    by (induction al) auto
  then show ?thesis by (simp add: step_files_def conj_commute)
qed

lemma prune_returns:
  assumes "named_ok d"
  obtains d' where "prune_checkpoints keep d = (Ret (), d')" and "set (step_files d') \<subseteq> set (step_files d)" and
    "distinct (map fst (files d)) \<Longrightarrow> distinct (map fst (files d'))" and "map_of (files d') BEST = map_of (files d) BEST"
proof -
  obtain old where old: "prune_checkpoints keep d = (Ret (), d\<lparr>files := filter (\<lambda>(p, _). p \<notin> set old) (files d)\<rparr>)"
    "set old \<subseteq> set (step_files d)"
    using prune_effect [OF assms] by metis
  have "BEST \<notin> set old" using old(2) by (auto simp: step_files_def)
  then show ?thesis
    by (intro that [OF old(1)]) (auto simp: step_files_kept map_of_kept distinct_map_filter)
qed

lemma prune_keeps_newest:
  assumes ok: "named_ok d" and dist: "distinct (map fst (files d))" and p: "p \<in> set (step_files d)"
    and new: "\<And>q. q \<in> set (step_files d) \<Longrightarrow> q \<noteq> p \<Longrightarrow> the (step_number q) < the (step_number p)"
    and r: "prune_checkpoints keep d = (r, d')"
  shows "p \<in> set (step_files d') \<and> map_of (files d') p = map_of (files d) p"
proof -
  define xs where "xs = sort_key (\<lambda>p. the (step_number p)) (step_files d)"
  obtain old where old: "d' = d\<lparr>files := filter (\<lambda>(p, _). p \<notin> set old) (files d)\<rparr>"
    "old = (if keep = 0 then [] else take (length xs - keep) xs)"
    using prune_effect [OF ok, of keep] r unfolding xs_def by force
  have xs: "distinct xs" "set xs = set (step_files d)" using dist by (simp_all add: xs_def step_files_def)
  have "p = last xs" using max_is_last [of "\<lambda>p. the (step_number p)" xs p] xs p new by (simp add: xs_def)
  have "p \<notin> set old"
  proof (cases "keep = 0")
    case False
    have "xs \<noteq> []" using xs p by auto
    then have "butlast xs @ [p] = xs" using \<open>p = last xs\<close> by simp
    then have "distinct (butlast xs @ [p])" using xs(1) by simp
    then have "p \<notin> set (butlast xs)" by simp
    moreover have "set (take (length xs - keep) xs) \<subseteq> set (butlast xs)"
      using False set_take_subset_set_take [of "length xs - keep" "length xs - 1" xs] by (simp add: butlast_conv_take)
    ultimately show ?thesis using False by (auto simp: old)
  qed (simp add: old)
  then show ?thesis using p by (simp add: old(1) step_files_kept map_of_kept)
qed

lemma latest_is_newest:
  assumes ok: "named_ok d" and p: "p \<in> set (step_files d)"
    and new: "\<And>q. q \<in> set (step_files d) \<Longrightarrow> q \<noteq> p \<Longrightarrow> the (step_number q) < the (step_number p)"
  shows "latest_checkpoint d = Ret (Some p)"
proof -
  let ?f = "\<lambda>p. the (step_number p)" and ?pick = "\<lambda>a q. if the (step_number a) < the (step_number q) then q else a"
  have pick: "foldl ?pick a qs \<in> insert a (set qs) \<and> (\<forall>q \<in> insert a (set qs). ?f q \<le> ?f (foldl ?pick a qs))" for a qs
  proof (induction qs arbitrary: a)
    case (Cons q qs)
    show ?case using Cons.IH [of "?pick a q"] by (auto split: if_splits)
  qed simp
  obtain a qs where qs: "step_files d = a # qs" using p by (cases "step_files d") auto
  have "foldl ?pick a qs \<in> set (step_files d)" "?f p \<le> ?f (foldl ?pick a qs)" using pick [of a qs] p unfolding qs by auto
  then have "foldl ?pick a qs = p" using new [of "foldl ?pick a qs"] by linarith
  then show ?thesis using ok qs by (simp add: latest_checkpoint_def)
qed

section \<open>What an iteration does to the trainer\<close>

text \<open>The trainer after an iteration, and the checkpoint written to \<^verbatim>\<open>best.pt\<close>, if any: neither depends on the directory.\<close>

definition core_eval ::
  "('w, 'o, 'g, 'r, 'd, 'p) torch \<Rightarrow> ('w, 'o, 'g, 'r) trainer \<Rightarrow> (('w, 'o, 'g, 'r) trainer \<times> ('w, 'o, 'g, 'r) checkpoint option) option" where
  "core_eval T t =
     (if eval_every (t_cfg t) = 0 then None
      else if t_step t mod eval_every (t_cfg t) = 0
      then (case evaluate T t of
              Raise e \<Rightarrow> None
            | Ret val \<Rightarrow> if improves val (best_val t)
                         then Some (t\<lparr>best_val := Some val\<rparr>, Some (state_dict T (t\<lparr>best_val := Some val\<rparr>)))
                         else Some (t, None))
      else Some (t, None))"

definition core_turn ::
  "('w, 'o, 'g, 'r, 'd, 'p) torch \<Rightarrow> ('w, 'o, 'g, 'r) trainer \<Rightarrow> (('w, 'o, 'g, 'r) trainer \<times> ('w, 'o, 'g, 'r) checkpoint option) option" where
  "core_turn T t =
     (case train_step T t of
        (Raise e, _) \<Rightarrow> None
      | (Ret lg, t) \<Rightarrow> if log_every (t_cfg t) = 0 \<or> ckpt_every (t_cfg t) = 0 then None else core_eval T t)"

lemma save_log [simp]: "save T name t (d\<lparr>log_jsonl := l\<rparr>) = (save T name t d)\<lparr>log_jsonl := l\<rparr>"
  by (auto simp: save_def replace_file_def write_tmp_def split: option.splits)

lemma step_files_log [simp]: "step_files (d\<lparr>log_jsonl := l\<rparr>) = step_files d" and named_ok_log [simp]: "named_ok (d\<lparr>log_jsonl := l\<rparr>) = named_ok d"
  by (simp_all add: step_files_def named_ok_def)

lemma log_turn_disk: "log_every (t_cfg t) \<noteq> 0 \<Longrightarrow> \<exists>l. log_turn T lg (t, d) = (Ret (), (t, d\<lparr>log_jsonl := l\<rparr>))"
  by (cases d) (auto simp: log_turn_def Let_def)

lemma eval_turn_disk:
  assumes "core_eval T t = Some (t', b)"
  shows "\<exists>l. eval_turn T (t, d) = (Ret (), (t', (case b of None \<Rightarrow> d | Some _ \<Rightarrow> save T BEST t' d)\<lparr>log_jsonl := l\<rparr>))"
proof (cases "t_step t mod eval_every (t_cfg t) = 0")
  case True
  then obtain val where "evaluate T t = Ret val" using assms by (auto simp: core_eval_def split: outcome.splits if_splits)
  then show ?thesis using assms True by (auto simp: core_eval_def eval_turn_def keep_best_def Let_def split: if_splits)
next
  case False
  then show ?thesis using assms by (cases d) (auto simp: core_eval_def eval_turn_def Let_def split: if_splits)
qed

lemma eval_turn_core:
  assumes "eval_turn T (t, d) = (Ret x, (t', d'))"
  shows "\<exists>b. core_eval T t = Some (t', b)"
proof (cases "core_eval T t")
  case None
  then show ?thesis using assms by (auto simp: core_eval_def eval_turn_def Let_def split: outcome.splits if_splits)
next
  case (Some c)
  then show ?thesis using assms eval_turn_disk [of T t "fst c" "snd c" d] by (cases c) auto
qed

lemma core_eval_cfg: "core_eval T t = Some (t', b) \<Longrightarrow> t_cfg t' = t_cfg t \<and> t_step t' = t_step t \<and> (\<forall>c. b = Some c \<longrightarrow> c = state_dict T t')"
  by (auto simp: core_eval_def split: outcome.splits if_splits)

lemma core_turn_disk:
  assumes "core_turn T t = Some (t', b)"
  shows "\<exists>l. fit_turn T (t, d) =
    (let d = (case b of None \<Rightarrow> d | Some _ \<Rightarrow> save T BEST t' d)\<lparr>log_jsonl := l\<rparr> in
     if t_step t' mod ckpt_every (t_cfg t') = 0
     then (case prune_checkpoints (keep_last (t_cfg t')) (save T (step_name (t_step t')) t' d) of (r, d) \<Rightarrow> (r, (t', d)))
     else (Ret (), (t', d)))"
proof -
  obtain lg u where u: "train_step T t = (Ret lg, u)" and c: "log_every (t_cfg u) \<noteq> 0" "ckpt_every (t_cfg u) \<noteq> 0" "core_eval T u = Some (t', b)"
    using assms by (auto simp: core_turn_def split: prod.splits outcome.splits if_splits)
  obtain l where l: "log_turn T lg (u, d) = (Ret (), (u, d\<lparr>log_jsonl := l\<rparr>))" using log_turn_disk [OF c(1)] by blast
  obtain l' where "eval_turn T (u, d\<lparr>log_jsonl := l\<rparr>) = (Ret (), (t', (case b of None \<Rightarrow> d | Some _ \<Rightarrow> save T BEST t' d)\<lparr>log_jsonl := l'\<rparr>))"
    using eval_turn_disk [OF c(3), of "d\<lparr>log_jsonl := l\<rparr>"] by (cases b) auto
  then show ?thesis
    using u l c(2) core_eval_cfg [OF c(3)] by (intro exI [of _ l']) (simp add: fit_turn_def ckpt_turn_def Let_def)
qed

lemma fit_turn_core:
  assumes "fit_turn T (t, d) = (Ret x, (t', d'))"
  shows "\<exists>b. core_turn T t = Some (t', b)"
proof -
  obtain lg u where u: "train_step T t = (Ret lg, u)" using assms by (auto simp: fit_turn_def split: prod.splits outcome.splits)
  then have r: "bindS (log_turn T lg (u, d)) (\<lambda>_ s. bindS (eval_turn T s) (\<lambda>_ s. ckpt_turn T s)) = (Ret x, (t', d'))"
    using assms by (simp add: fit_turn_def)
  then have log: "log_every (t_cfg u) \<noteq> 0" by (cases "log_every (t_cfg u) = 0") (simp_all add: log_turn_def)
  then obtain d1 where "log_turn T lg (u, d) = (Ret (), (u, d1))" using log_turn_disk by blast
  then obtain y v d2 where v: "eval_turn T (u, d1) = (Ret y, (v, d2))" "ckpt_turn T (v, d2) = (Ret x, (t', d'))"
    using r by (auto simp: bindS_eq_Ret)
  then obtain b where b: "core_eval T u = Some (v, b)" using eval_turn_core by blast
  have "ckpt_every (t_cfg v) \<noteq> 0" "t' = v" using v(2) by (auto simp: ckpt_turn_def Let_def split: prod.splits if_splits)
  then show ?thesis using u log b core_eval_cfg [OF b] by (simp add: core_turn_def)
qed

definition over :: "'a option \<Rightarrow> 'a option \<Rightarrow> 'a option" where
  "over b x = (case b of None \<Rightarrow> x | Some c \<Rightarrow> Some c)"

lemma over_None [simp]: "over None x = x" and over_Some [simp]: "over (Some c) x = Some c" and
  over_assoc [simp]: "over (over b b') x = over b (over b' x)" and over_same [simp]: "over b (over b x) = over b x"
  by (cases b; simp add: over_def)+

lemma BEST_not_step_name [simp]: "BEST \<noteq> step_name n" "step_name n \<noteq> BEST"
  using best_not_step step_name_file by metis+

lemma save_best: "map_of (files (save T (step_name n) t d)) BEST = map_of (files d) BEST"
  by (simp add: save_is_atomic(2))

lemma save_named: "named_ok d \<Longrightarrow> named_ok (save T (step_name n) t d)" "named_ok d \<Longrightarrow> named_ok (save T BEST t d)"
  by (auto simp: named_ok_def save_step_files)

lemma turn_rerun:
  assumes c: "core_turn T t = Some (t', b)" and ok: "named_ok d"
  shows "\<exists>d'. fit_turn T (t, d) = (Ret (), (t', d')) \<and> named_ok d' \<and> map_of (files d') BEST = over b (map_of (files d) BEST)"
proof -
  obtain l where l: "fit_turn T (t, d) =
    (let d = (case b of None \<Rightarrow> d | Some _ \<Rightarrow> save T BEST t' d)\<lparr>log_jsonl := l\<rparr> in
     if t_step t' mod ckpt_every (t_cfg t') = 0
     then (case prune_checkpoints (keep_last (t_cfg t')) (save T (step_name (t_step t')) t' d) of (r, d) \<Rightarrow> (r, (t', d)))
     else (Ret (), (t', d)))"
    using core_turn_disk [OF c, of d] by blast
  define e where "e = (case b of None \<Rightarrow> d | Some _ \<Rightarrow> save T BEST t' d)\<lparr>log_jsonl := l\<rparr>"
  have b: "b = Some ck \<Longrightarrow> ck = state_dict T t'" for ck
    using c by (auto simp: core_turn_def dest!: core_eval_cfg split: prod.splits outcome.splits if_splits)
  have e: "named_ok e" "map_of (files e) BEST = over b (map_of (files d) BEST)"
    using ok b by (auto simp: e_def save_named save_is_atomic(2) over_def split: option.splits)
  let ?s = "save T (step_name (t_step t')) t' e"
  obtain d' where "prune_checkpoints (keep_last (t_cfg t')) ?s = (Ret (), d')" "set (step_files d') \<subseteq> set (step_files ?s)"
    "map_of (files d') BEST = map_of (files ?s) BEST"
    using prune_returns [OF save_named(1) [OF e(1)]] by metis
  moreover from this have "named_ok d'" using save_named(1) [OF e(1), of T "t_step t'" t'] by (auto simp: named_ok_def)
  ultimately show ?thesis using l e by (auto simp: Let_def e_def [symmetric] save_best)
qed

definition dir_ok :: "'c disk \<Rightarrow> nat \<Rightarrow> bool" where
  "dir_ok d m \<longleftrightarrow> distinct (map fst (files d)) \<and> (\<forall>p \<in> set (step_files d). \<exists>k \<le> m. p = step_name k)"

lemma dir_named: "dir_ok d m \<Longrightarrow> named_ok d"
  by (force simp: dir_ok_def named_ok_def)

lemma dir_save:
  assumes "dir_ok d m" and "m \<le> n"
  shows "dir_ok (save T (step_name n) t d) n" and "dir_ok (save T BEST t d) m"
  using assms by (auto simp: dir_ok_def save_distinct save_step_files intro: order_trans)

lemma dir_newest:
  assumes "dir_ok d m" and "q \<in> set (step_files d)" and "q \<noteq> step_name m"
  shows "the (step_number q) < the (step_number (step_name m))"
  using assms by (auto simp: dir_ok_def le_less)

lemma turn_directory:
  assumes f: "fit_turn T (t, d) = (Ret x, (t', d'))" and ok: "dir_ok d m" and m: "m \<le> t_step t"
  shows "if t_step t' mod ckpt_every (t_cfg t') = 0
    then dir_ok d' (t_step t') \<and> step_name (t_step t') \<in> set (step_files d') \<and> map_of (files d') (step_name (t_step t')) = Some (state_dict T t')
    else dir_ok d' m \<and> set (step_files d') = set (step_files d) \<and> (\<forall>p \<in> set (step_files d). map_of (files d') p = map_of (files d) p)"
proof -
  obtain b where c: "core_turn T t = Some (t', b)" using fit_turn_core [OF f] by blast
  obtain l where l: "fit_turn T (t, d) =
    (let d = (case b of None \<Rightarrow> d | Some _ \<Rightarrow> save T BEST t' d)\<lparr>log_jsonl := l\<rparr> in
     if t_step t' mod ckpt_every (t_cfg t') = 0
     then (case prune_checkpoints (keep_last (t_cfg t')) (save T (step_name (t_step t')) t' d) of (r, d) \<Rightarrow> (r, (t', d)))
     else (Ret (), (t', d)))"
    using core_turn_disk [OF c, of d] by blast
  define e where "e = (case b of None \<Rightarrow> d | Some _ \<Rightarrow> save T BEST t' d)\<lparr>log_jsonl := l\<rparr>"
  have log: "dir_ok (d\<lparr>log_jsonl := l\<rparr>) k = dir_ok d k" for k and d :: "('a, 'b, 'c, 'd) checkpoint disk"
    by (simp add: dir_ok_def)
  have e: "dir_ok e m" using ok dir_save(2) [OF ok m] by (auto simp: e_def log split: option.splits)
  have same: "set (step_files e) = set (step_files d)" by (auto simp: e_def save_step_files split: option.splits)
  have keep: "map_of (files e) p = map_of (files d) p" if "is_step_file p" for p
    using that step_name_not_tmp [OF that, of "stem BEST"] by (auto simp: e_def save_is_atomic(2) split: option.splits)
  define n where "n = t_step t'"
  have n: "m \<le> n" using m fit_turn_frame [OF f] by (simp add: n_def)
  let ?s = "save T (step_name n) t' e"
  have s: "dir_ok ?s n" by (rule dir_save(1) [OF e n])
  have in_s: "step_name n \<in> set (step_files ?s)" by (simp add: save_step_files)
  have dist: "distinct (map fst (files ?s))" using s by (simp add: dir_ok_def)
  show ?thesis
  proof (cases "n mod ckpt_every (t_cfg t') = 0")
    case True
    then have p: "prune_checkpoints (keep_last (t_cfg t')) ?s = (Ret x, d')"
      using l f by (auto simp: Let_def e_def [symmetric] n_def split: prod.splits)
    have "step_name n \<in> set (step_files d') \<and> map_of (files d') (step_name n) = map_of (files ?s) (step_name n)"
      by (rule prune_keeps_newest [OF dir_named [OF s] dist in_s dir_newest [OF s] p])
    moreover have "set (step_files d') \<subseteq> set (step_files ?s)" "distinct (map fst (files d'))"
      using prune_returns [OF dir_named [OF s], of "keep_last (t_cfg t')"] p dist by (metis prod.inject)+
    then have "dir_ok d' n" using s by (auto simp: dir_ok_def)
    ultimately show ?thesis using True by (simp add: n_def save_is_atomic(2))
  next
    case False
    then have "d' = e" using l f by (auto simp: Let_def e_def [symmetric] n_def)
    then show ?thesis using False e same keep by (auto simp: n_def step_files_def)
  qed
qed

section \<open>Runs\<close>

text \<open>\<open>n\<close> iterations of the loop: a run that is killed after the \<open>n\<close>-th.\<close>

primrec fit_steps ::
  "('w, 'o, 'g, 'r, 'd, 'p) torch \<Rightarrow> nat \<Rightarrow> ('w, 'o, 'g, 'r) trainer \<times> ('w, 'o, 'g, 'r) checkpoint disk \<Rightarrow>
   unit outcome \<times> (('w, 'o, 'g, 'r) trainer \<times> ('w, 'o, 'g, 'r) checkpoint disk)" where
  "fit_steps T 0 s = (Ret (), s)"
| "fit_steps T (Suc n) s = bindS (fit_steps T n s) (\<lambda>_ s. fit_turn T s)"

primrec core_iter ::
  "('w, 'o, 'g, 'r, 'd, 'p) torch \<Rightarrow> nat \<Rightarrow> ('w, 'o, 'g, 'r) trainer \<Rightarrow> (('w, 'o, 'g, 'r) trainer \<times> ('w, 'o, 'g, 'r) checkpoint option) option" where
  "core_iter T 0 t = Some (t, None)"
| "core_iter T (Suc n) t =
     (case core_iter T n t of None \<Rightarrow> None
      | Some (u, b) \<Rightarrow> (case core_turn T u of None \<Rightarrow> None | Some (v, b') \<Rightarrow> Some (v, over b' b)))"

lemma fit_steps_add: "fit_steps T (m + k) s = bindS (fit_steps T m s) (\<lambda>_ s. fit_steps T k s)"
proof (induction k)
  case 0
  show ?case by (cases "fit_steps T m s"; cases "fst (fit_steps T m s)") auto
next
  case (Suc k)
  then show ?case by (cases "fit_steps T m s"; cases "fst (fit_steps T m s)") auto
qed

lemma loop_is_steps: "fit_loop T (t, d) = fit_steps T (max_steps (t_cfg t) - t_step t) (t, d)"
proof (induction T "(t, d)" arbitrary: t d rule: fit_loop.induct)
  case (1 T t d)
  show ?case
  proof (cases "t_step t < max_steps (t_cfg t)")
    case True
    then obtain k where k: "max_steps (t_cfg t) - t_step t = Suc k" by (metis Suc_diff_Suc)
    have "fit_steps T (Suc k) (t, d) = bindS (fit_turn T (t, d)) (\<lambda>_ s. fit_steps T k s)"
      using fit_steps_add [of T 1 k "(t, d)"] by simp
    also have "\<dots> = bindS (fit_turn T (t, d)) (\<lambda>_ s. fit_loop T s)"
    proof (rule bindS_cong [OF refl])
      fix a s assume s: "fit_turn T (t, d) = (Ret a, s)"
      obtain t' d' where [simp]: "s = (t', d')" by force
      have "max_steps (t_cfg t') - t_step t' = k" using fit_turn_frame [of T t d a t' d'] s k by simp
      then show "fit_steps T k s = fit_loop T s" using 1 [OF True, of a t' d'] s by simp
    qed
    finally show ?thesis using True k by (subst fit_loop.simps) simp
  qed (subst fit_loop.simps, simp)
qed

lemma steps_core: "fit_steps T n (t, d) = (Ret x, (t', d')) \<Longrightarrow> \<exists>b. core_iter T n t = Some (t', b)"
proof (induction n arbitrary: x t' d')
  case (Suc n)
  then obtain u e where u: "fit_steps T n (t, d) = (Ret (), (u, e))" "fit_turn T (u, e) = (Ret x, (t', d'))"
    by (auto simp: bindS_eq_Ret)
  then obtain b where "core_iter T n t = Some (u, b)" using Suc.IH by blast
  moreover obtain b' where "core_turn T u = Some (t', b')" using fit_turn_core [OF u(2)] by blast
  ultimately show ?case by simp
qed simp

lemma steps_frame:
  "fit_steps T n (t, d) = (Ret x, (t', d')) \<Longrightarrow>
   t_step t' = t_step t + n \<and> t_cfg t' = t_cfg t \<and> train_data t' = train_data t \<and> val_data t' = val_data t \<and> cuda_rng t' = cuda_rng t"
proof (induction n arbitrary: x t' d')
  case (Suc n)
  then obtain u e where u: "fit_steps T n (t, d) = (Ret (), (u, e))" "fit_turn T (u, e) = (Ret x, (t', d'))"
    by (auto simp: bindS_eq_Ret)
  show ?case using Suc.IH [OF u(1)] fit_turn_frame [OF u(2)] by simp
qed simp

lemma core_rerun:
  "core_iter T n t = Some (t', b) \<Longrightarrow> named_ok d \<Longrightarrow>
   \<exists>d'. fit_steps T n (t, d) = (Ret (), (t', d')) \<and> named_ok d' \<and> map_of (files d') BEST = over b (map_of (files d) BEST)"
proof (induction n arbitrary: t' b)
  case (Suc n)
  then obtain u b1 b2 where u: "core_iter T n t = Some (u, b1)" "core_turn T u = Some (t', b2)" "b = over b2 b1"
    by (auto split: option.splits)
  obtain e where e: "fit_steps T n (t, d) = (Ret (), (u, e))" "named_ok e" "map_of (files e) BEST = over b1 (map_of (files d) BEST)"
    using Suc.IH [OF u(1) Suc.prems(2)] by blast
  then show ?case using turn_rerun [OF u(2) e(2)] u(3) by auto
qed simp

lemma core_iter_add:
  "core_iter T m t = Some (u, b1) \<Longrightarrow> core_iter T k u = Some (v, b2) \<Longrightarrow> core_iter T (m + k) t = Some (v, over b2 b1)"
proof (induction k arbitrary: v b2)
  case (Suc k)
  then obtain w b b' where w: "core_iter T k u = Some (w, b)" "core_turn T w = Some (v, b')" "b2 = over b' b"
    by (auto split: option.splits)
  then show ?case using Suc.IH [OF Suc.prems(1) w(1)] by simp
qed simp

text \<open>The newest checkpoint after \<open>n\<close> iterations is the trainer after the last iteration whose number \<^verbatim>\<open>ckpt_every\<close> divides.\<close>

lemma steps_directory:
  assumes "dir_ok d 0" and "t_step t = 0" and "step_files d = []"
  shows "fit_steps T n (t, d) = (Ret x, (t', d')) \<Longrightarrow> m = n - n mod ckpt_every (t_cfg t) \<Longrightarrow>
    dir_ok d' m \<and> (0 < m \<longrightarrow> (\<exists>u e. fit_steps T m (t, d) = (Ret (), (u, e)) \<and> dir_ok e m \<and> step_name m \<in> set (step_files d') \<and>
      map_of (files d') (step_name m) = Some (state_dict T u)))"
proof (induction n arbitrary: x t' d' m)
  case 0
  then show ?case using assms by simp
next
  case (Suc n)
  let ?k = "ckpt_every (t_cfg t)"
  obtain u e where u: "fit_steps T n (t, d) = (Ret (), (u, e))" "fit_turn T (u, e) = (Ret x, (t', d'))"
    using Suc.prems(1) by (auto simp: bindS_eq_Ret)
  note IH = Suc.IH [OF u(1) refl]
  have le: "n - n mod ?k \<le> t_step u" using steps_frame [OF u(1)] assms by simp
  have step: "t_step t' = Suc n" "t_cfg t' = t_cfg t" using steps_frame [OF Suc.prems(1)] assms by simp_all
  note dir = turn_directory [OF u(2) conjunct1 [OF IH] le]
  show ?case
  proof (cases "Suc n mod ?k = 0")
    case True
    then show ?thesis using dir step Suc.prems by auto
  next
    case False
    then have m: "m = n - n mod ?k" using Suc.prems(2) by (simp add: mod_Suc split: if_splits)
    then show ?thesis using dir step False IH by auto
  qed
qed

lemma new_trainer_cfg: "new_trainer T c = Ret t \<Longrightarrow> t_cfg t = c \<and> t_step t = 0 \<and> (cuda_rng t = None \<longleftrightarrow> \<not> cuda_available T)"
  by (auto simp: new_trainer_def split: prod.splits outcome.splits)

lemma resume_state:
  assumes "new_trainer T c = Ret t0" and "t_cfg u = c" and "train_data u = train_data t0" and "val_data u = val_data t0" and "cuda_rng u = cuda_rng t0"
  shows "resume T (state_dict T u) None = Ret u"
  using assms new_trainer_cfg [OF assms(1)] by (cases u) (auto simp: resume_def state_dict_def load_state_dict_def)

lemma fit_from_core:
  assumes c: "core_iter T (max_steps (t_cfg t) - t_step t) t = Some (u, b)" and ok: "named_ok d" and val: "evaluate T u = Ret val"
  shows "\<exists>d'. fit T (t, d) = (Ret (), (if improves val (best_val u) then u\<lparr>best_val := Some val\<rparr> else u, d')) \<and>
    map_of (files d') BEST = (if improves val (best_val u) then Some (state_dict T (u\<lparr>best_val := Some val\<rparr>)) else over b (map_of (files d) BEST))"
proof -
  obtain e where e: "fit_loop T (t, d) = (Ret (), (u, e))" "map_of (files e) BEST = over b (map_of (files d) BEST)"
    using core_rerun [OF c ok] by (auto simp: loop_is_steps)
  then show ?thesis using val by (auto simp: fit_def keep_best_def Let_def save_best save_is_atomic(2))
qed

lemma fit_core:
  assumes "fit T (t, d) = (Ret x, (t', d'))"
  shows "\<exists>u b val. core_iter T (max_steps (t_cfg t) - t_step t) t = Some (u, b) \<and> evaluate T u = Ret val"
proof -
  obtain u e where u: "fit_loop T (t, d) = (Ret (), (u, e))" using assms by (auto simp: fit_def bindS_eq_Ret)
  then have "\<exists>val. evaluate T u = Ret val" using assms by (auto simp: fit_def Let_def split: outcome.splits)
  then show ?thesis using u steps_core [of T "max_steps (t_cfg t) - t_step t" t d "()" u e] by (auto simp: loop_is_steps)
qed

text \<open>C12: training resumes where it stopped. A run in a directory without step checkpoints is killed after iteration \<open>n\<close>. The newest
  checkpoint of the directory is then that of the last multiple of \<^verbatim>\<open>ckpt_every\<close>, and the trainer \<^verbatim>\<open>resume\<close> builds from it, run in the
  directory as the crash left it, ends as the run that was never killed: the same weights, optimizer and generator states,
  counters and best loss, and the same \<^verbatim>\<open>best.pt\<close>.\<close>

theorem resume_matches_straight_run:
  assumes new: "new_trainer T c = Ret t0" and fresh: "distinct (map fst (files d0))" "step_files d0 = []"
    and run: "fit_steps T n (t0, d0) = (Ret (), (t, d))" and n: "0 < n" "ckpt_every c \<le> n" "n \<le> max_steps c"
    and straight: "fit T (t, d) = (Ret (), (t1, d1))"
  shows "\<exists>name ck tr d2. latest_checkpoint d = Ret (Some name) \<and> map_of (files d) name = Some ck \<and> resume T ck None = Ret tr \<and>
    t_step tr = n - n mod ckpt_every c \<and> fit T (tr, d) = (Ret (), (t1, d2)) \<and> map_of (files d2) BEST = map_of (files d1) BEST"
proof -
  define m where "m = n - n mod ckpt_every c"
  have t0: "t_cfg t0 = c" "t_step t0 = 0" using new_trainer_cfg [OF new] by auto
  have ok0: "dir_ok d0 0" using fresh by (simp add: dir_ok_def)
  have "ckpt_every c \<noteq> 0"
  proof
    assume zero: "ckpt_every c = 0"
    obtain k u e where "n = Suc k" "fit_steps T k (t0, d0) = (Ret (), (u, e))" "fit_turn T (u, e) = (Ret (), (t, d))"
      using run n(1) by (cases n) (auto simp: bindS_eq_Ret)
    then show False using steps_frame [of T k t0 d0] fit_turn_core [of T u e "()" t d] train_step_frame [of T u] zero t0
      by (fastforce simp: core_turn_def split: prod.splits outcome.splits if_splits)
  qed
  then have m: "0 < m" "m \<le> n" using n(2) by (auto simp: m_def intro: le_less_trans [OF _ mod_less_divisor] less_le_trans)
  obtain u e where u: "fit_steps T m (t0, d0) = (Ret (), (u, e))" "dir_ok e m" "step_name m \<in> set (step_files d)"
    "map_of (files d) (step_name m) = Some (state_dict T u)" and d: "dir_ok d m"
    using steps_directory [OF ok0 t0(2) fresh(2) run, of m] t0 m by (auto simp: m_def)
  have fu: "t_step u = m" "t_cfg u = c" "train_data u = train_data t0" "val_data u = val_data t0" "cuda_rng u = cuda_rng t0"
    using steps_frame [OF u(1)] t0 by simp_all
  have ft: "t_step t = n" "t_cfg t = c" using steps_frame [OF run] t0 by simp_all
  have latest: "latest_checkpoint d = Ret (Some (step_name m))"
    by (rule latest_is_newest [OF dir_named [OF d] u(3) dir_newest [OF d]])
  have res: "resume T (state_dict T u) None = Ret u" by (rule resume_state [OF new fu(2-5)])
  have "fit_steps T (n - m) (u, e) = (Ret (), (t, d))" using run u(1) m(2) fit_steps_add [of T m "n - m" "(t0, d0)"] by simp
  then obtain b where b: "core_iter T (n - m) u = Some (t, b)" and best: "map_of (files d) BEST = over b (map_of (files e) BEST)"
    using steps_core core_rerun [OF _ dir_named [OF u(2)]] by (metis prod.inject)
  obtain v b' val where v: "core_iter T (max_steps c - n) t = Some (v, b')" "evaluate T v = Ret val"
    using fit_core [OF straight] ft by auto
  have "core_iter T (max_steps c - m) u = Some (v, over b' b)" using core_iter_add [OF b v(1)] m n(3) by simp
  then obtain d2 where d2: "fit T (u, d) = (Ret (), (if improves val (best_val v) then v\<lparr>best_val := Some val\<rparr> else v, d2))"
    "map_of (files d2) BEST = (if improves val (best_val v) then Some (state_dict T (v\<lparr>best_val := Some val\<rparr>)) else over b' (over b (map_of (files d) BEST)))"
    using fit_from_core [OF _ dir_named [OF d] v(2), of u "over b' b"] fu by auto
  moreover have "t1 = (if improves val (best_val v) then v\<lparr>best_val := Some val\<rparr> else v) \<and>
    map_of (files d1) BEST = (if improves val (best_val v) then Some (state_dict T (v\<lparr>best_val := Some val\<rparr>)) else over b' (map_of (files d) BEST))"
    using fit_from_core [OF _ dir_named [OF d] v(2), of t b'] v ft straight by auto
  ultimately have "fit T (u, d) = (Ret (), (t1, d2)) \<and> map_of (files d2) BEST = map_of (files d1) BEST" using best by simp
  then show ?thesis using latest u(4) res fu(1) by (auto simp: m_def)
qed

text \<open>A model of one counter that every step improves, trained for two steps with a checkpoint after each.\<close>

definition demo_torch :: "(nat, unit, nat, nat, unit, unit) torch" where
  "demo_torch = \<lparr>cuda_available = False, manual_seed = (\<lambda>s. s), cuda_manual_seed_all = (\<lambda>s. s), generator_seed = (\<lambda>s. s),
     init_model = (\<lambda>_ r. (0, r)), parameters = (\<lambda>_. []), requires_grad = (\<lambda>_. True), param_dim = (\<lambda>_. 1), adamw = (\<lambda>_ _ _. ()),
     set_lr = (\<lambda>_ s. s), group_lr = (\<lambda>_. 0), randint = (\<lambda>g high n. (replicate n (g mod high), g + 1)),
     model_loss = (\<lambda>w _. - real w), backward = (\<lambda>_ _ _ g. g), no_grad = (), clip_grad_norm = (\<lambda>_ g. (0, g)),
     opt_step = (\<lambda>s _ w. (w + 1, s)), token_file = (\<lambda>_. [1, 2, 3])\<rparr>"

definition demo_train :: train_config where
  "demo_train = \<lparr>train_bin = [], val_bin = [], tc_seq_len = 1, micro_batch = 1, grad_accum = 1, tc_lr = 1, min_lr = 0, warmup_steps = 0,
     weight_decay = 0, betas = (0, 0), grad_clip = 1, max_steps = 2, eval_every = 1, eval_batches = 1, log_every = 1, ckpt_every = 1,
     keep_last = 1, out_dir = [], tc_compile = False, tc_seed = 0, tc_device = ''cpu'', tc_dtype = ''float32'', tc_model = TINY\<rparr>"

lemma demo_evaluates: "t_cfg t = demo_train \<Longrightarrow> \<exists>val. evaluate demo_torch t = Ret val"
  by (simp add: evaluate_def demo_train_def next_batch_def batch_def Let_def)

lemma demo_turns:
  assumes "t_cfg t = demo_train"
  shows "\<exists>t' b. core_turn demo_torch t = Some (t', b) \<and> t_cfg t' = demo_train"
proof -
  have "\<exists>lg u. train_step demo_torch t = (Ret lg, u) \<and> t_cfg u = demo_train"
    using assms by (simp add: train_step_def demo_train_def micro_step_def next_batch_def batch_def demo_torch_def Let_def)
  then obtain lg u where u: "train_step demo_torch t = (Ret lg, u)" "t_cfg u = demo_train" by blast
  then show ?thesis using demo_evaluates [of u] by (auto simp: core_turn_def core_eval_def demo_train_def)
qed

lemma demo_iterates: "t_cfg t = demo_train \<Longrightarrow> \<exists>t' b. core_iter demo_torch n t = Some (t', b) \<and> t_cfg t' = demo_train"
  by (induction n) (use demo_turns in fastforce)+

theorem resume_matches_straight_run_witness:
  "\<exists>t0 t d t1 d1 name ck tr d2. new_trainer demo_torch demo_train = Ret t0 \<and>
     fit_steps demo_torch 1 (t0, \<lparr>files = [], log_jsonl = []\<rparr>) = (Ret (), (t, d)) \<and> fit demo_torch (t, d) = (Ret (), (t1, d1)) \<and>
     latest_checkpoint d = Ret (Some name) \<and> map_of (files d) name = Some ck \<and> resume demo_torch ck None = Ret tr \<and>
     fit demo_torch (tr, d) = (Ret (), (t1, d2)) \<and> map_of (files d2) BEST = map_of (files d1) BEST"
proof -
  let ?T = demo_torch and ?d0 = "\<lparr>files = [], log_jsonl = []\<rparr> :: (nat, unit, nat, nat) checkpoint disk"
  obtain t0 where t0: "new_trainer ?T demo_train = Ret t0"
    by (simp add: new_trainer_def demo_torch_def demo_train_def new_dataset_def)
  then have cfg: "t_cfg t0 = demo_train" using new_trainer_cfg by blast
  have ok: "step_files ?d0 = []" "named_ok ?d0" by (simp_all add: step_files_def named_ok_def)
  obtain t b where t: "core_iter ?T 1 t0 = Some (t, b)" "t_cfg t = demo_train" using demo_iterates [OF cfg, of 1] by blast
  then obtain d where d: "fit_steps ?T 1 (t0, ?d0) = (Ret (), (t, d))" "named_ok d" using core_rerun [OF t(1) ok(2)] by blast
  obtain u b' where u: "core_iter ?T (max_steps (t_cfg t) - t_step t) t = Some (u, b')" "t_cfg u = demo_train"
    using demo_iterates [OF t(2)] by blast
  obtain val where "evaluate ?T u = Ret val" using demo_evaluates [OF u(2)] by blast
  then obtain t1 d1 where "fit ?T (t, d) = (Ret (), (t1, d1))" using fit_from_core [OF u(1) d(2)] by blast
  moreover from this obtain name ck tr d2 where "latest_checkpoint d = Ret (Some name)" "map_of (files d) name = Some ck"
    "resume ?T ck None = Ret tr" "fit ?T (tr, d) = (Ret (), (t1, d2))" "map_of (files d2) BEST = map_of (files d1) BEST"
    using resume_matches_straight_run [OF t0 _ ok(1) d(1)] by (auto simp: demo_train_def)
  ultimately show ?thesis using t0 d(1) by blast
qed

end
