(* ===== verification/Workload.thy ===== *)
theory Workload
  imports Types Corpus
begin

text \<open>
  \<^verbatim>\<open>bench/workload.py\<close>: reproducible request streams for the benchmarks. numpy's generator is the record \<open>rng\<close> of its methods, each
  taking and returning the generator's state \<open>'g\<close>; \<open>rng_doc\<close> is what numpy documents of \<^verbatim>\<open>integers\<close> and \<^verbatim>\<open>choice\<close>. Percentiles are
  numpy's too. Fresh request ids are a function of their number. Writing the workload file is not modelled.

  \<open>workload_well_formed\<close> is the contract of \<^verbatim>\<open>build_workload\<close> that the engine relies on; \<open>weights_distribution\<close> shows that the Zipf
  weights are a distribution, \<open>rebase_shift\<close> that moving a workload onto the wall clock keeps every SLO interval.
\<close>

record workload_config =
  num_requests :: nat
  request_rate :: "real option"
  num_prefixes :: nat
  prefix_len :: nat
  zipf_alpha :: real
  prefix_fraction :: real
  prompt_len_mean :: nat
  prompt_len_sigma :: real
  output_len_mean :: nat
  output_len_sigma :: real
  output_len_min :: nat
  output_len_max :: nat
  slo_seconds :: "real option"
  wl_seed :: nat

definition default_workload :: workload_config where
  "default_workload =
     \<lparr>num_requests = 200, request_rate = None, num_prefixes = 16, prefix_len = 128, zipf_alpha = 1, prefix_fraction = 0.8,
      prompt_len_mean = 96, prompt_len_sigma = 0.6, output_len_mean = 96, output_len_sigma = 0.7, output_len_min = 8,
      output_len_max = 512, slo_seconds = Some 10, wl_seed = 0\<rparr>"

record 'g rng =
  default_rng :: "nat \<Rightarrow> 'g"
  rng_integers :: "int \<Rightarrow> int \<Rightarrow> nat \<Rightarrow> 'g \<Rightarrow> nat list outcome \<times> 'g"
  rng_lognormal :: "real \<Rightarrow> real \<Rightarrow> nat \<Rightarrow> 'g \<Rightarrow> real list \<times> 'g"
  rng_exponential :: "real \<Rightarrow> nat \<Rightarrow> 'g \<Rightarrow> real list \<times> 'g"
  rng_random :: "'g \<Rightarrow> real \<times> 'g"
  rng_choice :: "nat \<Rightarrow> real list \<Rightarrow> 'g \<Rightarrow> nat outcome \<times> 'g"

text \<open>\<^verbatim>\<open>np.clip(x, lo, hi).astype(int)\<close>\<close>

definition clip_int :: "nat \<Rightarrow> nat \<Rightarrow> real \<Rightarrow> nat" where
  "clip_int lo hi x = nat \<lfloor>min (max x (real lo)) (real hi)\<rfloor>"

definition lognormal_lengths :: "'g rng \<Rightarrow> nat \<Rightarrow> nat \<Rightarrow> real \<Rightarrow> nat \<Rightarrow> nat \<Rightarrow> 'g \<Rightarrow> nat list \<times> 'g" where
  "lognormal_lengths R n avg sigma lo hi g = (case rng_lognormal R (ln (real avg)) sigma n g of (raw, g) \<Rightarrow> (map (clip_int lo hi) raw, g))"

definition rebase :: "real \<Rightarrow> request list \<Rightarrow> request list" where
  "rebase t0 rs = map (\<lambda>r. r\<lparr>deadline := map_option (\<lambda>d. d + t0) (deadline r), arrival_time := arrival_time r + t0\<rparr>) rs"

definition pool_take :: "'g rng \<Rightarrow> nat list list option \<Rightarrow> nat \<Rightarrow> nat \<Rightarrow> nat \<Rightarrow> 'g \<Rightarrow> nat list outcome \<times> 'g" where
  "pool_take R pool n vsize eos g =
     (case pool of
        Some (d # ds) \<Rightarrow>
          bindS (rng_integers R 0 (int (length (d # ds))) 1 g)
            (\<lambda>ix g. let doc = (d # ds) ! (ix ! 0) in
               if length doc \<le> n
               then if length doc = 0 then (Raise ZeroDivisionError, g)
                    else (Ret (take n (concat (replicate (n div length doc + 1) doc))), g)
               else bindS (rng_integers R 0 (int (length doc - n)) 1 g) (\<lambda>start g. (Ret (take n (drop (start ! 0) doc)), g)))
      | _ \<Rightarrow> bindS (rng_integers R 0 (int vsize - 1) n g) (\<lambda>ids g. (Ret (map (\<lambda>i. if i \<ge> eos then i + 1 else i) ids), g)))"

definition zipf_weights :: "nat \<Rightarrow> real \<Rightarrow> real list" where
  "zipf_weights n alpha =
     (let w = map (\<lambda>k. real k powr (- alpha)) [1..<n + 1] in map (\<lambda>x. x / sum_list w) w)"

fun take_prefixes :: "'g rng \<Rightarrow> nat list list option \<Rightarrow> nat \<Rightarrow> nat \<Rightarrow> nat \<Rightarrow> nat \<Rightarrow> 'g \<Rightarrow> nat list list outcome \<times> 'g" where
  "take_prefixes R pool plen vsize eos 0 g = (Ret [], g)"
| "take_prefixes R pool plen vsize eos (Suc k) g =
     bindS (pool_take R pool plen vsize eos g)
       (\<lambda>p g. bindS (take_prefixes R pool plen vsize eos k g) (\<lambda>ps g. (Ret (p # ps), g)))"

text \<open>The prompt of one request: a shared prefix for a fraction of them, then its own continuation.\<close>

definition draw_prompt ::
  "'g rng \<Rightarrow> workload_config \<Rightarrow> nat list list option \<Rightarrow> nat \<Rightarrow> nat \<Rightarrow> nat list list \<Rightarrow> nat \<Rightarrow> 'g \<Rightarrow> nat list outcome \<times> 'g" where
  "draw_prompt R c pool vsize eos prefixes n g =
     (case rng_random R g of (x, g) \<Rightarrow>
        bindS (if x < prefix_fraction c
               then bindS (rng_choice R (num_prefixes c) (zipf_weights (num_prefixes c) (zipf_alpha c)) g) (\<lambda>i g. (Ret (prefixes ! i), g))
               else (Ret [], g))
          (\<lambda>tokens g. bindS (pool_take R pool n vsize eos g) (\<lambda>own g. (Ret (tokens @ own), g))))"

definition workload_request :: "workload_config \<Rightarrow> string \<Rightarrow> nat list \<Rightarrow> nat \<Rightarrow> real \<Rightarrow> request" where
  "workload_request c rid tokens n_out arrival =
     new_request tokens (default_params\<lparr>max_tokens := int n_out, temperature := 0, ignore_eos := True\<rparr>) rid arrival
       (map_option (\<lambda>s. arrival + s) (slo_seconds c))"

fun build_requests ::
  "'g rng \<Rightarrow> workload_config \<Rightarrow> nat list list option \<Rightarrow> nat \<Rightarrow> nat \<Rightarrow> nat list list \<Rightarrow> (string \<times> nat \<times> nat \<times> real) list \<Rightarrow> 'g \<Rightarrow> request list outcome \<times> 'g" where
  "build_requests R c pool vsize eos prefixes [] g = (Ret [], g)"
| "build_requests R c pool vsize eos prefixes ((rid, n_in, n_out, arrival) # plan) g =
     bindS (draw_prompt R c pool vsize eos prefixes n_in g)
       (\<lambda>tokens g. bindS (build_requests R c pool vsize eos prefixes plan g)
          (\<lambda>rs g. (Ret (workload_request c rid tokens n_out arrival # rs), g)))"

definition arrivals :: "'g rng \<Rightarrow> workload_config \<Rightarrow> 'g \<Rightarrow> real list \<times> 'g" where
  "arrivals R c g =
     (case request_rate c of
        None \<Rightarrow> (replicate (num_requests c) 0, g)
      | Some rate \<Rightarrow> (case rng_exponential R (1 / rate) (num_requests c) g of (gaps, g) \<Rightarrow>
          (map (\<lambda>i. sum_list (take (i + 1) gaps)) [0..<length gaps], g)))"

definition build_workload :: "'g rng \<Rightarrow> (nat \<Rightarrow> string) \<Rightarrow> workload_config \<Rightarrow> nat \<Rightarrow> nat \<Rightarrow> nat list list option \<Rightarrow> request list outcome" where
  "build_workload R rid c vsize eos pool =
     fst (bindS (take_prefixes R pool (prefix_len c) vsize eos (num_prefixes c) (default_rng R (wl_seed c)))
       (\<lambda>prefixes g.
          let (prompt_lens, g) = lognormal_lengths R (num_requests c) (prompt_len_mean c) (prompt_len_sigma c) 4 512 g;
              (output_lens, g) = lognormal_lengths R (num_requests c) (output_len_mean c) (output_len_sigma c) (output_len_min c) (output_len_max c) g;
              (times, g) = arrivals R c g
          in build_requests R c pool vsize eos prefixes
               (map (\<lambda>i. (rid i, prompt_lens ! i, output_lens ! i, times ! i)) [0..<num_requests c]) g))"

definition load_prompt_pool :: "uni \<Rightarrow> str \<Rightarrow> nat \<Rightarrow> bpe \<Rightarrow> nat list list outcome \<times> bpe" where
  "load_prompt_pool U contents max_docs tok =
     (let docs = take max_docs (whole_docs (split_on END_OF_TEXT [] contents)) in
      case for_each (\<lambda>d (acc, tok). case encode U d False tok of (Raise e, tok) \<Rightarrow> (Raise e, (acc, tok)) | (Ret ids, tok) \<Rightarrow> (Ret (), (acc @ [ids], tok)))
             docs ([], tok) of
        (Raise e, (_, tok)) \<Rightarrow> (Raise e, tok)
      | (Ret _, (acc, tok)) \<Rightarrow> (Ret acc, tok))"

record length_stats =
  ls_mean :: real
  ls_p50 :: real
  ls_p99 :: real
  ls_max :: real

record workload_summary =
  ws_num_requests :: nat
  ws_prompt_tokens :: int
  ws_output_tokens :: int
  ws_prompt_len :: length_stats
  ws_output_len :: length_stats
  ws_arrival_span :: real
  ws_effective_rate :: "real option"

definition length_stats_of :: "(real list \<Rightarrow> real \<Rightarrow> real) \<Rightarrow> real list \<Rightarrow> length_stats" where
  "length_stats_of pct xs = \<lparr>ls_mean = sum_list xs / real (length xs), ls_p50 = pct xs 50, ls_p99 = pct xs 99, ls_max = Max (set xs)\<rparr>"

definition summarise :: "(real list \<Rightarrow> real \<Rightarrow> real) \<Rightarrow> request list \<Rightarrow> workload_summary outcome" where
  "summarise pct rs =
     (if rs = [] then Raise (ValueError ''zero-size array'')
      else let prompts = map (\<lambda>r. int (prompt_len r)) rs; outputs = map (\<lambda>r. max_tokens (params r)) rs; times = map arrival_time rs;
               width = Max (set times) - Min (set times)
           in Ret \<lparr>ws_num_requests = length rs, ws_prompt_tokens = sum_list prompts, ws_output_tokens = sum_list outputs,
                  ws_prompt_len = length_stats_of pct (map of_int prompts), ws_output_len = length_stats_of pct (map of_int outputs),
                  ws_arrival_span = width, ws_effective_rate = (if 0 < width then Some (real (length rs) / width) else None)\<rparr>)"

section \<open>Weights and arrivals\<close>

lemma weights_distribution:
  assumes "0 < n"
  shows "length (zipf_weights n a) = n \<and> (\<forall>x \<in> set (zipf_weights n a). 0 < x) \<and> sum_list (zipf_weights n a) = 1"
proof -
  define w where "w = map (\<lambda>k. real k powr (- a)) [1..<n + 1]"
  have pos: "\<forall>x \<in> set w. 0 < x" by (auto simp: w_def)
  have "0 < sum_list w" using pos assms sum_list_positive [of w] by (auto simp: w_def)
  moreover have "sum_list (map (\<lambda>x. x / s) xs) = sum_list xs / s" for s and xs :: "real list"
    by (induction xs) (auto simp: add_divide_distrib)
  moreover have "zipf_weights n a = map (\<lambda>x. x / sum_list w) w" "length w = n" by (simp_all add: zipf_weights_def Let_def w_def)
  ultimately show ?thesis using pos by auto
qed

lemma rebase_shift:
  "i < length rs \<Longrightarrow> arrival_time (rebase t0 rs ! i) = arrival_time (rs ! i) + t0 \<and>
     map_option (\<lambda>d. d - arrival_time (rebase t0 rs ! i)) (deadline (rebase t0 rs ! i)) = map_option (\<lambda>d. d - arrival_time (rs ! i)) (deadline (rs ! i)) \<and>
     prompt_token_ids (rebase t0 rs ! i) = prompt_token_ids (rs ! i) \<and> params (rebase t0 rs ! i) = params (rs ! i)"
  by (auto simp: rebase_def option.map_comp comp_def)

section \<open>Well-formed workloads\<close>

definition rng_doc :: "'g rng \<Rightarrow> bool" where
  "rng_doc R \<longleftrightarrow>
     (\<forall>lo h n g. 0 \<le> lo \<and> lo < h \<longrightarrow> (\<exists>ids g'. rng_integers R lo h n g = (Ret ids, g') \<and> length ids = n \<and> (\<forall>i \<in> set ids. lo \<le> int i \<and> int i < h))) \<and>
     (\<forall>n p g. 0 < n \<and> length p = n \<and> (\<forall>x \<in> set p. 0 \<le> x) \<and> sum_list p = 1 \<longrightarrow> (\<exists>i g'. rng_choice R n p g = (Ret i, g') \<and> i < n)) \<and>
     (\<forall>mu sigma n g. length (fst (rng_lognormal R mu sigma n g)) = n) \<and>
     (\<forall>scale n g. length (fst (rng_exponential R scale n g)) = n)"

definition usable :: "nat \<Rightarrow> nat \<Rightarrow> nat list \<Rightarrow> bool" where
  "usable vsize eos ids \<longleftrightarrow> (\<forall>t \<in> set ids. t < vsize \<and> t \<noteq> eos)"

definition pool_ok_for :: "nat \<Rightarrow> nat \<Rightarrow> nat list list option \<Rightarrow> bool" where
  "pool_ok_for vsize eos pool \<longleftrightarrow> (case pool of None \<Rightarrow> True | Some ds \<Rightarrow> \<forall>d \<in> set ds. d \<noteq> [] \<and> usable vsize eos d)"

lemma rng_draws:
  assumes "rng_doc R" and "0 < h"
  obtains ids g' where "rng_integers R 0 h n g = (Ret ids, g')" and "length ids = n" and "\<And>i. i < n \<Longrightarrow> int (ids ! i) < h"
proof -
  obtain ids g' where "rng_integers R 0 h n g = (Ret ids, g')" "length ids = n" "\<forall>i \<in> set ids. int i < h"
    using assms unfolding rng_doc_def by (metis order_refl)
  then show thesis using that by simp
qed

lemma pool_take_ok:
  assumes doc: "rng_doc R" and pool: "pool_ok_for vsize eos pool" and v: "2 \<le> vsize" "eos < vsize"
  shows "\<exists>ids g'. pool_take R pool n vsize eos g = (Ret ids, g') \<and> length ids = n \<and> usable vsize eos ids"
proof (cases "pool = None \<or> pool = Some []")
  case True
  have "0 < int vsize - 1" using v by simp
  then obtain ids g' where i: "rng_integers R 0 (int vsize - 1) n g = (Ret ids, g')" "length ids = n" "\<And>i. i < n \<Longrightarrow> int (ids ! i) < int vsize - 1"
    using rng_draws [OF doc] by blast
  then have "usable vsize eos (map (\<lambda>i. if i \<ge> eos then i + 1 else i) ids)" using v by (fastforce simp: usable_def in_set_conv_nth)
  then show ?thesis using True i by (auto simp: pool_take_def split: option.splits)
next
  case False
  then obtain d ds where p: "pool = Some (d # ds)" by (cases pool; cases "the pool") auto
  have "0 < int (length (d # ds))" by simp
  then obtain ix g1 where ix: "rng_integers R 0 (int (length (d # ds))) 1 g = (Ret ix, g1)" "int (ix ! 0) < int (length (d # ds))"
    using rng_draws [OF doc, of _ 1] by (metis zero_less_one)
  define x where "x = (d # ds) ! (ix ! 0)"
  have "x \<in> set (d # ds)" using ix(2) unfolding x_def by (intro nth_mem) simp
  then have x: "x \<noteq> []" "usable vsize eos x" using pool by (auto simp: p pool_ok_for_def)
  have step: "pool_take R pool n vsize eos g =
    (if length x \<le> n then (Ret (take n (concat (replicate (n div length x + 1) x))), g1)
     else bindS (rng_integers R 0 (int (length x - n)) 1 g1) (\<lambda>start g. (Ret (take n (drop (start ! 0) x)), g)))"
    using ix(1) x(1) by (simp add: pool_take_def p Let_def x_def)
  show ?thesis
  proof (cases "length x \<le> n")
    case True
    define ys where "ys = take n (concat (replicate (n div length x + 1) x))"
    have "length (concat (replicate k x)) = k * length x" for k by (induction k) auto
    moreover have "n \<le> (n div length x + 1) * length x" using dividend_less_div_times [of "length x" n] x(1) by simp
    ultimately have "length ys = n" by (simp add: ys_def)
    moreover have "set ys \<subseteq> set x" using set_take_subset by (fastforce simp: ys_def)
    moreover have "pool_take R pool n vsize eos g = (Ret ys, g1)" using step True by (simp add: ys_def)
    ultimately show ?thesis using x(2) by (auto simp: usable_def)
  next
    case False
    then have "0 < int (length x - n)" by simp
    then obtain st g2 where "rng_integers R 0 (int (length x - n)) 1 g1 = (Ret st, g2)" "int (st ! 0) < int (length x - n)"
      using rng_draws [OF doc, of _ 1] by (metis zero_less_one)
    then show ?thesis using step False x(2) by (auto simp: usable_def dest!: in_set_takeD in_set_dropD)
  qed
qed

lemma take_prefixes_ok:
  assumes "rng_doc R" and "pool_ok_for vsize eos pool" and "2 \<le> vsize" and "eos < vsize"
  shows "\<exists>ps g'. take_prefixes R pool n vsize eos k g = (Ret ps, g') \<and> length ps = k \<and> (\<forall>p \<in> set ps. length p = n \<and> usable vsize eos p)"
proof (induction k arbitrary: g)
  case (Suc k)
  obtain p g1 where "pool_take R pool n vsize eos g = (Ret p, g1)" "length p = n" "usable vsize eos p" using pool_take_ok [OF assms] by blast
  then show ?case using Suc [of g1] by auto
qed simp

lemma draw_prompt_ok:
  assumes doc: "rng_doc R" and pool: "pool_ok_for vsize eos pool" and v: "2 \<le> vsize" "eos < vsize" and k: "0 < num_prefixes c"
    and ps: "length ps = num_prefixes c" "\<forall>p \<in> set ps. length p = prefix_len c \<and> usable vsize eos p"
  shows "\<exists>ids g'. draw_prompt R c pool vsize eos ps n g = (Ret ids, g') \<and> usable vsize eos ids \<and> n \<le> length ids \<and> length ids \<le> prefix_len c + n"
proof -
  obtain x g1 where x: "rng_random R g = (x, g1)" by force
  let ?pre = "if x < prefix_fraction c
    then bindS (rng_choice R (num_prefixes c) (zipf_weights (num_prefixes c) (zipf_alpha c)) g1) (\<lambda>i g. (Ret (ps ! i), g)) else (Ret [], g1)"
  have "\<exists>i g'. rng_choice R (num_prefixes c) (zipf_weights (num_prefixes c) (zipf_alpha c)) g1 = (Ret i, g') \<and> i < num_prefixes c"
    using doc weights_distribution [OF k, of "zipf_alpha c"] k unfolding rng_doc_def by (metis less_imp_le)
  then obtain i g' where i: "rng_choice R (num_prefixes c) (zipf_weights (num_prefixes c) (zipf_alpha c)) g1 = (Ret i, g')" "i < num_prefixes c" by blast
  then have "ps ! i \<in> set ps" using ps(1) by simp
  then have "\<exists>pre g2. ?pre = (Ret pre, g2) \<and> length pre \<le> prefix_len c \<and> usable vsize eos pre"
    using ps(2) i(1) by (auto simp: usable_def)
  then obtain pre g2 where pre: "?pre = (Ret pre, g2)" "length pre \<le> prefix_len c" "usable vsize eos pre" by blast
  obtain own g3 where "pool_take R pool n vsize eos g2 = (Ret own, g3)" "length own = n" "usable vsize eos own"
    using pool_take_ok [OF doc pool v] by blast
  then show ?thesis using x pre by (auto simp: draw_prompt_def usable_def)
qed

definition request_ok :: "workload_config \<Rightarrow> nat \<Rightarrow> nat \<Rightarrow> nat \<times> nat \<times> real \<Rightarrow> request \<Rightarrow> bool" where
  "request_ok c vsize eos plan r \<longleftrightarrow>
     (case plan of (n_in, n_out, arrival) \<Rightarrow>
        usable vsize eos (prompt_token_ids r) \<and> n_in \<le> prompt_len r \<and> prompt_len r \<le> prefix_len c + n_in \<and> max_tokens (params r) = int n_out \<and>
        greedy (params r) \<and> ignore_eos (params r) \<and> arrival_time r = arrival \<and> deadline r = map_option (\<lambda>s. arrival + s) (slo_seconds c))"

lemma build_requests_ok:
  assumes "rng_doc R" and "pool_ok_for vsize eos pool" and "2 \<le> vsize" and "eos < vsize" and "0 < num_prefixes c"
    and "length ps = num_prefixes c" and "\<forall>p \<in> set ps. length p = prefix_len c \<and> usable vsize eos p"
  shows "\<exists>rs g'. build_requests R c pool vsize eos ps plan g = (Ret rs, g') \<and> list_all2 (request_ok c vsize eos) (map snd plan) rs"
proof (induction plan arbitrary: g)
  case (Cons q plan)
  obtain rid n_in n_out arrival where q: "q = (rid, n_in, n_out, arrival)" by (cases q)
  obtain ids g1 where i: "draw_prompt R c pool vsize eos ps n_in g = (Ret ids, g1)" "usable vsize eos ids" "n_in \<le> length ids" "length ids \<le> prefix_len c + n_in"
    using draw_prompt_ok [OF assms] by blast
  obtain rs g2 where "build_requests R c pool vsize eos ps plan g1 = (Ret rs, g2)" "list_all2 (request_ok c vsize eos) (map snd plan) rs"
    using Cons by blast
  moreover have "request_ok c vsize eos (n_in, n_out, arrival) (workload_request c rid ids n_out arrival)"
    using i by (simp add: request_ok_def workload_request_def new_request_def prompt_len_def greedy_def)
  ultimately show ?case using q i(1) by simp
qed simp

lemma clip_int_range: "lo \<le> hi \<Longrightarrow> lo \<le> clip_int lo hi x \<and> clip_int lo hi x \<le> hi"
  by (auto simp: clip_int_def le_nat_iff nat_le_iff le_floor_iff floor_le_iff min_def max_def)

lemma lognormal_range:
  assumes "rng_doc R" and "lo \<le> hi" and "lognormal_lengths R n avg sigma lo hi g = (ns, g')"
  shows "length ns = n \<and> (\<forall>k \<in> set ns. lo \<le> k \<and> k \<le> hi)"
proof -
  obtain raw where "rng_lognormal R (ln (real avg)) sigma n g = (raw, g')" "ns = map (clip_int lo hi) raw"
    using assms(3) by (auto simp: lognormal_lengths_def split: prod.splits)
  moreover from this have "length raw = n" using assms(1) unfolding rng_doc_def by (metis fst_conv)
  ultimately show ?thesis using clip_int_range [OF assms(2)] by auto
qed

text \<open>C40: a workload can be served. With numpy's documented behaviour, \<^verbatim>\<open>build_workload\<close> returns exactly the requests asked for. Each
  prompt has at least 4 tokens, at most 512 after its shared prefix, all of them in the vocabulary and none the end-of-text
  token; each output length lies in the configured range; decoding is greedy and ignores the end of text; and after \<^verbatim>\<open>rebase\<close>
  the deadline is still the arrival plus the SLO.\<close>

theorem workload_well_formed:
  assumes doc: "rng_doc R" and pool: "pool_ok_for vsize eos pool" and v: "2 \<le> vsize" "eos < vsize" and k: "0 < num_prefixes c"
    and out: "output_len_min c \<le> output_len_max c"
  shows "\<exists>rs. build_workload R rid c vsize eos pool = Ret rs \<and> length rs = num_requests c \<and>
    (\<forall>r \<in> set rs. usable vsize eos (prompt_token_ids r) \<and> 4 \<le> prompt_len r \<and> prompt_len r \<le> prefix_len c + 512 \<and>
       int (output_len_min c) \<le> max_tokens (params r) \<and> max_tokens (params r) \<le> int (output_len_max c) \<and>
       greedy (params r) \<and> ignore_eos (params r)) \<and>
    (\<forall>r \<in> set (rebase t0 rs). deadline r = map_option (\<lambda>s. arrival_time r + s) (slo_seconds c))"
proof -
  obtain ps g where ps: "take_prefixes R pool (prefix_len c) vsize eos (num_prefixes c) (default_rng R (wl_seed c)) = (Ret ps, g)"
    "length ps = num_prefixes c" "\<forall>p \<in> set ps. length p = prefix_len c \<and> usable vsize eos p"
    using take_prefixes_ok [OF doc pool v] by blast
  obtain ins g1 where ins: "lognormal_lengths R (num_requests c) (prompt_len_mean c) (prompt_len_sigma c) 4 512 g = (ins, g1)" by force
  obtain outs g2 where outs: "lognormal_lengths R (num_requests c) (output_len_mean c) (output_len_sigma c) (output_len_min c) (output_len_max c) g1 = (outs, g2)"
    by force
  obtain ts g3 where ts: "arrivals R c g2 = (ts, g3)" by force
  define plan where "plan = map (\<lambda>i. (rid i, ins ! i, outs ! i, ts ! i)) [0..<num_requests c]"
  obtain rs g4 where rs: "build_requests R c pool vsize eos ps plan g3 = (Ret rs, g4)" "list_all2 (request_ok c vsize eos) (map snd plan) rs"
    using build_requests_ok [OF doc pool v k ps(2,3)] by blast
  have b: "build_workload R rid c vsize eos pool = Ret rs" using ps(1) ins outs ts rs(1) by (simp add: build_workload_def plan_def)
  have len: "length rs = num_requests c" using list_all2_lengthD [OF rs(2)] by (simp add: plan_def)
  have ok: "request_ok c vsize eos (ins ! i, outs ! i, ts ! i) (rs ! i)" if "i < num_requests c" for i
    using list_all2_nthD2 [OF rs(2), of i] that len by (simp add: plan_def)
  have range: "4 \<le> ins ! i \<and> ins ! i \<le> 512 \<and> output_len_min c \<le> outs ! i \<and> outs ! i \<le> output_len_max c" if "i < num_requests c" for i
    using that lognormal_range [OF doc _ ins] lognormal_range [OF doc out outs] by simp
  have each: "usable vsize eos (prompt_token_ids r) \<and> 4 \<le> prompt_len r \<and> prompt_len r \<le> prefix_len c + 512 \<and>
       int (output_len_min c) \<le> max_tokens (params r) \<and> max_tokens (params r) \<le> int (output_len_max c) \<and> greedy (params r) \<and> ignore_eos (params r) \<and>
       deadline r = map_option (\<lambda>s. arrival_time r + s) (slo_seconds c)" if in_rs: "r \<in> set rs" for r
  proof -
    obtain i where i: "i < num_requests c" "r = rs ! i" using in_rs len by (auto simp: in_set_conv_nth)
    show ?thesis using ok [OF i(1)] range [OF i(1)] unfolding i(2) by (simp add: request_ok_def)
  qed
  have "deadline r = map_option (\<lambda>s. arrival_time r + s) (slo_seconds c)" if in_re: "r \<in> set (rebase t0 rs)" for r
  proof -
    obtain q where q: "q \<in> set rs" "r = q\<lparr>deadline := map_option (\<lambda>d. d + t0) (deadline q), arrival_time := arrival_time q + t0\<rparr>"
      using in_re by (auto simp: rebase_def)
    have "deadline q = map_option (\<lambda>s. arrival_time q + s) (slo_seconds c)" using each [OF q(1)] by blast
    then show ?thesis by (simp add: q(2) option.map_comp comp_def ac_simps)
  qed
  then show ?thesis using b len each by blast
qed

text \<open>A generator that counts, for a small vocabulary.\<close>

definition demo_rng :: "nat rng" where
  "demo_rng = \<lparr>default_rng = (\<lambda>s. s),
     rng_integers = (\<lambda>lo h n g. (if lo < h then Ret (map (\<lambda>i. nat lo + (g + i) mod nat (h - lo)) [0..<n]) else Raise (ValueError ''low >= high''), g + 1)),
     rng_lognormal = (\<lambda>mu sigma n g. (replicate n (real g), g + 1)), rng_exponential = (\<lambda>scale n g. (replicate n scale, g + 1)),
     rng_random = (\<lambda>g. (0.5, g + 1)), rng_choice = (\<lambda>n p g. (if 0 < n then Ret (g mod n) else Raise (ValueError ''a must be positive''), g + 1))\<rparr>"

theorem workload_well_formed_witness:
  "rng_doc demo_rng \<and> (\<exists>rs. build_workload demo_rng (\<lambda>_. ''req'') default_workload 300 256 None = Ret rs \<and> length rs = 200 \<and>
     (\<forall>r \<in> set rs. 4 \<le> prompt_len r \<and> max_tokens (params r) \<le> 512) \<and>
     (\<forall>r \<in> set (rebase 1000 rs). deadline r = Some (arrival_time r + 10)))"
proof -
  have "int (nat lo + k mod nat (h - lo)) < h" if "0 \<le> lo" "lo < h" for lo h k
  proof -
    have "k mod nat (h - lo) < nat (h - lo)" using that by simp
    then show ?thesis using that by linarith
  qed
  then have doc: "rng_doc demo_rng" by (auto simp: rng_doc_def demo_rng_def)
  then show ?thesis
    using workload_well_formed [of demo_rng 300 256 None default_workload "\<lambda>_. ''req''" 1000]
    by (auto simp: pool_ok_for_def default_workload_def)
qed

end
