(* ===== verification/Runner.thy ===== *)
theory Runner
  imports Scheduler Workload
begin

text \<open>
  \<^verbatim>\<open>bench/runner.py\<close>: the open-loop benchmark runner, driving the continuous batching engine. The runner reads the clock the engine reads;
  sleeping and progress output are left out, and the loop, which ends only if the engine does, is \<open>partial_function (option)\<close>.

  \<open>runner_reports_warmup\<close>: a run that returns has reported every request exactly once, and with them the throwaway requests of
  the warm-up, which are cleared from the history but not from the outcomes waiting to be drained.
\<close>

record runner_config =
  warmup_requests :: nat
  warmup_prompt_len :: nat
  warmup_output_len :: nat
  poll_seconds :: real
  timeout_seconds :: real

definition default_runner :: runner_config where
  "default_runner = \<lparr>warmup_requests = 12, warmup_prompt_len = 128, warmup_output_len = 32, poll_seconds = 0.0005, timeout_seconds = 900\<rparr>"

text \<open>The throwaway requests; \<open>rid i\<close> is the id the \<open>i\<close>-th of them gets, and building one reads the clock.\<close>

fun warmup_batch :: "env \<Rightarrow> 'g rng \<Rightarrow> (nat \<Rightarrow> string) \<Rightarrow> runner_config \<Rightarrow> nat \<Rightarrow> nat list \<Rightarrow> 'g \<Rightarrow> engine \<Rightarrow> request list outcome \<times> engine" where
  "warmup_batch E R rid rc vsize [] g e = (Ret [], e)"
| "warmup_batch E R rid rc vsize (i # is) g e =
     (case rng_integers R 1 (int vsize - 1) (warmup_prompt_len rc) g of
        (Raise x, g) \<Rightarrow> (Raise x, e)
      | (Ret prompt, g) \<Rightarrow>
          (case perf_counter E e of (now, e) \<Rightarrow>
             bindS (warmup_batch E R rid rc vsize is g e)
               (\<lambda>rs e. (Ret (new_request prompt (default_params\<lparr>max_tokens := int (warmup_output_len rc), ignore_eos := True\<rparr>) (rid i) now None # rs), e))))"

partial_function (option) step_until_idle :: "env \<Rightarrow> engine \<Rightarrow> (unit outcome \<times> engine) option" where
  "step_until_idle E e =
     (if has_work e then (case step E e of (Raise x, e) \<Rightarrow> Some (Raise x, e) | (Ret _, e) \<Rightarrow> step_until_idle E e)
      else Some (Ret (), e))"

definition warmup :: "env \<Rightarrow> 'g rng \<Rightarrow> (nat \<Rightarrow> string) \<Rightarrow> runner_config \<Rightarrow> nat \<Rightarrow> engine \<Rightarrow> (unit outcome \<times> engine) option" where
  "warmup E R rid rc vsize e =
     (case bindS (warmup_batch E R rid rc vsize [0..<warmup_requests rc] (default_rng R 1234) e) (\<lambda>reqs e. for_each (add_request E) reqs e) of
        (Raise x, e) \<Rightarrow> Some (Raise x, e)
      | (Ret _, e) \<Rightarrow> (case step_until_idle E e of
            None \<Rightarrow> None
          | Some (Raise x, e) \<Rightarrow> Some (Raise x, e)
          | Some (Ret _, e) \<Rightarrow> Some (Ret (), e\<lparr>e_finished := []\<rparr>)))"

text \<open>Submit what has arrived by \<open>now\<close>; returns what has not.\<close>

fun submit_due :: "env \<Rightarrow> real \<Rightarrow> request list \<Rightarrow> engine \<Rightarrow> request list outcome \<times> engine" where
  "submit_due E now [] e = (Ret [], e)"
| "submit_due E now (r # rs) e =
     (if arrival_time r \<le> now then bindS (add_request E r e) (\<lambda>_ e. submit_due E now rs e) else (Ret (r # rs), e))"

partial_function (option) drive ::
  "env \<Rightarrow> runner_config \<Rightarrow> real \<Rightarrow> request list \<Rightarrow> request list \<Rightarrow> engine \<Rightarrow> (request list outcome \<times> engine) option" where
  "drive E rc t0 pending completed e =
     (if pending = [] \<and> \<not> has_work e then Some (Ret completed, e)
      else (case perf_counter E e of (now, e) \<Rightarrow>
        if now - t0 > timeout_seconds rc then Some (Raise TimeoutError, e)
        else (case submit_due E now pending e of
                (Raise x, e) \<Rightarrow> Some (Raise x, e)
              | (Ret pending, e) \<Rightarrow>
                  if has_work e
                  then (case step E e of
                          (Raise x, e) \<Rightarrow> Some (Raise x, e)
                        | (Ret _, e) \<Rightarrow> (case drain_finished e of (fin, e) \<Rightarrow> drive E rc t0 pending (completed @ fin) (e\<lparr>emitted := []\<rparr>)))
                  else (case drain_finished e of (fin, e) \<Rightarrow> drive E rc t0 pending (completed @ fin) e))))"

record run_result =
  rr_wall_seconds :: real
  rr_requests :: "request list"

definition bench_run ::
  "env \<Rightarrow> 'g rng \<Rightarrow> (nat \<Rightarrow> string) \<Rightarrow> runner_config \<Rightarrow> nat \<Rightarrow> request list \<Rightarrow> engine \<Rightarrow> (run_result outcome \<times> engine) option" where
  "bench_run E R rid rc vsize requests e =
     (case warmup E R rid rc vsize e of
        None \<Rightarrow> None
      | Some (Raise x, e) \<Rightarrow> Some (Raise x, e)
      | Some (Ret _, e) \<Rightarrow>
          (case perf_counter E e of (t0, e) \<Rightarrow>
             (case drive E rc t0 (rebase t0 requests) [] e of
                None \<Rightarrow> None
              | Some (Raise x, e) \<Rightarrow> Some (Raise x, e)
              | Some (Ret completed, e) \<Rightarrow>
                  (case perf_counter E e of (t1, e) \<Rightarrow> Some (Ret \<lparr>rr_wall_seconds = t1 - t0, rr_requests = completed\<rparr>, e)))))"

section \<open>Every request is reported\<close>

lemma accounted_clock [simp]:
  "accounted (e\<lparr>e_clock := n\<rparr>) = accounted e" "accounted (e\<lparr>emitted := x\<rparr>) = accounted e" "accounted (e\<lparr>e_finished := f\<rparr>) = accounted e"
  by (simp_all add: accounted_def)

lemma perf_counter_accounted: "perf_counter E e = (now, e') \<Longrightarrow> accounted e' = accounted e"
  by (auto simp: perf_counter_def)

lemma add_request_accounted:
  assumes "add_request E r e = (Ret x, e')"
  shows "accounted e' = add_mset (request_id r) (accounted e)"
proof (cases "admission_ctl e")
  case None
  then show ?thesis using assms by (auto simp: add_request_def accounted_def)
next
  case (Some a)
  then show ?thesis using assms
    by (auto simp: add_request_def accounted_def perf_counter_def finish_now_unfold record_finished_def Let_def split: prod.splits outcome.splits if_splits)
qed

lemma add_all_accounted: "for_each (add_request E) rs e = (Ret x, e') \<Longrightarrow> accounted e' = rids rs + accounted e"
  by (induction rs arbitrary: e) (auto simp: bindS_eq_Ret dest!: add_request_accounted)

lemma submit_due_accounted: "submit_due E now rs e = (Ret rest, e') \<Longrightarrow> rids rest + accounted e' = rids rs + accounted e"
  by (induction rs arbitrary: e) (auto simp: bindS_eq_Ret dest!: add_request_accounted split: if_splits)

lemma step_accounted: "step E e = (Ret d, e') \<Longrightarrow> accounted e' = accounted e"
  by (drule step_moves) (auto simp: moves_def accounted_def ac_simps)

lemma drain_accounted: "drain_finished e = (fin, e') \<Longrightarrow> rids fin + accounted e' = accounted e \<and> newly_finished e' = [] \<and> has_work e' = has_work e"
  by (auto simp: drain_finished_def accounted_def has_work_def ac_simps)

lemma idle_accounted: "\<not> has_work e \<Longrightarrow> accounted e = rids (newly_finished e)"
  by (simp add: has_work_def accounted_def)

lemma step_until_idle_accounted:
  assumes "step_until_idle E e = Some (Ret x, e')"
  shows "accounted e' = accounted e \<and> \<not> has_work e'"
proof -
  have "\<forall>x e'. y = (Ret x, e') \<longrightarrow> accounted e' = accounted e \<and> \<not> has_work e'" if "step_until_idle E e = Some y" for y
  proof (rule step_until_idle.raw_induct [where P = "\<lambda>E e y. \<forall>x e'. y = (Ret x, e') \<longrightarrow> accounted e' = accounted e \<and> \<not> has_work e'", OF _ that], intro allI impI)
    fix f :: "env \<Rightarrow> engine \<Rightarrow> (unit outcome \<times> engine) option" and E e y x e'
    assume IH: "\<And>E e y. f E e = Some y \<Longrightarrow> \<forall>x e'. y = (Ret x, e') \<longrightarrow> accounted e' = accounted e \<and> \<not> has_work e'"
      and body: "(if has_work e then (case step E e of (Raise x, e) \<Rightarrow> Some (Raise x, e) | (Ret _, e) \<Rightarrow> f E e) else Some (Ret (), e)) = Some y"
      and y: "y = (Ret x, e')"
    show "accounted e' = accounted e \<and> \<not> has_work e'"
    proof (cases "has_work e")
      case True
      then obtain d e1 where "step E e = (Ret d, e1)" "f E e1 = Some y" using body y by (auto split: prod.splits outcome.splits)
      then show ?thesis using IH y step_accounted by metis
    qed (use body y in auto)
  qed
  then show ?thesis using assms by blast
qed

lemma warmup_batch_ids:
  "warmup_batch E R rid rc vsize is g e = (Ret rs, e') \<Longrightarrow> rids rs = mset (map rid is) \<and> accounted e' = accounted e"
proof (induction "is" arbitrary: g e rs)
  case (Cons i "is")
  then show ?case
    by (auto simp: bindS_eq_Ret perf_counter_def new_request_def split: prod.splits outcome.splits)
qed simp

lemma warmup_accounted:
  assumes "warmup E R rid rc vsize e = Some (Ret x, e')"
  shows "accounted e' = mset (map rid [0..<warmup_requests rc]) + accounted e \<and> \<not> has_work e'"
proof -
  obtain reqs e1 where b: "warmup_batch E R rid rc vsize [0..<warmup_requests rc] (default_rng R 1234) e = (Ret reqs, e1)"
    using assms by (auto simp: warmup_def bindS_def split: prod.splits outcome.splits)
  obtain e2 where a: "for_each (add_request E) reqs e1 = (Ret (), e2)"
    using assms b by (auto simp: warmup_def split: prod.splits outcome.splits)
  obtain y e3 where "step_until_idle E e2 = Some (Ret y, e3)" "e' = e3\<lparr>e_finished := []\<rparr>"
    using assms a b by (auto simp: warmup_def split: prod.splits outcome.splits option.splits)
  then show ?thesis using warmup_batch_ids [OF b] add_all_accounted [OF a] step_until_idle_accounted [of E e2 y e3]
    by (simp add: has_work_def)
qed

lemma drive_reports:
  assumes run: "drive E rc t0 pending completed e = Some (Ret c, e')" and start: "pending \<noteq> [] \<or> has_work e \<or> newly_finished e = []"
  shows "rids c = rids completed + rids pending + accounted e"
proof -
  let ?P = "\<lambda>pending completed e y. \<forall>c e'. y = (Ret c, e') \<longrightarrow> (pending \<noteq> [] \<or> has_work e \<or> newly_finished e = []) \<longrightarrow>
    rids c = rids completed + rids pending + accounted e"
  have "?P pending completed e y" if d: "drive E rc t0 pending completed e = Some y" for y
  proof (rule drive.raw_induct [where P = "\<lambda>E rc t0 p co e y. ?P p co e y", OF _ d], intro allI impI)
    fix f E rc t0 p co e y c e'
    assume IH: "\<And>E rc t0 p co e y. f E rc t0 p co e = Some y \<Longrightarrow> ?P p co e y" and y: "y = (Ret c, e')"
      and start: "p \<noteq> [] \<or> has_work e \<or> newly_finished e = []"
      and body: "(if p = [] \<and> \<not> has_work e then Some (Ret co, e)
      else (case perf_counter E e of (now, e) \<Rightarrow>
        if now - t0 > timeout_seconds rc then Some (Raise TimeoutError, e)
        else (case submit_due E now p e of
                (Raise x, e) \<Rightarrow> Some (Raise x, e)
              | (Ret pending, e) \<Rightarrow>
                  if has_work e
                  then (case step E e of
                          (Raise x, e) \<Rightarrow> Some (Raise x, e)
                        | (Ret _, e) \<Rightarrow> (case drain_finished e of (fin, e) \<Rightarrow> f E rc t0 pending (co @ fin) (e\<lparr>emitted := []\<rparr>)))
                  else (case drain_finished e of (fin, e) \<Rightarrow> f E rc t0 pending (co @ fin) e)))) = Some y"
    show "rids c = rids co + rids p + accounted e"
    proof (cases "p = [] \<and> \<not> has_work e")
      case True
      then show ?thesis using body y start by (simp add: idle_accounted)
    next
      case False
      obtain now e1 where e1: "perf_counter E e = (now, e1)" by force
      obtain rest e2 where e2: "submit_due E now p e1 = (Ret rest, e2)"
        using body y False e1 by (auto split: prod.splits outcome.splits if_splits)
      have acc: "rids rest + accounted e2 = rids p + accounted e" using submit_due_accounted [OF e2] perf_counter_accounted [OF e1] by simp
      obtain e3 where e3: "accounted e3 = accounted e2" "\<exists>fin e4. drain_finished e3 = (fin, e4) \<and>
          (f E rc t0 rest (co @ fin) e4 = Some y \<or> f E rc t0 rest (co @ fin) (e4\<lparr>emitted := []\<rparr>) = Some y)"
      proof (cases "has_work e2")
        case True
        then obtain d e3 where "step E e2 = (Ret d, e3)"
          using body y False e1 e2 by (auto split: prod.splits outcome.splits if_splits)
        then show ?thesis using that [of e3] True body y False e1 e2 step_accounted by (auto split: prod.splits if_splits)
      next
        case idle: False
        then show ?thesis using that [of e2] body y False e1 e2 by (auto split: prod.splits if_splits)
      qed
      then obtain fin e4 e5 where e4: "drain_finished e3 = (fin, e4)" "f E rc t0 rest (co @ fin) e5 = Some y" "e5 = e4 \<or> e5 = e4\<lparr>emitted := []\<rparr>"
        by auto
      have "newly_finished e5 = []" "rids fin + accounted e5 = accounted e3" using drain_accounted [OF e4(1)] e4(3) by auto
      then have "rids c = rids (co @ fin) + rids rest + accounted e5" using IH [OF e4(2)] y by blast
      then show ?thesis using acc e3(1) \<open>rids fin + accounted e5 = accounted e3\<close> by (simp add: ac_simps) (metis add.assoc add.commute)
    qed
  qed
  then show ?thesis using run start by blast
qed

text \<open>C38: a benchmark run reports every request once, and its warm-up with them. When a run of at least one request on an idle engine
  returns, the requests of the result are the requests submitted together with the throwaway requests of the warm-up:
  \<^verbatim>\<open>warmup\<close> clears the engine's history, but their outcomes still wait in \<^verbatim>\<open>_newly_finished\<close> and the first drain of the run
  collects them.\<close>

theorem runner_reports_warmup:
  assumes "accounted e = {#}" and "requests \<noteq> []" and "bench_run E R rid rc vsize requests e = Some (Ret result, e')"
  shows "rids (rr_requests result) = rids requests + mset (map rid [0..<warmup_requests rc])"
proof -
  obtain e1 where w: "warmup E R rid rc vsize e = Some (Ret (), e1)"
    using assms(3) by (auto simp: bench_run_def split: option.splits prod.splits outcome.splits)
  obtain t0 e2 where t: "perf_counter E e1 = (t0, e2)" by force
  obtain c e3 where d: "drive E rc t0 (rebase t0 requests) [] e2 = Some (Ret c, e3)" "rr_requests result = c"
    using assms(3) w t by (auto simp: bench_run_def split: option.splits prod.splits outcome.splits)
  have "rids (rebase t0 requests) = rids requests" by (simp add: rebase_def rids_def comp_def)
  moreover have "rids c = rids (rebase t0 requests) + accounted e2"
    using drive_reports [OF d(1)] assms(2) by (simp add: rebase_def)
  ultimately show ?thesis using warmup_accounted [OF w] perf_counter_accounted [OF t] assms(1) d(2) by simp
qed

text \<open>An engine whose admission control turns everything away returns at once.\<close>

definition refuses :: "engine \<Rightarrow> bool" where
  "refuses e \<longleftrightarrow> \<not> has_work e \<and> (\<exists>a. admission_ctl e = Some a \<and> max_queue_depth (adm_cfg a) = Some 0)"

lemma add_request_refused:
  assumes "refuses e"
  shows "\<exists>e'. add_request E r e = (Ret (), e') \<and> refuses e' \<and> e_clock e' = e_clock e + 2"
proof -
  obtain a where a: "admission_ctl e = Some a" "max_queue_depth (adm_cfg a) = Some 0" "\<not> has_work e" using assms by (auto simp: refuses_def)
  define a' where "a' = snd (admit r (length (waiting e)) (sum_list (map (\<lambda>r. max_tokens (params r)) (waiting e)))
    (sum_list (map (\<lambda>s. max_tokens (params (sq_request s)) - int (output_len (sq_request s))) (running e))) (clk E (e_clock e)) a)"
  have "max_queue_depth (adm_cfg a') = Some 0" using a by (simp add: a'_def admit_def on_stats_def Let_def)
  then show ?thesis
    using a by (auto simp: add_request_def perf_counter_def admit_def on_stats_def Let_def finish_now_unfold record_finished_def refuses_def has_work_def)
qed

definition refusing_engine :: engine where
  "refusing_engine = new_engine demo_model (new_rope 16 128 10000) (new_pool [] TINY 4 2 2) 0 8 1 True
     (Some (default_admission_config\<lparr>max_queue_depth := Some 0\<rparr>)) 8"

theorem runner_reports_warmup_witness:
  "\<exists>result e'. bench_run \<lparr>clk = real, hash2 = demo_hash, smp = first_sampler\<rparr> demo_rng (\<lambda>i. ''warm'') (default_runner\<lparr>warmup_requests := 1\<rparr>) 8192
      [new_request [1] default_params ''a'' 0 None] refusing_engine = Some (Ret result, e') \<and>
    rids (rr_requests result) = {#''a'', ''warm''#}"
proof -
  let ?E = "\<lparr>clk = real, hash2 = demo_hash, smp = first_sampler\<rparr>" and ?rc = "default_runner\<lparr>warmup_requests := 1\<rparr>"
  have ref: "refuses refusing_engine" "accounted refusing_engine = {#}"
    by (simp_all add: refusing_engine_def refuses_def new_engine_def has_work_def new_admission_def accounted_def)
  have idle: "step_until_idle ?E e = Some (Ret (), e)" if "refuses e" for e
    using that by (subst step_until_idle.simps) (simp add: refuses_def)
  obtain reqs e1 where b: "warmup_batch ?E demo_rng (\<lambda>i. ''warm'') ?rc 8192 [0] (default_rng demo_rng 1234) refusing_engine = (Ret [reqs], e1)" "refuses e1"
    using ref(1) by (simp add: demo_rng_def perf_counter_def refuses_def has_work_def)
  obtain e2 where e2: "add_request ?E reqs e1 = (Ret (), e2)" "refuses e2" using add_request_refused [OF b(2)] by blast
  have w: "warmup ?E demo_rng (\<lambda>i. ''warm'') ?rc 8192 refusing_engine = Some (Ret (), e2\<lparr>e_finished := []\<rparr>)"
    using b e2 idle by (simp add: warmup_def)
  define e3 where "e3 = e2\<lparr>e_finished := [], e_clock := Suc (e_clock e2)\<rparr>"
  have e3: "refuses e3" using e2(2) by (simp add: e3_def refuses_def has_work_def)
  define e4 where "e4 = e3\<lparr>e_clock := Suc (e_clock e3)\<rparr>"
  have e4: "refuses e4" using e3 by (simp add: e4_def refuses_def has_work_def)
  let ?r = "rebase (real (e_clock e2)) [new_request [1] default_params ''a'' 0 None] ! 0"
  obtain e5 where e5: "add_request ?E ?r e4 = (Ret (), e5)" "refuses e5"
    using add_request_refused [OF e4] by blast
  define e6 where "e6 = snd (drain_finished e5)"
  have e6: "refuses e6" using e5(2) by (simp add: e6_def drain_finished_def refuses_def has_work_def)
  have last: "drive ?E ?rc t [] c e6 = Some (Ret c, e6)" for t c using e6 by (subst drive.simps) (simp add: refuses_def)
  have "drive ?E ?rc (real (e_clock e2)) (rebase (real (e_clock e2)) [new_request [1] default_params ''a'' 0 None]) [] e3 =
      Some (Ret (newly_finished e5), e6)"
    using e5 e3 last by (subst drive.simps)
      (simp add: rebase_def new_request_def perf_counter_def e3_def e4_def e6_def drain_finished_def default_runner_def refuses_def)
  then obtain result e' where run: "bench_run ?E demo_rng (\<lambda>i. ''warm'') ?rc 8192 [new_request [1] default_params ''a'' 0 None] refusing_engine = Some (Ret result, e')"
    using w by (simp add: bench_run_def perf_counter_def e3_def)
  then show ?thesis using runner_reports_warmup [OF ref(2) _ run] by (auto simp: new_request_def add_mset_commute)
qed

end
