(* ===== verification/Bench_Metrics.thy ===== *)
theory Bench_Metrics
  imports Types Quant "HOL-Library.AList"
begin

text \<open>
  Turning runs into numbers: \<^verbatim>\<open>bench/metrics.py\<close> for the engine benchmarks, and the client-side statistics of
  \<^verbatim>\<open>bench/chaos/harness.py\<close>. numpy's \<^verbatim>\<open>percentile\<close> is the parameter \<open>pct\<close>, its \<^verbatim>\<open>std\<close> and \<^verbatim>\<open>median\<close> are \<open>sd\<close> and \<open>med\<close>. The environment
  record and the printed tables are not modelled.

  \<open>representative_is_median\<close>: the run \<^verbatim>\<open>aggregate\<close> picks has median throughput. \<open>goodput_bounded\<close>: goodput never exceeds throughput.
  \<open>percentile_observed\<close> and \<open>percentile_above_nearest_rank\<close>: the harness's percentile is an observation, but not always the one
  of nearest rank.
\<close>

section \<open>Percentiles and the summary of a run\<close>

record percentile_stats =
  ps_points :: "(nat \<times> real option) list"
  ps_mean :: "real option"
  ps_min :: "real option"
  ps_max :: "real option"
  ps_n :: nat

definition percentiles :: "(real list \<Rightarrow> nat \<Rightarrow> real) \<Rightarrow> real list \<Rightarrow> nat list \<Rightarrow> percentile_stats" where
  "percentiles pct values ps =
     (if values = [] then \<lparr>ps_points = map (\<lambda>p. (p, None)) ps, ps_mean = None, ps_min = None, ps_max = None, ps_n = 0\<rparr>
      else \<lparr>ps_points = map (\<lambda>p. (p, Some (pct values p))) ps, ps_mean = Some (sum_list values / real (length values)),
            ps_min = Some (Min (set values)), ps_max = Some (Max (set values)), ps_n = length values\<rparr>)"

definition POINTS :: "nat list" where
  "POINTS = [50, 90, 95, 99]"

record run_summary =
  rs_engine :: string
  rs_wall_seconds :: real
  rs_submitted :: nat
  rs_completed :: nat
  rs_rejected :: nat
  rs_prompt_tokens :: nat
  rs_output_tokens :: nat
  rs_output_tokens_per_s :: real
  rs_total_tokens_per_s :: real
  rs_requests_per_s :: real
  rs_goodput_per_s :: real
  rs_fraction_met_slo :: real
  rs_rejection_rate :: real
  rs_ttft :: percentile_stats
  rs_e2e :: percentile_stats
  rs_queue :: percentile_stats
  rs_inter_token :: percentile_stats
  rs_per_output_token :: percentile_stats

definition present :: "('a \<Rightarrow> 'b option) \<Rightarrow> 'a list \<Rightarrow> 'b list" where
  "present f xs = map (\<lambda>x. the (f x)) (filter (\<lambda>x. f x \<noteq> None) xs)"

definition rate :: "nat \<Rightarrow> real \<Rightarrow> real" where
  "rate n wall = (if wall \<noteq> 0 then real n / wall else 0)"

definition done_requests :: "request list \<Rightarrow> request list" where
  "done_requests rs = filter (\<lambda>r. finished_as r = Some EOS \<or> finished_as r = Some finish_reason.LENGTH) rs"

definition summary :: "(real list \<Rightarrow> nat \<Rightarrow> real) \<Rightarrow> string \<Rightarrow> real \<Rightarrow> request list \<Rightarrow> run_summary" where
  "summary pct name wall rs =
     (let fin = done_requests rs; rejected = filter (\<lambda>r. finished_as r = Some REJECTED) rs;
          out_tokens = sum_list (map output_len fin); prompt_tokens = sum_list (map prompt_len fin);
          norm = map (\<lambda>r. the (e2e_latency r) / real (output_len r)) (filter (\<lambda>r. e2e_latency r \<noteq> None \<and> output_len r \<noteq> 0) fin);
          met = filter met_deadline fin
      in \<lparr>rs_engine = name, rs_wall_seconds = py_round 4 wall, rs_submitted = length rs, rs_completed = length fin,
          rs_rejected = length rejected, rs_prompt_tokens = prompt_tokens, rs_output_tokens = out_tokens,
          rs_output_tokens_per_s = rate out_tokens wall, rs_total_tokens_per_s = rate (prompt_tokens + out_tokens) wall,
          rs_requests_per_s = rate (length fin) wall, rs_goodput_per_s = rate (length met) wall,
          rs_fraction_met_slo = (if fin \<noteq> [] then real (length met) / real (length fin) else 0),
          rs_rejection_rate = (if rs \<noteq> [] then real (length rejected) / real (length rs) else 0),
          rs_ttft = percentiles pct (present ttft fin) POINTS, rs_e2e = percentiles pct (present e2e_latency fin) POINTS,
          rs_queue = percentiles pct (present queue_time fin) POINTS,
          rs_inter_token = percentiles pct (concat (map inter_token_latencies fin)) POINTS,
          rs_per_output_token = percentiles pct norm POINTS\<rparr>)"

section \<open>Repeated runs\<close>

record spread =
  sp_median :: real
  sp_mean :: real
  sp_std :: real
  sp_min :: real
  sp_max :: real
  sp_cv :: real
  sp_values :: "real list"

definition spread_of :: "(real list \<Rightarrow> real) \<Rightarrow> (real list \<Rightarrow> real) \<Rightarrow> real list \<Rightarrow> spread" where
  "spread_of med sd vals =
     (let avg = sum_list vals / real (length vals)
      in \<lparr>sp_median = med vals, sp_mean = avg, sp_std = sd vals, sp_min = Min (set vals), sp_max = Max (set vals),
          sp_cv = (if avg \<noteq> 0 then sd vals / avg else 0), sp_values = vals\<rparr>)"

definition point :: "nat \<Rightarrow> percentile_stats \<Rightarrow> real option" where
  "point p s = (case map_of (ps_points s) p of Some v \<Rightarrow> v | None \<Rightarrow> None)"

text \<open>The tracked quantities: name, whether it is a tail percentile, and where it is read.\<close>

definition tracked :: "(string \<times> bool \<times> (run_summary \<Rightarrow> real option)) list" where
  "tracked =
     [(''output_tokens_per_s'', False, \<lambda>s. Some (rs_output_tokens_per_s s)), (''requests_per_s'', False, \<lambda>s. Some (rs_requests_per_s s)),
      (''goodput_per_s'', False, \<lambda>s. Some (rs_goodput_per_s s)), (''ttft_p50'', False, \<lambda>s. point 50 (rs_ttft s)),
      (''ttft_p99'', True, \<lambda>s. point 99 (rs_ttft s)), (''itl_p50'', False, \<lambda>s. point 50 (rs_inter_token s)),
      (''itl_p99'', True, \<lambda>s. point 99 (rs_inter_token s))]"

record aggregated =
  ag_repeats :: nat
  ag_representative :: run_summary
  ag_across_repeats :: "(string \<times> spread) list"
  ag_worst_cv :: real
  ag_stable :: bool

definition aggregate :: "(real list \<Rightarrow> real) \<Rightarrow> (real list \<Rightarrow> real) \<Rightarrow> run_summary list \<Rightarrow> aggregated outcome" where
  "aggregate med sd summaries =
     (if length summaries = 1
      then Ret \<lparr>ag_repeats = 1, ag_representative = summaries ! 0, ag_across_repeats = [], ag_worst_cv = 0, ag_stable = True\<rparr>
      else let plucked = map (\<lambda>(name, tail, get). (name, tail, present get summaries)) tracked;
               kept = filter (\<lambda>(name, tail, vals). vals \<noteq> []) plucked;
               stats = map (\<lambda>(name, tail, vals). (name, tail, spread_of med sd vals)) kept;
               worst_cv = foldl max 0 (map (\<lambda>(name, tail, s). sp_cv s) (filter (\<lambda>(name, tail, s). \<not> tail) stats));
               by_throughput = sort_key rs_output_tokens_per_s summaries
           in if by_throughput = [] then Raise IndexError
              else Ret \<lparr>ag_repeats = length summaries, ag_representative = by_throughput ! (length by_throughput div 2),
                        ag_across_repeats = map (\<lambda>(name, tail, s). (name, s)) stats, ag_worst_cv = worst_cv, ag_stable = worst_cv < 5 / 100\<rparr>)"

section \<open>What clients observed\<close>

record request_outcome =
  ro_ok :: bool
  ro_started :: real
  ro_ttft :: "real option"
  ro_total :: "real option"
  ro_tokens :: nat
  ro_text :: string
  ro_error :: string
  ro_status :: nat

record load_stats =
  l_total :: nat
  l_ok :: nat
  l_failed :: nat
  l_errors :: "(string \<times> nat) list"
  ttft_p50 :: real
  ttft_p99 :: real
  latency_p50 :: real
  latency_p99 :: real

definition drop_rate :: "load_stats \<Rightarrow> real" where
  "drop_rate s = (if l_total s = 0 then 0 else real (l_failed s) / real (l_total s))"

definition percentile :: "real list \<Rightarrow> real \<Rightarrow> real" where
  "percentile values q =
     (if values = [] then 0
      else let ordered = sort values; n = int (length ordered);
               k = max 0 (min (n - 1) (round_half_even (q * real_of_int n + 0.5) - 1))
           in ordered ! nat k)"

text \<open>\<open>http n\<close> is the text of a status code, the rest of the f-string.\<close>

definition error_key :: "(nat \<Rightarrow> string) \<Rightarrow> request_outcome \<Rightarrow> string" where
  "error_key http o' = take 80 (if ro_error o' = [] then ''http '' @ http (ro_status o') else ro_error o')"

definition count_error :: "string \<Rightarrow> (string \<times> nat) list \<Rightarrow> (string \<times> nat) list" where
  "count_error key errs = AList.update key (case map_of errs key of None \<Rightarrow> 1 | Some n \<Rightarrow> n + 1) errs"

definition summarise_load :: "(nat \<Rightarrow> string) \<Rightarrow> request_outcome list \<Rightarrow> load_stats" where
  "summarise_load http outcomes =
     (let good = filter ro_ok outcomes; bad = filter (\<lambda>o'. \<not> ro_ok o') outcomes;
          ttfts = present ro_ttft good; totals = present ro_total good
      in \<lparr>l_total = length outcomes, l_ok = length good, l_failed = length bad,
          l_errors = fold (\<lambda>o'. count_error (error_key http o')) bad [],
          ttft_p50 = percentile ttfts 0.5, ttft_p99 = percentile ttfts 0.99, latency_p50 = percentile totals 0.5, latency_p99 = percentile totals 0.99\<rparr>)"

section \<open>Properties\<close>

lemma rate_mono: "a \<le> b \<Longrightarrow> 0 \<le> wall \<Longrightarrow> rate a wall \<le> rate b wall"
  by (auto simp: rate_def divide_right_mono)

lemma goodput_bounded:
  assumes "0 \<le> wall"
  shows "rs_goodput_per_s (summary pct name wall rs) \<le> rs_requests_per_s (summary pct name wall rs) \<and>
    0 \<le> rs_fraction_met_slo (summary pct name wall rs) \<and> rs_fraction_met_slo (summary pct name wall rs) \<le> 1 \<and>
    rs_completed (summary pct name wall rs) + rs_rejected (summary pct name wall rs) \<le> rs_submitted (summary pct name wall rs)"
proof -
  have "length (filter met_deadline (done_requests rs)) \<le> length (done_requests rs)" by simp
  moreover have "length (done_requests rs) + length (filter (\<lambda>r. finished_as r = Some REJECTED) rs) \<le> length rs"
    by (induction rs) (auto simp: done_requests_def)
  ultimately show ?thesis using assms by (auto simp: summary_def Let_def intro: rate_mono)
qed

lemma representative_is_median:
  assumes "aggregate med sd ss = Ret a" and "2 \<le> length ss"
  shows "ag_representative a \<in> set ss \<and>
    length ss div 2 + 1 \<le> length (filter (\<lambda>s. rs_output_tokens_per_s s \<le> rs_output_tokens_per_s (ag_representative a)) ss) \<and>
    length ss - length ss div 2 \<le> length (filter (\<lambda>s. rs_output_tokens_per_s (ag_representative a) \<le> rs_output_tokens_per_s s) ss)"
proof -
  let ?f = rs_output_tokens_per_s
  define xs where "xs = sort_key ?f ss"
  define m where "m = length xs div 2"
  have len: "length xs = length ss" "m < length xs" using assms(2) by (auto simp: xs_def m_def)
  have rep: "ag_representative a = xs ! m"
    using assms by (auto simp: aggregate_def Let_def xs_def m_def split: if_splits)
  have sorted: "sorted (map ?f xs)" by (simp add: xs_def)
  have perm: "length (filter P xs) = length (filter P ss)" for P
    by (metis mset_filter mset_sort size_mset xs_def)
  have "filter (\<lambda>s. ?f s \<le> ?f (xs ! m)) (take (m + 1) xs) = take (m + 1) xs"
    using sorted len by (auto simp: filter_id_conv in_set_conv_nth sorted_iff_nth_mono)
  then have "m + 1 \<le> length (filter (\<lambda>s. ?f s \<le> ?f (xs ! m)) (take (m + 1) xs @ drop (m + 1) xs))"
    using len by (simp del: append_take_drop_id)
  moreover have "filter (\<lambda>s. ?f (xs ! m) \<le> ?f s) (drop m xs) = drop m xs"
    using sorted len by (auto simp: filter_id_conv in_set_conv_nth sorted_iff_nth_mono)
  then have "length xs - m \<le> length (filter (\<lambda>s. ?f (xs ! m) \<le> ?f s) (take m xs @ drop m xs))"
    by (simp del: append_take_drop_id)
  moreover have "xs ! m \<in> set ss" using len nth_mem [of m xs] by (simp add: xs_def)
  ultimately show ?thesis using rep perm len by (simp add: m_def)
qed

lemma percentile_observed: "values \<noteq> [] \<Longrightarrow> percentile values q \<in> set values"
  by (auto simp: percentile_def Let_def nat_less_iff intro!: nth_mem [of _ "sort values", simplified])

lemma percentile_above_nearest_rank: "percentile [1, 2] (1 / 2) = 2"
  by (simp add: percentile_def round_half_even_def)

lemma load_counts: "l_ok (summarise_load http os) + l_failed (summarise_load http os) = l_total (summarise_load http os)"
  by (simp add: summarise_load_def Let_def sum_length_filter_compl)

end
