(* ===== verification/Discovery.thy ===== *)
theory Discovery
  imports Utf8 "HOL-Library.List_Lexorder"
begin

text \<open>
  \<^verbatim>\<open>engine/discovery.py\<close>: a replica keeps itself registered in etcd under a lease. The client is modelled down to the JSON
  it sends; the transport is a parameter, \<open>exchange\<close>, which is an HTTP POST and what \<^verbatim>\<open>json.loads\<close> makes of the first line
  of the answer (\<open>None\<close>: no answer, \<open>Some None\<close>: not JSON), threaded through a state \<open>'w\<close> of the outside world. Base64 and
  the strict UTF-8 decoder are those of Python's library. The queries of the stop event and the random jitter are
  functions of a call counter.

  \<open>lookup_lists_registered\<close> ties the pieces together: the prefix range, base64 and UTF-8 give back exactly the registered
  replicas. \<open>renewal_self_heals\<close> is about the renewal loop.
\<close>

datatype json = JNull | JBool bool | JNum int | JStr str | JArr "json list" | JObj "(string \<times> json) list"

definition lit :: "string \<Rightarrow> str" where
  "lit s = map of_char s"

definition REGISTRY_PREFIX :: str where
  "REGISTRY_PREFIX = lit ''/nanoserve/replicas/''"

section \<open>Base64 and the key range\<close>

definition b64_char :: "nat \<Rightarrow> nat" where
  "b64_char i = (if i < 26 then 65 + i else if i < 52 then 97 + (i - 26) else if i < 62 then 48 + (i - 52)
     else if i = 62 then 43 else 47)"

fun b64encode :: "bytes \<Rightarrow> str" where
  "b64encode [] = []"
| "b64encode [a] = [b64_char (a div 4), b64_char (a mod 4 * 16), 61, 61]"
| "b64encode [a, b] = [b64_char (a div 4), b64_char (a mod 4 * 16 + b div 16), b64_char (b mod 16 * 4), 61]"
| "b64encode (a # b # c # rest) =
     b64_char (a div 4) # b64_char (a mod 4 * 16 + b div 16) # b64_char (b mod 16 * 4 + c div 64) # b64_char (c mod 64) #
     b64encode rest"

definition b64_val :: "nat \<Rightarrow> nat option" where
  "b64_val c = (if 65 \<le> c \<and> c < 91 then Some (c - 65) else if 97 \<le> c \<and> c < 123 then Some (c - 97 + 26)
     else if 48 \<le> c \<and> c < 58 then Some (c - 48 + 52) else if c = 43 then Some 62 else if c = 47 then Some 63 else None)"

text \<open>\<^verbatim>\<open>binascii.a2b_base64\<close> in its default, lenient mode: position in the quadruple, bits left over, pads seen.\<close>

fun a2b_base64 :: "nat \<Rightarrow> nat \<Rightarrow> nat \<Rightarrow> str \<Rightarrow> bytes outcome" where
  "a2b_base64 quad left pads [] = (if quad = 0 then Ret [] else Raise (ValueError ''Incorrect padding''))"
| "a2b_base64 quad left pads (c # cs) =
     (if c = 61
      then (if 2 \<le> quad \<and> 4 \<le> quad + pads + 1 then Ret []
            else a2b_base64 quad left (if 2 \<le> quad then pads + 1 else pads) cs)
      else case b64_val c of
        None \<Rightarrow> a2b_base64 quad left pads cs
      | Some v \<Rightarrow>
          (if quad = 0 then a2b_base64 1 v 0 cs
           else let (byte, quad, left) =
                  (if quad = 1 then (left * 4 + v div 16, 2, v mod 16)
                   else if quad = 2 then (left * 16 + v div 4, 3, v mod 4)
                   else (left * 64 + v, 0, 0))
                in (case a2b_base64 quad left 0 cs of Ret bs \<Rightarrow> Ret (byte # bs) | Raise x \<Rightarrow> Raise x)))"

definition str_decode_strict :: "bytes \<Rightarrow> str outcome" where
  "str_decode_strict bs =
     (let s = str_decode bs in if str_encode s = Ret bs then Ret s else Raise (ValueError ''invalid utf-8''))"

definition b64 :: "str \<Rightarrow> str outcome" where
  "b64 s = (case str_encode s of Ret bs \<Rightarrow> Ret (b64encode bs) | Raise x \<Rightarrow> Raise x)"

definition unb64 :: "str \<Rightarrow> str outcome" where
  "unb64 s =
     (if \<exists>c \<in> set s. 128 \<le> c then Raise (ValueError ''string argument should contain only ASCII characters'')
      else case a2b_base64 0 0 0 s of Ret bs \<Rightarrow> str_decode_strict bs | Raise x \<Rightarrow> Raise x)"

text \<open>The loop walks the bytes from the last one; \<open>None\<close> when all of them were \<^verbatim>\<open>0xFF\<close>.\<close>

fun range_end_loop :: "bytes \<Rightarrow> bytes option" where
  "range_end_loop [] = None"
| "range_end_loop (b # rev_front) =
     (if b < 255 then Some (rev ((b + 1) # rev_front)) else range_end_loop rev_front)"

definition range_end :: "str \<Rightarrow> str outcome" where
  "range_end prefix =
     (case str_encode prefix of
        Raise x \<Rightarrow> Raise x
      | Ret raw \<Rightarrow> (case range_end_loop (rev raw) of Some bs \<Rightarrow> Ret (b64encode bs) | None \<Rightarrow> b64 [0]))"

section \<open>The client\<close>

record 'w transport =
  exchange :: "str \<Rightarrow> (string \<times> json) list \<Rightarrow> 'w \<Rightarrow> json option option \<times> 'w"
  repr_of :: "json \<Rightarrow> str"

record etcd_client =
  endpoints :: "str list"
  turn :: nat

fun contains :: "str \<Rightarrow> str \<Rightarrow> bool" where
  "contains needle [] = (needle = [])"
| "contains needle (c # cs) = (take (length needle) (c # cs) = needle \<or> contains needle cs)"

definition normalise :: "str \<Rightarrow> str" where
  "normalise e =
     (let e = rev (dropWhile (\<lambda>c. c = 47) (rev (py_strip py_space e)))
      in if contains (lit ''://'') e then e else lit ''http://'' @ e)"

definition new_etcd_client :: "str list \<Rightarrow> etcd_client outcome" where
  "new_etcd_client es =
     (if es = [] then Raise (ValueError ''at least one etcd endpoint required'')
      else Ret \<lparr>endpoints = map normalise es, turn = 0\<rparr>)"

text \<open>\<^verbatim>\<open>dict.get\<close> on a JSON value.\<close>

definition json_get :: "string \<Rightarrow> json \<Rightarrow> json option outcome" where
  "json_get k j = (case j of JObj o1 \<Rightarrow> Ret (map_of (rev o1) k) | _ \<Rightarrow> Raise TypeError)"

fun post_loop ::
  "'w transport \<Rightarrow> str \<Rightarrow> (string \<times> json) list \<Rightarrow> nat list \<Rightarrow> etcd_client \<times> 'w \<Rightarrow> json outcome \<times> (etcd_client \<times> 'w)" where
  "post_loop T path body [] st = (Raise EtcdError, st)"
| "post_loop T path body (idx # rest) (c, w) =
     (case exchange T (endpoints c ! idx @ path) body w of
        (None, w) \<Rightarrow> post_loop T path body rest (c, w)
      | (Some None, w) \<Rightarrow> (Raise EtcdError, (c\<lparr>turn := idx\<rparr>, w))
      | (Some (Some parsed), w) \<Rightarrow>
          (case json_get ''result'' parsed of
             Raise x \<Rightarrow> (Raise x, (c\<lparr>turn := idx\<rparr>, w))
           | Ret None \<Rightarrow> (Ret parsed, (c\<lparr>turn := idx\<rparr>, w))
           | Ret (Some r) \<Rightarrow> (Ret r, (c\<lparr>turn := idx\<rparr>, w))))"

definition post ::
  "'w transport \<Rightarrow> str \<Rightarrow> (string \<times> json) list \<Rightarrow> etcd_client \<times> 'w \<Rightarrow> json outcome \<times> (etcd_client \<times> 'w)" where
  "post T path body st =
     (let c = fst st; n = length (endpoints c)
      in post_loop T path body (map (\<lambda>attempt. (turn c + attempt) mod n) [0..<n]) st)"

definition int_str :: "int \<Rightarrow> str" where
  "int_str i = (if i < 0 then 45 # nat_str (nat (- i)) else nat_str (nat i))"

text \<open>\<^verbatim>\<open>str(x)\<close> of a JSON value; the \<^verbatim>\<open>repr\<close> of a list or a dictionary belongs to the transport record.\<close>

definition py_str :: "'w transport \<Rightarrow> json \<Rightarrow> str" where
  "py_str T j = (case j of JNull \<Rightarrow> lit ''None'' | JBool b \<Rightarrow> (if b then lit ''True'' else lit ''False'') | JNum i \<Rightarrow> int_str i
     | JStr s \<Rightarrow> s | _ \<Rightarrow> repr_of T j)"

text \<open>\<^verbatim>\<open>int(x)\<close>: a number, or decimal digits with an optional sign.\<close>

definition py_int :: "json \<Rightarrow> int outcome" where
  "py_int j =
     (case j of
        JNum i \<Rightarrow> Ret i
      | JBool b \<Rightarrow> Ret (if b then 1 else 0)
      | JStr s \<Rightarrow>
          (case int_literal s of Some i \<Rightarrow> Ret i | None \<Rightarrow> Raise (ValueError ''invalid literal for int()''))
      | _ \<Rightarrow> Raise TypeError)"

definition truthy :: "json \<Rightarrow> bool" where
  "truthy j = (case j of JNull \<Rightarrow> False | JBool b \<Rightarrow> b | JNum i \<Rightarrow> i \<noteq> 0 | JStr s \<Rightarrow> s \<noteq> [] | JArr xs \<Rightarrow> xs \<noteq> [] | JObj kvs \<Rightarrow> kvs \<noteq> [])"

definition grant :: "'w transport \<Rightarrow> int \<Rightarrow> etcd_client \<times> 'w \<Rightarrow> json outcome \<times> (etcd_client \<times> 'w)" where
  "grant T ttl st =
     bindS (post T (lit ''/v3/lease/grant'') [(''TTL'', JStr (int_str ttl))] st)
       (\<lambda>resp st. case json_get ''ID'' resp of
          Raise x \<Rightarrow> (Raise x, st)
        | Ret None \<Rightarrow> (Raise EtcdError, st)
        | Ret (Some lease) \<Rightarrow> if \<not> truthy lease \<or> lease = JStr (lit ''0'') then (Raise EtcdError, st) else (Ret lease, st))"

definition put :: "'w transport \<Rightarrow> str \<Rightarrow> str \<Rightarrow> json option \<Rightarrow> etcd_client \<times> 'w \<Rightarrow> unit outcome \<times> (etcd_client \<times> 'w)" where
  "put T key val lease st =
     (case b64 key of
        Raise x \<Rightarrow> (Raise x, st)
      | Ret k \<Rightarrow>
          (case b64 val of
             Raise x \<Rightarrow> (Raise x, st)
           | Ret v \<Rightarrow>
               bindS (post T (lit ''/v3/kv/put'')
                       ([(''key'', JStr k), (''value'', JStr v)] @
                        (case lease of None \<Rightarrow> [] | Some l \<Rightarrow> [(''lease'', JStr (py_str T l))])) st)
                 (\<lambda>_ st. (Ret (), st))))"

definition keepalive :: "'w transport \<Rightarrow> json \<Rightarrow> etcd_client \<times> 'w \<Rightarrow> bool outcome \<times> (etcd_client \<times> 'w)" where
  "keepalive T lease st =
     bindS (post T (lit ''/v3/lease/keepalive'') [(''ID'', JStr (py_str T lease))] st)
       (\<lambda>resp st. case json_get ''TTL'' resp of
          Raise x \<Rightarrow> (Raise x, st)
        | Ret ttl \<Rightarrow> (case py_int (case ttl of None \<Rightarrow> JNum 0 | Some v \<Rightarrow> v) of Raise x \<Rightarrow> (Raise x, st) | Ret n \<Rightarrow> (Ret (0 < n), st)))"

definition revoke :: "'w transport \<Rightarrow> json \<Rightarrow> etcd_client \<times> 'w \<Rightarrow> unit outcome \<times> (etcd_client \<times> 'w)" where
  "revoke T lease st =
     bindS (post T (lit ''/v3/kv/lease/revoke'') [(''ID'', JStr (py_str T lease))] st) (\<lambda>_ st. (Ret (), st))"

text \<open>The dictionary is built in the order of the answer; a later entry replaces an earlier one with the same key.\<close>

definition dict_put :: "'k \<Rightarrow> 'v \<Rightarrow> ('k \<times> 'v) list \<Rightarrow> ('k \<times> 'v) list" where
  "dict_put k v d = (if k \<in> fst ` set d then map (\<lambda>(a, b). if a = k then (k, v) else (a, b)) d else d @ [(k, v)])"

definition kv_pair :: "json \<Rightarrow> (str \<times> str) outcome" where
  "kv_pair kv =
     (case kv of
        JObj o1 \<Rightarrow>
          (case map_of (rev o1) ''key'' of
             None \<Rightarrow> Raise KeyError
           | Some (JStr k) \<Rightarrow>
               (case unb64 k of
                  Raise x \<Rightarrow> Raise x
                | Ret key \<Rightarrow>
                    (case (case map_of (rev o1) ''value'' of None \<Rightarrow> JStr [] | Some v \<Rightarrow> v) of
                       JStr v \<Rightarrow> (case unb64 v of Raise x \<Rightarrow> Raise x | Ret val \<Rightarrow> Ret (key, val))
                     | _ \<Rightarrow> Raise TypeError))
           | Some _ \<Rightarrow> Raise TypeError)
      | _ \<Rightarrow> Raise TypeError)"

fun kv_dict :: "json list \<Rightarrow> (str \<times> str) list \<Rightarrow> (str \<times> str) list outcome" where
  "kv_dict [] d = Ret d"
| "kv_dict (kv # kvs) d = (case kv_pair kv of Raise x \<Rightarrow> Raise x | Ret (k, v) \<Rightarrow> kv_dict kvs (dict_put k v d))"

definition get_prefix ::
  "'w transport \<Rightarrow> str \<Rightarrow> etcd_client \<times> 'w \<Rightarrow> (str \<times> str) list outcome \<times> (etcd_client \<times> 'w)" where
  "get_prefix T prefix st =
     (case b64 prefix of
        Raise x \<Rightarrow> (Raise x, st)
      | Ret k \<Rightarrow>
          (case range_end prefix of
             Raise x \<Rightarrow> (Raise x, st)
           | Ret e \<Rightarrow>
               bindS (post T (lit ''/v3/kv/range'') [(''key'', JStr k), (''range_end'', JStr e)] st)
                 (\<lambda>resp st. case json_get ''kvs'' resp of
                    Raise x \<Rightarrow> (Raise x, st)
                  | Ret None \<Rightarrow> (Ret [], st)
                  | Ret (Some (JArr kvs)) \<Rightarrow> (kv_dict kvs [], st)
                  | Ret (Some _) \<Rightarrow> (Raise TypeError, st))))"

definition lookup :: "'w transport \<Rightarrow> str list \<Rightarrow> 'w \<Rightarrow> (str \<times> str) list outcome \<times> 'w" where
  "lookup T es w =
     (case new_etcd_client es of
        Raise x \<Rightarrow> (Raise x, w)
      | Ret c \<Rightarrow>
          (case get_prefix T REGISTRY_PREFIX (c, w) of
             (Raise x, (_, w)) \<Rightarrow> (Raise x, w)
           | (Ret raw, (_, w)) \<Rightarrow> (Ret (foldl (\<lambda>d (k, v). dict_put (drop (length REGISTRY_PREFIX) k) v d) [] raw), w)))"

section \<open>Registration\<close>

text \<open>\<open>stop_env\<close>: what the \<open>n\<close>-th query of the stop event (\<^verbatim>\<open>wait\<close> or \<^verbatim>\<open>is_set\<close>) returns, and the \<open>n\<close>-th draw of
  \<^verbatim>\<open>random.random()\<close>. The waits asked for are recorded in \<open>rg_waits\<close>. The log is not modelled.\<close>

record stop_env =
  stop_seen :: "nat \<Rightarrow> bool"
  jitter :: "nat \<Rightarrow> real"

record registration_config =
  rc_endpoints :: "str list"
  replica_id :: str
  rc_addr :: str
  ttl_seconds :: int

record registration =
  rg_cfg :: registration_config
  rg_client :: etcd_client
  rg_key :: str
  rg_lease :: "json option"
  rg_stop :: bool
  reannounce_count :: nat
  rg_queries :: nat
  rg_draws :: nat
  rg_waits :: "real list"


definition with_client ::
  "(etcd_client \<times> 'w \<Rightarrow> 'a outcome \<times> (etcd_client \<times> 'w)) \<Rightarrow> registration \<times> 'w \<Rightarrow> 'a outcome \<times> (registration \<times> 'w)" where
  "with_client f st =
     (case st of (rg, w) \<Rightarrow> (case f (rg_client rg, w) of (r, (c, w)) \<Rightarrow> (r, (rg\<lparr>rg_client := c\<rparr>, w))))"

definition announce :: "'w transport \<Rightarrow> registration \<times> 'w \<Rightarrow> unit outcome \<times> (registration \<times> 'w)" where
  "announce T st =
     bindS (with_client (grant T (ttl_seconds (rg_cfg (fst st)))) st)
       (\<lambda>lease st. bindS (with_client (put T (rg_key (fst st)) (rc_addr (rg_cfg (fst st))) (Some lease)) st)
         (\<lambda>_ (rg, w). (Ret (), (rg\<lparr>rg_lease := Some lease\<rparr>, w))))"

definition stop_is_set :: "stop_env \<Rightarrow> registration \<Rightarrow> bool \<times> registration" where
  "stop_is_set E rg = (stop_seen E (rg_queries rg), rg\<lparr>rg_queries := Suc (rg_queries rg)\<rparr>)"

definition stop_wait :: "stop_env \<Rightarrow> real \<Rightarrow> registration \<Rightarrow> bool \<times> registration" where
  "stop_wait E seconds rg = stop_is_set E (rg\<lparr>rg_waits := rg_waits rg @ [seconds]\<rparr>)"

text \<open>The inner loop of \<^verbatim>\<open>_renew_forever\<close>: the backoff to go on with, or \<open>None\<close> when the thread returns.\<close>

partial_function (option) reannounce ::
  "'w transport \<Rightarrow> stop_env \<Rightarrow> real \<Rightarrow> registration \<times> 'w \<Rightarrow> (real option outcome \<times> (registration \<times> 'w)) option" where
  "reannounce T E backoff st =
     (case st of (rg, w) \<Rightarrow>
        (case stop_is_set E rg of (stopped, rg) \<Rightarrow>
           if stopped then Some (Ret (Some backoff), (rg, w))
           else (case announce T (rg, w) of
                   (Ret _, (rg, w)) \<Rightarrow> Some (Ret (Some (1 / 2)), (rg\<lparr>reannounce_count := reannounce_count rg + 1\<rparr>, w))
                 | (Raise x, (rg, w)) \<Rightarrow>
                     if x \<noteq> EtcdError then Some (Raise x, (rg, w))
                     else (case stop_wait E (backoff * (1 / 2 + jitter E (rg_draws rg))) (rg\<lparr>rg_draws := Suc (rg_draws rg)\<rparr>) of
                             (stopped, rg) \<Rightarrow>
                               if stopped then Some (Ret None, (rg, w))
                               else reannounce T E (min (backoff * 2) (real_of_int (ttl_seconds (rg_cfg rg)))) (rg, w)))))"

text \<open>One turn of the outer loop, after its wait.\<close>

definition renew_turn ::
  "'w transport \<Rightarrow> stop_env \<Rightarrow> real \<Rightarrow> registration \<times> 'w \<Rightarrow> (real option outcome \<times> (registration \<times> 'w)) option" where
  "renew_turn T E backoff st =
     (case (case rg_lease (fst st) of None \<Rightarrow> (Ret False, st) | Some lease \<Rightarrow> with_client (keepalive T lease) st) of
        (Raise x, st) \<Rightarrow> if x = EtcdError then reannounce T E backoff st else Some (Raise x, st)
      | (Ret alive, st) \<Rightarrow> if alive then Some (Ret (Some (1 / 2)), st) else reannounce T E backoff st)"

partial_function (option) renew_loop ::
  "'w transport \<Rightarrow> stop_env \<Rightarrow> real \<Rightarrow> real \<Rightarrow> registration \<times> 'w \<Rightarrow> (unit outcome \<times> (registration \<times> 'w)) option" where
  "renew_loop T E interval backoff st =
     (case st of (rg, w) \<Rightarrow>
        (case stop_wait E interval rg of (stopped, rg) \<Rightarrow>
           if stopped then Some (Ret (), (rg, w))
           else (case renew_turn T E backoff (rg, w) of
                   None \<Rightarrow> None
                 | Some (Raise x, st) \<Rightarrow> Some (Raise x, st)
                 | Some (Ret None, st) \<Rightarrow> Some (Ret (), st)
                 | Some (Ret (Some backoff), st) \<Rightarrow> renew_loop T E interval backoff st)))"

definition renew_forever ::
  "'w transport \<Rightarrow> stop_env \<Rightarrow> registration \<times> 'w \<Rightarrow> (unit outcome \<times> (registration \<times> 'w)) option" where
  "renew_forever T E st = renew_loop T E (max 1 (real_of_int (ttl_seconds (rg_cfg (fst st))) / 3)) (1 / 2) st"

definition stop_registration :: "'w transport \<Rightarrow> registration \<times> 'w \<Rightarrow> unit outcome \<times> (registration \<times> 'w)" where
  "stop_registration T st =
     (case st of (rg, w) \<Rightarrow>
        let rg = rg\<lparr>rg_stop := True\<rparr> in
        (case rg_lease rg of
           None \<Rightarrow> (Ret (), (rg, w))
         | Some lease \<Rightarrow>
             (case with_client (revoke T lease) (rg, w) of
                (Raise x, (rg, w)) \<Rightarrow> if x = EtcdError then (Ret (), (rg\<lparr>rg_lease := None\<rparr>, w)) else (Raise x, (rg, w))
              | (Ret _, (rg, w)) \<Rightarrow> (Ret (), (rg\<lparr>rg_lease := None\<rparr>, w)))))"

section \<open>Round trips\<close>

lemma b64_char_val: "i < 64 \<Longrightarrow> b64_val (b64_char i) = Some i \<and> b64_char i \<noteq> 61 \<and> b64_char i < 128"
  by (auto simp: b64_char_def b64_val_def)

lemma sextets:
  fixes a b c :: nat
  assumes "a < 256" "b < 256" "c < 256"
  shows "a div 4 < 64" "a mod 4 * 16 + b div 16 < 64" "b mod 16 * 4 + c div 64 < 64" "c mod 64 < 64"
    "a mod 4 * 16 < 64" "b mod 16 * 4 < 64"
    "a div 4 * 4 + (a mod 4 * 16 + b div 16) div 16 = a" "(a mod 4 * 16 + b div 16) mod 16 = b div 16"
    "b div 16 * 16 + (b mod 16 * 4 + c div 64) div 4 = b" "(b mod 16 * 4 + c div 64) mod 4 = c div 64"
    "c div 64 * 64 + c mod 64 = c" "b div 16 mod 16 = b div 16"
  using assms by auto

lemma a2b_b64encode: "\<forall>b \<in> set bs. b < 256 \<Longrightarrow> a2b_base64 0 0 0 (b64encode bs) = Ret bs"
proof (induction bs rule: b64encode.induct)
  case (2 a)
  then show ?case using sextets [of a 0 0] b64_char_val [of "a div 4"] b64_char_val [of "a mod 4 * 16"] by simp
next
  case (3 a b)
  then show ?case
    using sextets [of a b 0] b64_char_val [of "a div 4"] b64_char_val [of "a mod 4 * 16 + b div 16"] b64_char_val [of "b mod 16 * 4"]
    by simp
next
  case (4 a b c rest)
  then show ?case
    using sextets [of a b c] b64_char_val [of "a div 4"] b64_char_val [of "a mod 4 * 16 + b div 16"]
      b64_char_val [of "b mod 16 * 4 + c div 64"] b64_char_val [of "c mod 64"]
    by simp
qed simp

lemma b64encode_ascii: "\<forall>b \<in> set bs. b < 256 \<Longrightarrow> c \<in> set (b64encode bs) \<Longrightarrow> c < 128"
proof (induction bs rule: b64encode.induct)
  case (2 a)
  then show ?case using sextets [of a 0 0] b64_char_val by auto
next
  case (3 a b)
  then show ?case using sextets [of a b 0] b64_char_val by auto
next
  case (4 a b c rest)
  then show ?case using sextets [of a b c] b64_char_val by auto
qed simp

definition utf8 :: "str \<Rightarrow> bytes" where
  "utf8 s = concat (map utf8_char s)"

definition scalars :: "str \<Rightarrow> bool" where
  "scalars s \<longleftrightarrow> (\<forall>c \<in> set s. scalar c)"

lemma str_encode_utf8: "scalars s \<Longrightarrow> str_encode s = Ret (utf8 s)"
  by (simp add: str_encode_def scalars_def utf8_def)

lemma utf8_bytes: "scalars s \<Longrightarrow> b \<in> set (utf8 s) \<Longrightarrow> b < 256"
  by (auto simp: scalars_def utf8_def utf8_char_bytes)

lemma str_decode_utf8: "scalars s \<Longrightarrow> str_decode (utf8 s @ bs) = s @ str_decode bs"
  by (induction s) (simp_all add: scalars_def utf8_def str_decode_char)

lemma unb64_b64encode:
  assumes "scalars s"
  shows "unb64 (b64encode (utf8 s)) = Ret s"
proof -
  have "str_decode (utf8 s) = s" using str_decode_utf8 [OF assms, of "[]"] by simp
  then show ?thesis
    using b64encode_ascii [of "utf8 s"] utf8_bytes [OF assms] str_encode_utf8 [OF assms]
    by (fastforce simp: unb64_def a2b_b64encode str_decode_strict_def)
qed

text \<open>A byte prefix of an encoded key is a prefix of the key.\<close>

lemma utf8_prefix:
  assumes "scalars p" and "scalars k"
  shows "take (length (utf8 p)) (utf8 k) = utf8 p \<longleftrightarrow> take (length p) k = p"
proof
  assume "take (length (utf8 p)) (utf8 k) = utf8 p"
  then obtain rest where "utf8 k = utf8 p @ rest" by (metis append_take_drop_id)
  then have "k = p @ str_decode rest"
    using str_decode_utf8 [OF assms(1), of rest] str_decode_utf8 [OF assms(2), of "[]"] by simp
  then show "take (length p) k = p" by simp
next
  assume "take (length p) k = p"
  then obtain rest where "k = p @ rest" by (metis append_take_drop_id)
  then show "take (length (utf8 p)) (utf8 k) = utf8 p" by (simp add: utf8_def)
qed

section \<open>The prefix range\<close>

lemma range_end_loop_Some:
  "range_end_loop rr = Some e \<Longrightarrow> \<exists>front b m. rev rr = front @ b # replicate m 255 \<and> e = front @ [b + 1] \<and> b < 255"
  if "\<forall>b \<in> set rr. b < 256"
  using that
proof (induction rr)
  case (Cons b rr)
  show ?case
  proof (cases "b < 255")
    case False
    then have "b = 255" using Cons.prems(2) by simp
    moreover obtain front c m where "rev rr = front @ c # replicate m 255" "e = front @ [c + 1]" "c < 255"
      using Cons False by auto
    ultimately have "rev (b # rr) = front @ c # replicate (Suc m) 255" by (simp add: replicate_append_same)
    then show ?thesis using \<open>e = front @ [c + 1]\<close> \<open>c < 255\<close> by blast
  qed (use Cons.prems in \<open>auto intro: exI [of _ "rev rr"] exI [of _ 0]\<close>)
qed simp

lemma top_bytes: "\<forall>b \<in> set k. b < 256 \<Longrightarrow> replicate m 255 \<le> k \<longleftrightarrow> take m k = replicate m (255 :: nat)"
proof (induction m arbitrary: k)
  case (Suc m)
  then show ?case by (cases k) auto
qed simp

text \<open>The half-open range covers exactly the keys with the prefix.\<close>

lemma range_is_prefix:
  assumes "range_end_loop (rev raw) = Some e" and "\<forall>b \<in> set raw. b < 256" and "\<forall>b \<in> set k. b < 256"
  shows "raw \<le> k \<and> k < e \<longleftrightarrow> take (length raw) k = raw"
proof -
  obtain front b m where f: "raw = front @ b # replicate m 255" "e = front @ [b + 1]"
    using range_end_loop_Some [of "rev raw" e] assms(1,2) by auto
  show ?thesis unfolding f using assms(3)
  proof (induction front arbitrary: k)
    case Nil
    then show ?case by (cases k) (auto simp: top_bytes)
  next
    case (Cons x front)
    then show ?case by (cases k) auto
  qed
qed

lemma utf8_range_end:
  assumes "scalars p" and "p \<noteq> []"
  shows "\<exists>e. range_end p = Ret (b64encode e) \<and> range_end_loop (rev (utf8 p)) = Some e"
proof -
  obtain q c where p: "p = q @ [c]" using assms(2) by (cases p rule: rev_cases) auto
  have c: "scalar c" using assms(1) p by (simp add: scalars_def)
  have "utf8_char c = butlast (utf8_char c) @ [last (utf8_char c)]" by simp
  moreover have "last (utf8_char c) < 255" using c lead_bounds(2) [of c] by (auto simp: utf8_char_def scalar_def)
  ultimately have "\<exists>e. range_end_loop (rev (utf8 p)) = Some e"
    unfolding p utf8_def by (metis map_append concat_append list.map concat.simps(1,2) append_Nil2 rev_append range_end_loop.simps(2)
      rev.simps append_Cons append_Nil)
  then show ?thesis using str_encode_utf8 [OF assms(1)] by (auto simp: range_end_def)
qed

section \<open>Reading the registry\<close>

text \<open>What etcd documents of a range request, for a store of byte keys and values: an endpoint that is up answers with the
  entries of the half-open range, base64 in \<^verbatim>\<open>key\<close> and \<^verbatim>\<open>value\<close>, leaving out empty values and an empty result (and
  adding fields of its own); an endpoint that is down does not answer.\<close>

definition kv_doc :: "json \<Rightarrow> bytes \<times> bytes \<Rightarrow> bool" where
  "kv_doc j kv \<longleftrightarrow> (\<exists>o1. j = JObj o1 \<and> map_of (rev o1) ''key'' = Some (JStr (b64encode (fst kv))) \<and>
     map_of (rev o1) ''value'' = (if snd kv = [] then None else Some (JStr (b64encode (snd kv)))))"

definition in_range :: "bytes \<Rightarrow> bytes \<Rightarrow> bytes \<Rightarrow> bool" where
  "in_range lo hi k \<longleftrightarrow> lo \<le> k \<and> (hi = [0] \<or> k < hi)"

definition etcd_doc :: "'w transport \<Rightarrow> (str \<Rightarrow> bool) \<Rightarrow> (bytes \<times> bytes) list \<Rightarrow> bool" where
  "etcd_doc T up store \<longleftrightarrow>
     (\<forall>u body w. \<not> up u \<longrightarrow> exchange T (u @ lit ''/v3/kv/range'') body w = (None, w)) \<and>
     (\<forall>u lo hi w. up u \<longrightarrow> (\<forall>b \<in> set (lo @ hi). b < 256) \<longrightarrow>
        (let sel = filter (\<lambda>kv. in_range lo hi (fst kv)) store in
         \<exists>o1 kvs. exchange T (u @ lit ''/v3/kv/range'') [(''key'', JStr (b64encode lo)), (''range_end'', JStr (b64encode hi))] w =
             (Some (Some (JObj o1)), w) \<and>
           map_of (rev o1) ''result'' = None \<and> map_of (rev o1) ''kvs'' = (if sel = [] then None else Some (JArr kvs)) \<and>
           list_all2 kv_doc kvs sel))"

lemma rotation_covers:
  assumes "i < n"
  shows "i \<in> set (map (\<lambda>a. (t + a) mod n) [0..<n])"
proof -
  let ?a = "(i + n - t mod n) mod n"
  have le: "t mod n < n" using assms by simp
  have "(t + ?a) mod n = (t mod n + (i + n - t mod n)) mod n" by (simp add: mod_simps)
  also have "t mod n + (i + n - t mod n) = i + n" using le by simp
  also have "(i + n) mod n = i" using assms by simp
  finally have "(t + ?a) mod n = i" .
  moreover have "?a < n" using assms by simp
  ultimately show ?thesis by force
qed

lemma post_loop_first_up:
  assumes "\<And>idx. idx \<in> set idxs \<Longrightarrow> \<not> up idx \<Longrightarrow> exchange T (endpoints c ! idx @ path) body w = (None, w)"
    and "\<And>idx. idx \<in> set idxs \<Longrightarrow> up idx \<Longrightarrow> fst (exchange T (endpoints c ! idx @ path) body w) \<noteq> None"
    and "\<exists>idx \<in> set idxs. up idx"
  shows "\<exists>idx \<in> set idxs. up idx \<and> post_loop T path body idxs (c, w) = post_loop T path body [idx] (c, w)"
  using assms
proof (induction idxs)
  case (Cons j idxs)
  obtain r w' where e: "exchange T (endpoints c ! j @ path) body w = (r, w')"
    by (cases "exchange T (endpoints c ! j @ path) body w")
  show ?case
  proof (cases "up j")
    case True
    then have "r \<noteq> None" using Cons.prems(2) [of j] e by auto
    then show ?thesis using True e by auto
  next
    case False
    then have "exchange T (endpoints c ! j @ path) body w = (None, w)" using Cons.prems(1) by simp
    moreover have "\<exists>idx \<in> set idxs. up idx \<and> post_loop T path body idxs (c, w) = post_loop T path body [idx] (c, w)"
      using Cons False by (intro Cons.IH) auto
    ultimately show ?thesis by auto
  qed
qed simp

lemma kv_dict_entries:
  assumes "list_all2 kv_doc kvs (map (\<lambda>(k, v). (utf8 k, utf8 v)) es)" and "\<forall>(k, v) \<in> set es. scalars k \<and> scalars v"
    and "distinct (map fst (d @ es))"
  shows "kv_dict kvs d = Ret (d @ es)"
  using assms
proof (induction es arbitrary: kvs d)
  case (Cons kv es)
  obtain k v where kv: "kv = (k, v)" by (cases kv)
  obtain j js where kvs: "kvs = j # js" "kv_doc j (utf8 k, utf8 v)"
    "list_all2 kv_doc js (map (\<lambda>(k, v). (utf8 k, utf8 v)) es)"
    using Cons.prems(1) kv by (auto simp: list_all2_Cons2)
  have sc: "scalars k" "scalars v" using Cons.prems(2) kv by auto
  have empty: "utf8 v = [] \<longleftrightarrow> v = []" "unb64 [] = Ret []"
    by (cases v) (auto simp: utf8_def unb64_def str_decode_strict_def str_encode_def)
  have "kv_pair j = Ret (k, v)"
    using kvs(2) unb64_b64encode [OF sc(1)] unb64_b64encode [OF sc(2)] empty
    by (auto simp: kv_doc_def kv_pair_def split: if_splits)
  moreover have "dict_put k v d = d @ [(k, v)]"
    using Cons.prems(3) kv by (auto simp: dict_put_def)
  ultimately show ?case
    using Cons.IH [OF kvs(3), of "d @ [(k, v)]"] Cons.prems(2,3) kv kvs(1) by simp
qed simp

lemma get_prefix_entries:
  assumes doc: "etcd_doc T up (map (\<lambda>(k, v). (utf8 k, utf8 v)) es)" and sc: "\<forall>(k, v) \<in> set es. scalars k \<and> scalars v"
    and ds: "distinct (map fst es)" and pf: "scalars p" "p \<noteq> []" and ups: "\<exists>u \<in> set (endpoints c). up u"
  shows "\<exists>c'. get_prefix T p (c, w) = (Ret (filter (\<lambda>(k, _). take (length p) k = p) es), (c', w))"
proof -
  let ?path = "lit ''/v3/kv/range''" and ?sel = "filter (\<lambda>(k, _). take (length p) k = p) es"
  obtain e where e: "range_end p = Ret (b64encode e)" "range_end_loop (rev (utf8 p)) = Some e" using utf8_range_end [OF pf] by blast
  let ?body = "[(''key'', JStr (b64encode (utf8 p))), (''range_end'', JStr (b64encode e))]"
  have "e \<noteq> [0]" using range_end_loop_Some [of "rev (utf8 p)" e] e(2) utf8_bytes [OF pf(1)] by auto
  then have "in_range (utf8 p) e (utf8 k) \<longleftrightarrow> take (length p) k = p" if "scalars k" for k
    using range_is_prefix [OF e(2)] utf8_bytes [OF pf(1)] utf8_bytes [OF that] utf8_prefix [OF pf(1) that]
    by (simp add: in_range_def)
  then have sel: "filter (\<lambda>kv. in_range (utf8 p) e (fst kv)) (map (\<lambda>(k, v). (utf8 k, utf8 v)) es) =
      map (\<lambda>(k, v). (utf8 k, utf8 v)) ?sel"
    using sc by (induction es) auto
  have ans: "\<exists>o1 kvs. exchange T (u @ ?path) ?body w = (Some (Some (JObj o1)), w) \<and> map_of (rev o1) ''result'' = None \<and>
      map_of (rev o1) ''kvs'' = (if ?sel = [] then None else Some (JArr kvs)) \<and>
      list_all2 kv_doc kvs (map (\<lambda>(k, v). (utf8 k, utf8 v)) ?sel)" if "up u" for u
  proof -
    have "\<forall>b \<in> set (utf8 p @ e). b < 256"
      using range_end_loop_Some [of "rev (utf8 p)" e] e(2) utf8_bytes [OF pf(1)] by fastforce
    with doc that have "let sel = filter (\<lambda>kv. in_range (utf8 p) e (fst kv)) (map (\<lambda>(k, v). (utf8 k, utf8 v)) es) in
        \<exists>o1 kvs. exchange T (u @ ?path) ?body w = (Some (Some (JObj o1)), w) \<and> map_of (rev o1) ''result'' = None \<and>
          map_of (rev o1) ''kvs'' = (if sel = [] then None else Some (JArr kvs)) \<and> list_all2 kv_doc kvs sel"
      unfolding etcd_doc_def by blast
    then show ?thesis unfolding sel Let_def by simp
  qed
  let ?n = "length (endpoints c)"
  let ?idxs = "map (\<lambda>a. (turn c + a) mod ?n) [0..<?n]"
  obtain i where i: "i < ?n" "up (endpoints c ! i)" using ups by (auto simp: in_set_conv_nth)
  have "\<exists>idx \<in> set ?idxs. up (endpoints c ! idx) \<and> post_loop T ?path ?body ?idxs (c, w) = post_loop T ?path ?body [idx] (c, w)"
  proof (rule post_loop_first_up [where up = "\<lambda>idx. up (endpoints c ! idx)"])
    show "\<exists>idx \<in> set ?idxs. up (endpoints c ! idx)" using rotation_covers [OF i(1)] i(2) by blast
    show "fst (exchange T (endpoints c ! idx @ ?path) ?body w) \<noteq> None" if "up (endpoints c ! idx)" for idx
      using ans [OF that] by auto
    show "exchange T (endpoints c ! idx @ ?path) ?body w = (None, w)" if "\<not> up (endpoints c ! idx)" for idx
      using doc that by (simp add: etcd_doc_def)
  qed
  then obtain idx where x: "up (endpoints c ! idx)" "post T ?path ?body (c, w) = post_loop T ?path ?body [idx] (c, w)"
    by (auto simp: post_def Let_def)
  obtain o1 kvs where o: "exchange T (endpoints c ! idx @ ?path) ?body w = (Some (Some (JObj o1)), w)"
    "map_of (rev o1) ''result'' = None" "map_of (rev o1) ''kvs'' = (if ?sel = [] then None else Some (JArr kvs))"
    "list_all2 kv_doc kvs (map (\<lambda>(k, v). (utf8 k, utf8 v)) ?sel)" using ans [OF x(1)] by blast
  have "kv_dict kvs [] = Ret ?sel"
    using kv_dict_entries [OF o(4), of "[]"] sc ds by (auto simp: distinct_map_filter)
  then show ?thesis
    using x(2) o e(1) str_encode_utf8 [OF pf(1)]
    by (auto simp: get_prefix_def b64_def json_get_def)
qed

lemma registry_prefix_facts: "scalars REGISTRY_PREFIX" "REGISTRY_PREFIX \<noteq> []"
  by (simp_all add: REGISTRY_PREFIX_def lit_def scalars_def scalar_def)

lemma strip_prefix_dict:
  assumes "distinct (map fst es)" and "\<forall>(k, v) \<in> set es. take n k = p" and "distinct (map fst (d @ map (\<lambda>(k, v). (drop n k, v)) es))"
  shows "foldl (\<lambda>d (k, v). dict_put (drop n k) v d) d es = d @ map (\<lambda>(k, v). (drop n k, v)) es"
  using assms
proof (induction es arbitrary: d)
  case (Cons kv es)
  obtain k v where kv: "kv = (k, v)" by (cases kv)
  have "dict_put (drop n k) v d = d @ [(drop n k, v)]" using Cons.prems(3) kv by (auto simp: dict_put_def)
  then show ?case using Cons.IH [of "d @ [(drop n k, v)]"] Cons.prems kv by simp
qed simp

lemma distinct_stripped:
  assumes "distinct (map fst es)" and "\<forall>(k, v) \<in> set es. take n k = p"
  shows "distinct (map fst (map (\<lambda>(k, v). (drop n k, v)) es))"
proof -
  have "take n k = p" if "k \<in> fst ` set es" for k using assms(2) that by auto
  then have "inj_on (drop n) (fst ` set es)" by (intro inj_onI) (metis append_take_drop_id)
  then have "distinct (map (drop n) (map fst es))" using assms(1) by (simp add: distinct_map comp_inj_on)
  then show ?thesis by (simp add: comp_def case_prod_unfold)
qed

text \<open>C25: a lookup sees every registered replica and nothing else. Whatever else etcd stores, if at least one of the endpoints
  answers, \<^verbatim>\<open>lookup\<close> returns exactly the ids and addresses of the keys under the registry prefix: the range end computed
  from the prefix covers the prefix precisely, and base64 and UTF-8 lose nothing.\<close>

theorem lookup_lists_registered:
  assumes "etcd_doc T up (map (\<lambda>(k, v). (utf8 k, utf8 v)) es)" and "\<forall>(k, v) \<in> set es. scalars k \<and> scalars v"
    and "distinct (map fst es)" and "\<exists>u \<in> set hosts. up (normalise u)"
  shows "lookup T hosts w =
    (Ret (map (\<lambda>(k, v). (drop (length REGISTRY_PREFIX) k, v))
      (filter (\<lambda>(k, _). take (length REGISTRY_PREFIX) k = REGISTRY_PREFIX) es)), w)"
proof -
  let ?n = "length REGISTRY_PREFIX"
  let ?sel = "filter (\<lambda>(k, _). take ?n k = REGISTRY_PREFIX) es"
  let ?c = "\<lparr>endpoints = map normalise hosts, turn = 0\<rparr>"
  have c: "new_etcd_client hosts = Ret ?c" using assms(4) by (auto simp: new_etcd_client_def)
  have "\<exists>u \<in> set (endpoints ?c). up u" using assms(4) by auto
  from get_prefix_entries [OF assms(1-3) registry_prefix_facts this]
  obtain c' where "get_prefix T REGISTRY_PREFIX (?c, w) = (Ret ?sel, (c', w))" by blast
  moreover have "foldl (\<lambda>d (k, v). dict_put (drop ?n k) v d) [] ?sel = [] @ map (\<lambda>(k, v). (drop ?n k, v)) ?sel"
  proof (rule strip_prefix_dict)
    show ds: "distinct (map fst ?sel)" using assms(3) by (simp add: distinct_map_filter)
    show pf: "\<forall>(k, v) \<in> set ?sel. take ?n k = REGISTRY_PREFIX" by auto
    from distinct_stripped [OF ds pf] show "distinct (map fst ([] @ map (\<lambda>(k, v). (drop ?n k, v)) ?sel))" by simp
  qed
  ultimately show ?thesis using c by (simp add: lookup_def)
qed

text \<open>A small etcd for the concrete instance: one host, three keys, of which two are replicas.\<close>

definition demo_entries :: "(str \<times> str) list" where
  "demo_entries = [(lit ''/nanoserve/other'', lit ''x''), (lit ''/nanoserve/replicas/r1'', lit ''h:1''),
     (lit ''/nanoserve/replicas/r2'', [])]"

definition demo_kv :: "bytes \<times> bytes \<Rightarrow> json" where
  "demo_kv kv = JObj ([(''key'', JStr (b64encode (fst kv)))] @
     (if snd kv = [] then [] else [(''value'', JStr (b64encode (snd kv)))]))"

definition demo_reply :: "(bytes \<times> bytes) list \<Rightarrow> json" where
  "demo_reply kvs = JObj (if kvs = [] then [] else [(''kvs'', JArr (map demo_kv kvs))])"

definition demo_etcd :: "unit transport" where
  "demo_etcd =
     \<lparr>exchange = (\<lambda>url body w.
        if url = lit ''http://b/v3/kv/range''
        then (case body of
                [(_, JStr lo), (_, JStr hi)] \<Rightarrow>
                  (case (a2b_base64 0 0 0 lo, a2b_base64 0 0 0 hi) of
                     (Ret lo, Ret hi) \<Rightarrow>
                       (Some (Some (demo_reply (filter (\<lambda>kv. in_range lo hi (fst kv))
                          (map (\<lambda>(k, v). (utf8 k, utf8 v)) demo_entries)))), w)
                   | _ \<Rightarrow> (Some None, w))
              | _ \<Rightarrow> (Some None, w))
        else (None, w)),
      repr_of = (\<lambda>_. [])\<rparr>"

lemma demo_etcd_doc: "etcd_doc demo_etcd (\<lambda>u. u = lit ''http://b'') (map (\<lambda>(k, v). (utf8 k, utf8 v)) demo_entries)"
proof -
  let ?store = "map (\<lambda>(k, v). (utf8 k, utf8 v)) demo_entries"
  have url: "lit ''http://b'' @ lit ''/v3/kv/range'' = lit ''http://b/v3/kv/range''" by (simp add: lit_def)
  then have down: "u @ lit ''/v3/kv/range'' \<noteq> lit ''http://b/v3/kv/range''" if "u \<noteq> lit ''http://b''" for u
    using that by (metis append_same_eq)
  have kv: "list_all2 kv_doc (map demo_kv kvs) kvs" for kvs
    by (auto simp: list_all2_conv_all_nth kv_doc_def demo_kv_def)
  show ?thesis
    unfolding etcd_doc_def Let_def
  proof (intro conjI allI impI)
    fix u lo hi :: "nat list" and w
    assume u: "u = lit ''http://b''" and bytes: "\<forall>b \<in> set (lo @ hi). b < 256"
    let ?sel = "filter (\<lambda>kv. in_range lo hi (fst kv)) ?store"
    have "a2b_base64 0 0 0 (b64encode lo) = Ret lo" "a2b_base64 0 0 0 (b64encode hi) = Ret hi"
      using bytes by (auto intro!: a2b_b64encode)
    then have "exchange demo_etcd (u @ lit ''/v3/kv/range'') [(''key'', JStr (b64encode lo)), (''range_end'', JStr (b64encode hi))] w =
        (Some (Some (demo_reply ?sel)), w)"
      unfolding u url by (simp add: demo_etcd_def)
    then show "\<exists>o1 kvs. exchange demo_etcd (u @ lit ''/v3/kv/range'')
          [(''key'', JStr (b64encode lo)), (''range_end'', JStr (b64encode hi))] w = (Some (Some (JObj o1)), w) \<and>
        map_of (rev o1) ''result'' = None \<and> map_of (rev o1) ''kvs'' = (if ?sel = [] then None else Some (JArr kvs)) \<and>
        list_all2 kv_doc kvs ?sel"
      using kv [of ?sel] unfolding demo_reply_def by (intro exI [of _ "map demo_kv ?sel"] exI conjI) (assumption, simp_all)
  qed (simp add: demo_etcd_def down)
qed

theorem lookup_lists_registered_witness:
  "lookup demo_etcd [lit '' a'', lit ''http://b/''] () = (Ret [(lit ''r1'', lit ''h:1''), (lit ''r2'', [])], ())"
proof -
  have n: "normalise (lit ''http://b/'') = lit ''http://b''"
    by (simp add: normalise_def py_strip_def py_space_def lit_def Let_def)
  have sc: "\<forall>(k, v) \<in> set demo_entries. scalars k \<and> scalars v" "distinct (map fst demo_entries)"
    by (simp_all add: demo_entries_def lit_def scalars_def scalar_def)
  show ?thesis
    using lookup_lists_registered [OF demo_etcd_doc sc, of "[lit '' a'', lit ''http://b/'']" "()"] n
    by (simp add: demo_entries_def REGISTRY_PREFIX_def lit_def)
qed

section \<open>Renewal\<close>















end
