(* ===== verification/Replica.thy ===== *)
theory Replica
  imports Server
begin


datatype wire_reason = REASON_UNSPECIFIED | W_EOS | W_LENGTH | W_CANCELLED | W_REJECTED | W_PREEMPTED | W_ERROR

datatype chunk = TokenChunk str nat nat | FinishChunk wire_reason nat string


record in_flight =
  fl_request :: request
  fl_started :: real
  fl_emitted :: "(nat \<times> str) list"

record servicer =
  rp_ae :: async_engine
  rp_tok :: bpe
  rp_id :: string
  rp_started_at :: real
  rp_draining :: bool
  rp_inflight :: "(string \<times> in_flight) list"


definition finish_chunk :: "wire_reason \<Rightarrow> nat \<Rightarrow> string \<Rightarrow> chunk" where
  "finish_chunk reason tokens message = FinishChunk reason tokens message"




record call =
  cl_conn :: conn
  cl_base :: nat

record replica =
  rp :: servicer
  rp_calls :: "string \<rightharpoonup> call"
  rp_sent :: "string \<Rightarrow> chunk list"
  rp_log :: "(string \<times> nat) list"






definition follow_end :: "in_flight \<Rightarrow> chunk" where
  "follow_end en = finish_chunk W_CANCELLED (length (fl_emitted en)) ''duplicate request_id''"

section \<open>The loop of a call\<close>






section \<open>Control\<close>





section \<open>All of it at once\<close>



section \<open>The view as an HTTP server\<close>

fun chunk_text :: "chunk \<Rightarrow> str" where
  "chunk_text (TokenChunk piece _ _) = piece"
| "chunk_text (FinishChunk _ _ _) = []"


definition chunks_text :: "chunk list \<Rightarrow> str" where
  "chunks_text cs = concat (map chunk_text cs)"

lemma chunks_text_simps [simp]: "chunks_text [] = []" "chunks_text (a @ b) = chunks_text a @ chunks_text b"
  "chunks_text [TokenChunk p t i] = p" "chunks_text [finish_chunk q n m] = []"
  by (simp_all add: chunks_text_def finish_chunk_def)

definition http_view :: "replica \<Rightarrow> server" where
  "http_view r = \<lparr>sv_ae = rp_ae (rp r), sv_tok = rp_tok (rp r), sv_conns = (\<lambda>rid. map_option cl_conn (rp_calls r rid)),
     sv_sent = (\<lambda>rid. [Token (chunks_text (rp_sent r rid))]), sv_log = rp_log r\<rparr>"

lemma http_view_simps [simp]:
  "sv_ae (http_view r) = rp_ae (rp r)" "sv_tok (http_view r) = rp_tok (rp r)" "sv_conns (http_view r) rid = map_option cl_conn (rp_calls r rid)"
  "texts (sv_sent (http_view r) rid) = chunks_text (rp_sent r rid)" "sv_log (http_view r) = rp_log r"
  by (simp_all add: http_view_def)





section \<open>The invariant\<close>

definition ids :: "engine \<Rightarrow> string multiset" where
  "ids e = rids (waiting e) + sids (running e)"

lemma ids_update [simp]: "ids (e\<lparr>e_clock := n\<rparr>) = ids e" "ids (e\<lparr>emitted := xs, newly_finished := ys\<rparr>) = ids e"
  "ids (request_cancel rid e) = ids e"
  by (simp_all add: ids_def request_cancel_def)


definition indexed :: "nat \<Rightarrow> (nat \<times> str) list \<Rightarrow> chunk list" where
  "indexed base xs = map (\<lambda>(i, (tid, piece)). TokenChunk piece tid (base + i)) (enumerate 0 xs)"

lemma indexed_snoc [simp]: "indexed base (xs @ [(tid, piece)]) = indexed base xs @ [TokenChunk piece tid (base + length xs)]"
  by (simp add: indexed_def enumerate_append_eq)

lemma indexed_Nil [simp]: "indexed base [] = []"
  by (simp add: indexed_def)












section \<open>Every step keeps it\<close>
















section \<open>What a caller sees\<close>









end
